(* ===== verification/Prelude.thy ===== *)
theory Prelude
  imports Main
begin

text \<open>
  What the component theories share: the collections of simplification rules a component
  fills with the unfoldings of its operations, the model of \<open>std::time::Duration\<close> (a natural
  number of nanoseconds), the reading of a possibly panicking computation as an \<open>option\<close>, and
  generic facts on lists and association lists.
\<close>

section \<open>Collections\<close>

text \<open>
  \<open>step_defs\<close> collects the unfoldings of a component's operations, \<open>inv_defs\<close> those of its
  invariants; \<open>effect_defs\<close> the default values of the effect records.
\<close>

named_theorems step_defs "unfolding equations of operations"
named_theorems inv_defs "unfolding equations of invariants"
named_theorems effect_defs "default values of effect records"

section \<open>Durations\<close>

text \<open>
  \<open>Duration\<close> is a count of nanoseconds. Rust stores 64 bits of seconds and a nanosecond part,
  so its largest value is \<open>dur_max\<close>; \<open>saturating_sub\<close> is subtraction on \<open>nat\<close>.
\<close>

type_synonym duration = nat

definition dur_secs :: "nat \<Rightarrow> duration" where
  "dur_secs n = n * 1000000000"

definition dur_millis :: "nat \<Rightarrow> duration" where
  "dur_millis n = n * 1000000"

definition as_secs :: "duration \<Rightarrow> nat" where
  "as_secs d = d div 1000000000"

definition dur_max :: duration where
  "dur_max = (2 ^ 64 - 1) * 1000000000 + 999999999"

definition saturating_mul :: "duration \<Rightarrow> nat \<Rightarrow> duration" where
  "saturating_mul d n = min (d * n) dur_max"

lemma dur_secs_mono [simp]: "dur_secs m \<le> dur_secs n \<longleftrightarrow> m \<le> n"
  by (simp add: dur_secs_def)

lemma dur_secs_less [simp]: "dur_secs m < dur_secs n \<longleftrightarrow> m < n"
  by (simp add: dur_secs_def)

lemma as_secs_dur_secs [simp]: "as_secs (dur_secs n) = n"
  by (simp add: as_secs_def dur_secs_def)

section \<open>Lists\<close>

lemma find_Some_mem: "find P xs = Some x \<Longrightarrow> x \<in> set xs \<and> P x"
  by (auto simp: find_Some_iff in_set_conv_nth)

lemma find_None_all: "find P xs = None \<longleftrightarrow> (\<forall>x \<in> set xs. \<not> P x)"
  by (auto simp: find_None_iff)

text \<open>The first element a predicate holds of, updated: \<open>iter_mut().find\<close>.\<close>

fun update_first :: "('a \<Rightarrow> bool) \<Rightarrow> ('a \<Rightarrow> 'a) \<Rightarrow> 'a list \<Rightarrow> 'a list" where
  "update_first P f [] = []"
| "update_first P f (x # xs) = (if P x then f x # xs else x # update_first P f xs)"

lemma update_first_key [simp]:
  "(\<And>x. g (f x) = g x) \<Longrightarrow> map g (update_first P f xs) = map g xs"
  by (induction xs) auto

lemma update_first_length [simp]: "length (update_first P f xs) = length xs"
  by (induction xs) auto

lemma update_first_Nil [simp]: "update_first P f xs = [] \<longleftrightarrow> xs = []"
  by (cases xs) auto

lemma set_update_first: "x \<in> set (update_first P f xs) \<Longrightarrow> x \<in> set xs \<or> (\<exists>y \<in> set xs. x = f y)"
  by (induction xs) (auto split: if_splits)

section \<open>Runs of a deterministic machine\<close>

text \<open>
  A component driven by a list of operations. The interface below is what a run needs of a
  component: an invariant that one step keeps; a run then keeps it.
\<close>

fun run :: "('o \<Rightarrow> 's \<Rightarrow> 's) \<Rightarrow> 'o list \<Rightarrow> 's \<Rightarrow> 's" where
  "run f [] s = s"
| "run f (x # xs) s = run f xs (f x s)"

lemma run_append [simp]: "run f (xs @ ys) s = run f ys (run f xs s)"
  by (induction xs arbitrary: s) auto

locale invariant_machine =
  fixes step :: "'o \<Rightarrow> 's \<Rightarrow> 's"
    and inv :: "'s \<Rightarrow> bool"
  assumes step_inv: "inv s \<Longrightarrow> inv (step x s)"
begin

lemma run_inv: "inv s \<Longrightarrow> inv (run step xs s)"
  by (induction xs arbitrary: s) (auto intro: step_inv)

text \<open>
  A change of a state predicate over a run is a change at one of its steps: the run splits
  into a prefix that still has the old value and the operation that changed it.
\<close>

lemma run_first_change:
  assumes "inv s" and "P s" and "\<not> P (run step xs s)"
  shows "\<exists>ys x zs. xs = ys @ x # zs \<and> inv (run step ys s) \<and> P (run step ys s)
           \<and> \<not> P (step x (run step ys s))"
  using assms
proof (induction xs arbitrary: s)
  case Nil
  then show ?case by simp
next
  case (Cons x xs)
  show ?case
  proof (cases "P (step x s)")
    case True
    from Cons.prems have "inv (step x s)" and "\<not> P (run step xs (step x s))"
      by (auto intro: step_inv)
    with True obtain ys y zs where "xs = ys @ y # zs" "inv (run step ys (step x s))"
      "P (run step ys (step x s))" "\<not> P (step y (run step ys (step x s)))"
      using Cons.IH by blast
    then have "x # xs = (x # ys) @ y # zs \<and> inv (run step (x # ys) s)
        \<and> P (run step (x # ys) s) \<and> \<not> P (step y (run step (x # ys) s))"
      by simp
    then show ?thesis by blast
  next
    case False
    with Cons.prems have "x # xs = [] @ x # xs \<and> inv (run step [] s) \<and> P (run step [] s)
        \<and> \<not> P (step x (run step [] s))"
      by simp
    then show ?thesis by blast
  qed
qed

end

section \<open>Runs of a machine that may panic when misused\<close>

text \<open>
  Some operations have a condition their callers see to, and panic or break the invariant without it. A run
  fits when every operation meets its condition where it runs. What a component owes is one step; no
  fitting run panics then, and each keeps the invariant.
\<close>

fun guarded_run :: "('o \<Rightarrow> 's \<Rightarrow> 's option) \<Rightarrow> 'o list \<Rightarrow> 's \<Rightarrow> 's option" where
  "guarded_run f [] s = Some s"
| "guarded_run f (x # xs) s = Option.bind (f x s) (guarded_run f xs)"

fun guarded_fits :: "('o \<Rightarrow> 's \<Rightarrow> 's option) \<Rightarrow> ('o \<Rightarrow> 's \<Rightarrow> bool) \<Rightarrow> 'o list \<Rightarrow> 's \<Rightarrow> bool" where
  "guarded_fits f fits [] s = True"
| "guarded_fits f fits (x # xs) s = (fits x s \<and> (case f x s of None \<Rightarrow> True | Some s1 \<Rightarrow> guarded_fits f fits xs s1))"

locale guarded_machine =
  fixes step :: "'o \<Rightarrow> 's \<Rightarrow> 's option"
    and fits :: "'o \<Rightarrow> 's \<Rightarrow> bool"
    and inv :: "'s \<Rightarrow> bool"
  assumes step_fits: "inv s \<Longrightarrow> fits x s \<Longrightarrow> \<exists>s'. step x s = Some s' \<and> inv s'"
begin

lemma guarded_run_ok: "inv s \<Longrightarrow> guarded_fits step fits xs s \<Longrightarrow> \<exists>s'. guarded_run step xs s = Some s' \<and> inv s'"
proof (induction xs arbitrary: s)
  case (Cons x xs)
  obtain s1 where "step x s = Some s1" "inv s1" using step_fits [of s x] Cons.prems by auto
  then show ?case using Cons.IH [of s1] Cons.prems(2) by simp
qed simp

end

section \<open>Runs of a machine that may panic\<close>

text \<open>
  A step that yields the next state and an effect, or panics (\<open>None\<close>). What a component owes is
  that under its invariant no step panics and the invariant is kept; no run panics then.
\<close>

fun prun :: "('o \<Rightarrow> 's \<Rightarrow> ('s \<times> 'e) option) \<Rightarrow> 'o list \<Rightarrow> 's \<Rightarrow> ('s \<times> 'e list) option" where
  "prun f [] s = Some (s, [])"
| "prun f (x # xs) s =
     (case f x s of
        None \<Rightarrow> None
      | Some (s1, e) \<Rightarrow> map_option (\<lambda>(s2, es). (s2, e # es)) (prun f xs s1))"

locale total_machine =
  fixes step :: "'o \<Rightarrow> 's \<Rightarrow> ('s \<times> 'e) option"
    and inv :: "'s \<Rightarrow> bool"
  assumes step_total: "inv s \<Longrightarrow> \<exists>s' e. step x s = Some (s', e) \<and> inv s'"
begin

lemma prun_total: "inv s \<Longrightarrow> \<exists>s' es. prun step xs s = Some (s', es) \<and> inv s' \<and> length es = length xs"
proof (induction xs arbitrary: s)
  case Nil
  then show ?case by simp
next
  case (Cons x xs)
  obtain s1 e where 1: "step x s = Some (s1, e)" "inv s1"
    using step_total [OF Cons.prems] by blast
  from Cons.IH [OF 1(2)] obtain s' es where "prun step xs s1 = Some (s', es)" "inv s'"
    "length es = length xs" by blast
  with 1 show ?case by simp
qed

lemma prun_inv: "inv s \<Longrightarrow> prun step xs s = Some (s', es) \<Longrightarrow> inv s'"
  using prun_total [of s xs] by auto

text \<open>An effect of a run is the effect of the step at its position.\<close>

lemma prun_effect:
  assumes "inv s" and "prun step xs s = Some (s', es)" and "i < length es"
  shows "\<exists>si si'. inv si \<and> step (xs ! i) si = Some (si', es ! i)"
  using assms
proof (induction xs arbitrary: s es i)
  case Nil
  then show ?case by simp
next
  case (Cons x xs)
  from Cons.prems(2) obtain s1 e es' where x: "step x s = Some (s1, e)"
    and rest: "prun step xs s1 = Some (s', es')" and es: "es = e # es'"
    by (auto split: option.splits)
  have s1: "inv s1" using step_total [OF Cons.prems(1), of x] x by auto
  show ?case
  proof (cases i)
    case 0
    with x es Cons.prems(1) show ?thesis by auto
  next
    case (Suc j)
    with Cons.IH [OF s1 rest, of j] Cons.prems(3) es show ?thesis by simp
  qed
qed

text \<open>A predicate a run ends with and did not start with was established by one of its steps.\<close>

lemma prun_establishes:
  assumes "inv s" and "prun step xs s = Some (s', es)" and "\<not> P s" and "P s'"
  shows "\<exists>x \<in> set xs. \<exists>si si' e. inv si \<and> \<not> P si \<and> step x si = Some (si', e) \<and> P si'"
  using assms
proof (induction xs arbitrary: s es)
  case Nil
  then show ?case by simp
next
  case (Cons x xs)
  from Cons.prems(2) obtain s1 e es' where x: "step x s = Some (s1, e)"
    and rest: "prun step xs s1 = Some (s', es')"
    by (auto split: option.splits)
  have s1: "inv s1" using step_total [OF Cons.prems(1), of x] x by auto
  show ?case
  proof (cases "P s1")
    case True
    with x Cons.prems(1,3) show ?thesis by auto
  next
    case False
    from Cons.IH [OF s1 rest False Cons.prems(4)] show ?thesis by auto
  qed
qed

end

end
