(* ===== verification/Screen_Shield.thy ===== *)
theory Screen_Shield
  imports Prelude
begin

text \<open>
  The screen shield, \<open>src/src/screen_shield.rs\<close>: the model of the session lock. \<open>active\<close> says
  the shield is down, \<open>locked\<close> that raising it needs authentication. Each method is a function
  from the shield to the shield and the effects the caller publishes; \<open>Result\<close> is a sum.
  Counters (\<open>epoch: u64\<close>, \<open>recover_attempts: u32\<close>) are natural numbers: the build has
  \<open>overflow-checks\<close> on, so they never wrap.
\<close>

section \<open>Data\<close>

record shield_effects =
  active_changed :: "bool option"
  locked_changed :: "bool option"
  wake_up_screen :: bool
  clear_clipboard :: bool
  request_authenticator :: "nat option"
  cancel_authenticator :: bool
  retry_authenticator_after :: "duration option"
  arm_lock_timer :: "duration option"
  cancel_lock_timer :: bool
  cancel_dialog :: bool
  start_fade :: bool
  stop_fade :: bool
  curtain_instant :: bool

definition no_effects :: shield_effects where
  "no_effects = \<lparr>active_changed = None, locked_changed = None, wake_up_screen = False,
     clear_clipboard = False, request_authenticator = None, cancel_authenticator = False,
     retry_authenticator_after = None, arm_lock_timer = None, cancel_lock_timer = False,
     cancel_dialog = False, start_fade = False, stop_fade = False, curtain_instant = False\<rparr>"

record shield_settings =
  disable_lock_screen :: bool
  lock_enabled :: bool
  disable_show_password :: bool
  lock_delay :: duration
  user_switch_enabled :: bool
  disable_user_switching :: bool
  enable_fingerprint :: bool
  enable_password :: bool
  enable_smartcard :: bool
  restart_enabled :: bool

definition STANDARD_FADE_TIME :: duration where
  "STANDARD_FADE_TIME = dur_secs 10"

definition default_shield_settings :: shield_settings where
  "default_shield_settings = \<lparr>disable_lock_screen = False, lock_enabled = True,
     disable_show_password = False, lock_delay = 0, user_switch_enabled = True,
     disable_user_switching = False, enable_fingerprint = True, enable_password = True,
     enable_smartcard = False, restart_enabled = False\<rparr>"

definition RECOVER_FIRST :: duration where
  "RECOVER_FIRST = dur_secs 1"

definition RECOVER_MAX :: duration where
  "RECOVER_MAX = dur_secs 30"

datatype lock_refused = LockedDown

record screen_shield =
  sh_active :: bool
  sh_locked :: bool
  sh_activation_time :: "duration option"
  sh_settings :: shield_settings
  sh_awaiting :: "nat option"
  sh_epoch :: nat
  sh_recover_attempts :: nat
  sh_greeter :: bool

definition new_shield :: "shield_settings \<Rightarrow> screen_shield" where
  "new_shield st = \<lparr>sh_active = False, sh_locked = False, sh_activation_time = None,
     sh_settings = st, sh_awaiting = None, sh_epoch = 0, sh_recover_attempts = 0,
     sh_greeter = False\<rparr>"

definition shield_set_settings :: "shield_settings \<Rightarrow> screen_shield \<Rightarrow> screen_shield" where
  "shield_set_settings st s = s\<lparr>sh_settings := st\<rparr>"

section \<open>Predicates\<close>

definition is_challenging :: "screen_shield \<Rightarrow> bool" where
  "is_challenging s \<longleftrightarrow> sh_locked s \<or> sh_awaiting s \<noteq> None"

definition is_dismissible :: "screen_shield \<Rightarrow> bool" where
  "is_dismissible s \<longleftrightarrow> sh_active s \<and> \<not> is_challenging s"

definition is_up :: "screen_shield \<Rightarrow> bool" where
  "is_up s \<longleftrightarrow> sh_active s \<or> sh_greeter s"

text \<open>\<open>as u32\<close> keeps the low 32 bits.\<close>

definition active_time_secs :: "duration \<Rightarrow> screen_shield \<Rightarrow> nat" where
  "active_time_secs now s =
     (case sh_activation_time s of
        None \<Rightarrow> 0
      | Some started \<Rightarrow> as_secs (now - started) mod 2 ^ 32)"

definition wants_sleep_inhibitor :: "bool \<Rightarrow> bool \<Rightarrow> screen_shield \<Rightarrow> bool" where
  "wants_sleep_inhibitor session_active curtain_frame_owed s =
     (let lock_finished = sh_active s \<and> sh_awaiting s = None in
      session_active \<and> (\<not> lock_finished \<or> curtain_frame_owed)
        \<and> lock_enabled (sh_settings s) \<and> \<not> disable_lock_screen (sh_settings s))"

section \<open>Operations\<close>

definition set_active :: "bool \<Rightarrow> screen_shield \<Rightarrow> screen_shield \<times> shield_effects" where
  "set_active a s =
     (s\<lparr>sh_active := a\<rparr>,
      no_effects\<lparr>active_changed := (if sh_active s \<noteq> a then Some a else None)\<rparr>)"

definition set_locked :: "bool \<Rightarrow> screen_shield \<Rightarrow> screen_shield \<times> shield_effects" where
  "set_locked l s =
     (s\<lparr>sh_locked := l\<rparr>,
      no_effects\<lparr>locked_changed := (if sh_locked s \<noteq> l then Some l else None)\<rparr>)"

definition show_dialog :: "screen_shield \<Rightarrow> screen_shield" where
  "show_dialog s = s\<lparr>sh_greeter := True, sh_locked := True\<rparr>"

definition activate :: "duration \<Rightarrow> screen_shield \<Rightarrow> screen_shield \<times> shield_effects" where
  "activate now s =
     set_active True
       (if sh_activation_time s = None then s\<lparr>sh_activation_time := Some now\<rparr> else s)"

definition deactivate :: "screen_shield \<Rightarrow> screen_shield \<times> shield_effects" where
  "deactivate s =
     (if sh_greeter s
      then (let (s1, e) = set_active False (s\<lparr>sh_activation_time := None\<rparr>)
            in (s1, e\<lparr>wake_up_screen := True\<rparr>))
      else (let s0 = s\<lparr>sh_activation_time := None, sh_awaiting := None, sh_recover_attempts := 0\<rparr>;
                (s1, e) = set_active False s0;
                e1 = e\<lparr>wake_up_screen := True, cancel_authenticator := True,
                       cancel_lock_timer := True, stop_fade := True\<rparr>;
                (s2, unlocked) = set_locked False s1
            in (s2, e1\<lparr>locked_changed := locked_changed unlocked\<rparr>)))"

definition lock ::
  "duration \<Rightarrow> bool \<Rightarrow> screen_shield \<Rightarrow> screen_shield \<times> (lock_refused + shield_effects)" where
  "lock now password_mode_none s =
     (if disable_lock_screen (sh_settings s) then (s, Inl LockedDown)
      else if sh_greeter s then (s, Inr no_effects)
      else (let (s1, e) = activate now s;
                e1 = e\<lparr>clear_clipboard := True\<rparr>
            in if \<not> password_mode_none
               then (let ep = sh_epoch s1 + 1
                     in (s1\<lparr>sh_epoch := ep, sh_awaiting := Some ep\<rparr>,
                         Inr (e1\<lparr>request_authenticator := Some ep\<rparr>)))
               else (s1, Inr e1)))"

definition lock_instant ::
  "duration \<Rightarrow> bool \<Rightarrow> screen_shield \<Rightarrow> screen_shield \<times> (lock_refused + shield_effects)" where
  "lock_instant now password_mode_none s =
     (case lock now password_mode_none s of
        (s1, Inl r) \<Rightarrow> (s1, Inl r)
      | (s1, Inr e) \<Rightarrow> (s1, Inr (e\<lparr>curtain_instant := True\<rparr>)))"

definition recover_delay :: "nat \<Rightarrow> duration" where
  "recover_delay attempts = min (saturating_mul RECOVER_FIRST (2 ^ min attempts 16)) RECOVER_MAX"

definition authenticator_ready ::
  "nat \<Rightarrow> bool \<Rightarrow> screen_shield \<Rightarrow> screen_shield \<times> shield_effects" where
  "authenticator_ready ep ready s =
     (if sh_awaiting s \<noteq> Some ep \<or> \<not> is_up s then (s, no_effects)
      else (let s1 = s\<lparr>sh_awaiting := None\<rparr> in
        if \<not> ready
        then (if \<not> sh_locked s1 then (s1, no_effects)
              else (s1\<lparr>sh_recover_attempts := sh_recover_attempts s1 + 1\<rparr>,
                    no_effects\<lparr>retry_authenticator_after :=
                                 Some (recover_delay (sh_recover_attempts s1))\<rparr>))
        else set_locked True (s1\<lparr>sh_recover_attempts := 0\<rparr>)))"

definition retry_authenticator :: "screen_shield \<Rightarrow> screen_shield \<times> shield_effects" where
  "retry_authenticator s =
     (if \<not> sh_locked s \<or> \<not> is_up s \<or> sh_awaiting s \<noteq> None then (s, no_effects)
      else (let ep = sh_epoch s + 1
            in (s\<lparr>sh_epoch := ep, sh_awaiting := Some ep\<rparr>,
                no_effects\<lparr>request_authenticator := Some ep\<rparr>)))"

definition authenticator_lost :: "screen_shield \<Rightarrow> screen_shield \<times> shield_effects" where
  "authenticator_lost s =
     (let s1 = s\<lparr>sh_awaiting := None\<rparr> in
      if \<not> sh_locked s1 \<or> \<not> is_up s1 then (s1, no_effects) else retry_authenticator s1)"

definition drop_authenticator :: "screen_shield \<Rightarrow> screen_shield" where
  "drop_authenticator s = s\<lparr>sh_awaiting := None, sh_recover_attempts := 0\<rparr>"

definition on_session_idle :: "duration \<Rightarrow> screen_shield \<Rightarrow> screen_shield \<times> shield_effects" where
  "on_session_idle now s =
     (let e0 = no_effects\<lparr>cancel_dialog := True\<rparr>;
          e1 = (if lock_enabled (sh_settings s) \<and> \<not> sh_locked s \<and> sh_awaiting s = None
                then e0\<lparr>arm_lock_timer := Some (max (lock_delay (sh_settings s)) STANDARD_FADE_TIME)\<rparr>
                else e0);
          s1 = (if sh_activation_time s = None then s\<lparr>sh_activation_time := Some now\<rparr> else s);
          e2 = (if \<not> sh_active s1 then e1\<lparr>start_fade := True\<rparr> else e1)
      in (s1, e2))"

definition fade_complete :: "duration \<Rightarrow> screen_shield \<Rightarrow> screen_shield \<times> shield_effects" where
  "fade_complete now s =
     (let (s1, e) = activate now s in (s1, e\<lparr>curtain_instant := True, stop_fade := True\<rparr>))"

definition on_user_active :: "screen_shield \<Rightarrow> screen_shield \<times> shield_effects" where
  "on_user_active s =
     (if is_challenging s then (s, no_effects\<lparr>stop_fade := True\<rparr>)
      else (let (s1, e) = deactivate s in (s1, e\<lparr>stop_fade := True\<rparr>)))"

definition shield_wake_up :: "screen_shield \<Rightarrow> screen_shield \<times> shield_effects" where
  "shield_wake_up s =
     (if \<not> sh_active s then (s, no_effects)
      else (let (s1, e) = on_user_active s in (s1, e\<lparr>wake_up_screen := True\<rparr>)))"

definition prepare_for_sleep ::
  "bool \<Rightarrow> duration \<Rightarrow> bool \<Rightarrow> screen_shield \<Rightarrow> screen_shield \<times> shield_effects" where
  "prepare_for_sleep about_to_suspend now password_mode_none s =
     (if \<not> about_to_suspend then shield_wake_up s
      else if \<not> lock_enabled (sh_settings s) then (s, no_effects\<lparr>cancel_dialog := True\<rparr>)
      else (case lock now password_mode_none s of
              (s1, Inl _) \<Rightarrow> (s1, no_effects\<lparr>cancel_dialog := True\<rparr>)
            | (s1, Inr e) \<Rightarrow> (s1, e\<lparr>cancel_dialog := True\<rparr>)))"

lemmas shield_op_defs [step_defs] =
  set_active_def set_locked_def show_dialog_def activate_def deactivate_def lock_def
  lock_instant_def authenticator_ready_def retry_authenticator_def authenticator_lost_def
  drop_authenticator_def on_session_idle_def fade_complete_def on_user_active_def
  shield_wake_up_def prepare_for_sleep_def shield_set_settings_def

section \<open>The shield as a machine\<close>

text \<open>One constructor per method of the shield that writes it.\<close>

datatype shield_op =
    OpSettings shield_settings
  | OpShowDialog
  | OpActivate duration
  | OpDeactivate
  | OpLock duration bool
  | OpLockInstant duration bool
  | OpReady nat bool
  | OpLost
  | OpRetry
  | OpDrop
  | OpIdle duration
  | OpFadeComplete duration
  | OpUserActive
  | OpSleep bool duration bool
  | OpWake

fun shield_step :: "shield_op \<Rightarrow> screen_shield \<Rightarrow> screen_shield" where
  "shield_step (OpSettings st) s = shield_set_settings st s"
| "shield_step OpShowDialog s = show_dialog s"
| "shield_step (OpActivate now) s = fst (activate now s)"
| "shield_step OpDeactivate s = fst (deactivate s)"
| "shield_step (OpLock now pm) s = fst (lock now pm s)"
| "shield_step (OpLockInstant now pm) s = fst (lock_instant now pm s)"
| "shield_step (OpReady ep r) s = fst (authenticator_ready ep r s)"
| "shield_step OpLost s = fst (authenticator_lost s)"
| "shield_step OpRetry s = fst (retry_authenticator s)"
| "shield_step OpDrop s = drop_authenticator s"
| "shield_step (OpIdle now) s = fst (on_session_idle now s)"
| "shield_step (OpFadeComplete now) s = fst (fade_complete now s)"
| "shield_step OpUserActive s = fst (on_user_active s)"
| "shield_step (OpSleep b now pm) s = fst (prepare_for_sleep b now pm s)"
| "shield_step OpWake s = fst (shield_wake_up s)"

text \<open>
  The invariant of the shield: a lock or a pending request for a verifier only exists behind
  a shield that is up, a pending request is the latest one, an active shield has its
  activation time, failed recoveries belong to a lock, and the greeter is always locked.
\<close>

definition shield_ok :: "screen_shield \<Rightarrow> bool" where
  "shield_ok s \<longleftrightarrow>
     (sh_locked s \<longrightarrow> is_up s) \<and>
     (\<forall>ep. sh_awaiting s = Some ep \<longrightarrow> is_up s \<and> ep = sh_epoch s) \<and>
     (sh_active s \<longrightarrow> sh_activation_time s \<noteq> None) \<and>
     (0 < sh_recover_attempts s \<longrightarrow> sh_locked s) \<and>
     (sh_greeter s \<longrightarrow> sh_locked s)"

lemmas shield_inv_defs [inv_defs] = shield_ok_def is_up_def is_challenging_def is_dismissible_def

lemma shield_ok_new: "shield_ok (new_shield st)"
  by (simp add: new_shield_def inv_defs)

lemma shield_step_ok: "shield_ok s \<Longrightarrow> shield_ok (shield_step x s)"
  by (cases x)
     (auto simp: step_defs inv_defs Let_def split: if_splits option.splits sum.splits prod.splits)

interpretation shield: invariant_machine shield_step shield_ok
  by unfold_locales (rule shield_step_ok)

lemma shield_reachable_ok: "shield_ok (run shield_step xs (new_shield st))"
  by (rule shield.run_inv) (rule shield_ok_new)

lemma shield_step_greeter: "sh_greeter s \<Longrightarrow> sh_greeter (shield_step x s)"
  by (cases x)
     (auto simp: step_defs inv_defs Let_def split: if_splits option.splits sum.splits prod.splits)

lemma shield_step_epoch: "sh_epoch s \<le> sh_epoch (shield_step x s)"
  by (cases x)
     (auto simp: step_defs inv_defs Let_def split: if_splits option.splits sum.splits prod.splits)

lemma shield_run_epoch: "sh_epoch s \<le> sh_epoch (run shield_step xs s)"
  by (induction xs arbitrary: s) (auto intro: order_trans shield_step_epoch)

text \<open>The steps into and out of \<open>locked\<close>.\<close>

lemma shield_step_locks:
  assumes "\<not> sh_locked s" and "sh_locked (shield_step x s)"
  shows "x = OpShowDialog \<or> (\<exists>ep. x = OpReady ep True \<and> sh_awaiting s = Some ep \<and> is_up s)"
  using assms
  by (cases x)
     (auto simp: step_defs inv_defs Let_def split: if_splits option.splits sum.splits prod.splits)

lemma shield_step_unlocks:
  assumes "sh_locked s" and "\<not> sh_locked (shield_step x s)"
  shows "x = OpDeactivate \<and> \<not> sh_greeter s"
  using assms
  by (cases x)
     (auto simp: step_defs inv_defs Let_def split: if_splits option.splits sum.splits prod.splits)

lemma recover_delay_secs: "recover_delay n = dur_secs (min (2 ^ n) 30)"
proof (cases "n < 5")
  case True
  then have "n = 0 \<or> n = 1 \<or> n = 2 \<or> n = 3 \<or> n = 4" by arith
  then show ?thesis
    by (auto simp: recover_delay_def saturating_mul_def RECOVER_FIRST_def RECOVER_MAX_def
        dur_secs_def dur_max_def)
next
  case False
  then have "(2::nat) ^ 5 \<le> 2 ^ min n 16" by (intro power_increasing) auto
  moreover from False have "(2::nat) ^ 5 \<le> 2 ^ n" by (intro power_increasing) auto
  ultimately show ?thesis
    by (simp add: recover_delay_def saturating_mul_def RECOVER_FIRST_def RECOVER_MAX_def
        dur_secs_def dur_max_def min_def)
qed

section \<open>Properties\<close>

text \<open>
  C1. The lock gate. Whatever sequence of calls drives a shield, if it ends up locked then
  one of the calls was \<open>show_dialog\<close> (the greeter) or an \<open>authenticator_ready(epoch, true)\<close>
  that answered the very request pending at that moment, on a shield that was up: no other
  path leads into \<open>locked\<close>.
\<close>

theorem shield_lock_gate:
  assumes "sh_locked (run shield_step xs (new_shield st))"
  shows "\<exists>ys x zs. xs = ys @ x # zs \<and>
           (x = OpShowDialog \<or>
            (\<exists>ep. x = OpReady ep True \<and> is_up (run shield_step ys (new_shield st)) \<and>
                  sh_awaiting (run shield_step ys (new_shield st)) = Some ep))"
proof -
  have start: "\<not> sh_locked (new_shield st)" by (simp add: new_shield_def)
  obtain ys x zs where split: "xs = ys @ x # zs"
    and before: "\<not> sh_locked (run shield_step ys (new_shield st))"
    and after: "sh_locked (shield_step x (run shield_step ys (new_shield st)))"
    using shield.run_first_change [where P = "\<lambda>s. \<not> sh_locked s", OF shield_ok_new start] assms
    by blast
  show ?thesis using split shield_step_locks [OF before after] by blast
qed

theorem shield_lock_gate_witness:
  "let xs = [OpLock 5 False, OpReady 1 True]; s = run shield_step xs (new_shield default_shield_settings)
   in sh_locked s \<and>
      (\<exists>ys x zs. xs = ys @ x # zs \<and>
           (x = OpShowDialog \<or>
            (\<exists>ep. x = OpReady ep True \<and> is_up (run shield_step ys (new_shield default_shield_settings)) \<and>
                  sh_awaiting (run shield_step ys (new_shield default_shield_settings)) = Some ep)))"
proof -
  have "sh_locked (run shield_step [OpLock 5 False, OpReady 1 True] (new_shield default_shield_settings))"
    by (simp add: step_defs inv_defs new_shield_def default_shield_settings_def)
  then show ?thesis using shield_lock_gate unfolding Let_def by blast
qed

text \<open>
  C2. Staying locked. On a shield in a reachable state that is locked, the only call that
  can clear \<open>locked\<close> is \<open>deactivate\<close>, and never on the greeter: input (\<open>on_user_active\<close>,
  \<open>wake_up_screen\<close>), resuming, losing the channel, dropping it, a refused or failed verifier
  and a settings change all keep the lock, and a locked shield is never dismissible.
\<close>

theorem shield_stays_locked:
  assumes "sh_locked (run shield_step xs (new_shield st))"
    and "x \<noteq> OpDeactivate \<or> sh_greeter (run shield_step xs (new_shield st))"
  shows "sh_locked (run shield_step (xs @ [x]) (new_shield st))
    \<and> \<not> is_dismissible (run shield_step (xs @ [x]) (new_shield st))
    \<and> is_up (run shield_step (xs @ [x]) (new_shield st))"
proof -
  have "sh_locked (run shield_step (xs @ [x]) (new_shield st))"
    using assms shield_step_unlocks by auto
  moreover have "shield_ok (run shield_step (xs @ [x]) (new_shield st))"
    by (rule shield_reachable_ok)
  ultimately show ?thesis by (simp add: inv_defs)
qed

theorem shield_stays_locked_witness:
  "let s = run shield_step [OpLock 5 False, OpReady 1 True, OpUserActive]
             (new_shield default_shield_settings)
   in sh_locked s \<and> \<not> is_dismissible s \<and> is_up s"
proof -
  have "sh_locked (run shield_step [OpLock 5 False, OpReady 1 True] (new_shield default_shield_settings))"
    by (simp add: step_defs inv_defs new_shield_def default_shield_settings_def)
  from shield_stays_locked [OF this, of OpUserActive] show ?thesis
    by (simp add: Let_def)
qed

text \<open>
  C3. Stale answers. Take any reachable shield and any later point at which it has asked for
  another verifier. An answer, positive or negative, that carries an epoch handed out before
  the later request changes nothing and has no effect.
\<close>

theorem shield_stale_answer_ignored:
  assumes "ep \<le> sh_epoch (run shield_step xs (new_shield st))"
    and "sh_epoch (run shield_step xs (new_shield st)) < sh_epoch (run shield_step (xs @ ys) (new_shield st))"
  shows "authenticator_ready ep r (run shield_step (xs @ ys) (new_shield st))
           = (run shield_step (xs @ ys) (new_shield st), no_effects)"
proof -
  have "shield_ok (run shield_step (xs @ ys) (new_shield st))" by (rule shield_reachable_ok)
  with assms have "sh_awaiting (run shield_step (xs @ ys) (new_shield st)) \<noteq> Some ep"
    by (auto simp: shield_ok_def)
  then show ?thesis by (simp add: authenticator_ready_def)
qed

theorem shield_stale_answer_ignored_witness:
  "let s = run shield_step [OpLock 5 False, OpDeactivate, OpLock 9 False]
             (new_shield default_shield_settings)
   in sh_awaiting s = Some 2 \<and> authenticator_ready 1 True s = (s, no_effects)"
proof -
  let ?n = "new_shield default_shield_settings"
  have "1 \<le> sh_epoch (run shield_step [OpLock 5 False] ?n)"
    "sh_epoch (run shield_step [OpLock 5 False] ?n)
       < sh_epoch (run shield_step ([OpLock 5 False] @ [OpDeactivate, OpLock 9 False]) ?n)"
    by (simp_all add: step_defs inv_defs new_shield_def default_shield_settings_def)
  from shield_stale_answer_ignored [OF this, of True] show ?thesis
    by (simp add: step_defs inv_defs new_shield_def default_shield_settings_def)
qed



text \<open>
  C5. Recovery. While a locked shield keeps failing to replace the channel it lost, the waits
  it asks for are \<open>1, 2, 4, 8, 16\<close> seconds and \<open>30\<close> seconds from then on: the \<open>n\<close>-th
  consecutive failure (counted from 0) waits \<open>min (2^n) 30\<close> seconds, the lock holds
  throughout, and the retry goes out under a fresh epoch.
\<close>

fun fail_recoveries :: "nat \<Rightarrow> screen_shield \<Rightarrow> screen_shield" where
  "fail_recoveries 0 s = s"
| "fail_recoveries (Suc n) s =
     (let s1 = fst (retry_authenticator (fail_recoveries n s))
      in fst (authenticator_ready (sh_epoch s1) False s1))"

lemma fail_recoveries_state:
  assumes "sh_locked s" "is_up s" "sh_awaiting s = None" "sh_recover_attempts s = 0"
  shows "fail_recoveries n s = s\<lparr>sh_epoch := sh_epoch s + n, sh_recover_attempts := n\<rparr>"
  using assms
  by (induction n) (auto simp: retry_authenticator_def authenticator_ready_def is_up_def Let_def)

theorem shield_recovery_backoff:
  assumes "sh_locked s" "is_up s" "sh_awaiting s = None" "sh_recover_attempts s = 0"
  shows "\<exists>s1. retry_authenticator (fail_recoveries n s)
             = (s1, no_effects\<lparr>request_authenticator := Some (sh_epoch s + n + 1)\<rparr>) \<and>
           snd (authenticator_ready (sh_epoch s + n + 1) False s1)
             = no_effects\<lparr>retry_authenticator_after := Some (dur_secs (min (2 ^ n) 30))\<rparr> \<and>
           sh_locked (fst (authenticator_ready (sh_epoch s + n + 1) False s1))"
  using assms
  by (auto simp: fail_recoveries_state retry_authenticator_def authenticator_ready_def is_up_def
      Let_def recover_delay_secs)

theorem shield_recovery_backoff_witness:
  "let s = run shield_step [OpLock 5 False, OpReady 1 True] (new_shield default_shield_settings)
   in \<exists>s1. retry_authenticator (fail_recoveries 3 s)
             = (s1, no_effects\<lparr>request_authenticator := Some 5\<rparr>) \<and>
           snd (authenticator_ready 5 False s1)
             = no_effects\<lparr>retry_authenticator_after := Some (dur_secs 8)\<rparr> \<and>
           sh_locked (fst (authenticator_ready 5 False s1))"
proof -
  let ?s = "run shield_step [OpLock 5 False, OpReady 1 True] (new_shield default_shield_settings)"
  have "sh_locked ?s" "is_up ?s" "sh_awaiting ?s = None" "sh_recover_attempts ?s = 0"
    and ep: "sh_epoch ?s = 1"
    by (simp_all add: step_defs inv_defs new_shield_def default_shield_settings_def)
  from shield_recovery_backoff [OF this(1-4), of 3] ep show ?thesis
    by (simp add: Let_def)
qed

end
