(* ===== verification/Rust_Str.thy ===== *)
theory Rust_Str
  imports Prelude
begin

text \<open>
  Rust's \<open>str\<close> and \<open>String\<close> as the source uses them: a string is a list of Unicode scalar
  values, and an offset is a count of UTF-8 bytes. Slicing and splicing panic when an offset
  is out of range or inside a character, so those operations are \<open>option\<close>-valued with \<open>None\<close>
  for the panic.
\<close>

type_synonym uchar = nat
type_synonym ustr = "uchar list"

text \<open>A literal of the source: its characters are all ASCII unless spelled out otherwise.\<close>

definition lit :: "string \<Rightarrow> ustr" where
  "lit s = map of_char s"

definition len_utf8 :: "uchar \<Rightarrow> nat" where
  "len_utf8 c = (if c < 128 then 1 else if c < 2048 then 2 else if c < 65536 then 3 else 4)"

lemma len_utf8_pos [simp]: "0 < len_utf8 c" "len_utf8 c \<noteq> 0" "Suc 0 \<le> len_utf8 c"
  by (auto simp: len_utf8_def)

text \<open>\<open>str::len\<close>, in bytes.\<close>

fun ulen :: "ustr \<Rightarrow> nat" where
  "ulen [] = 0"
| "ulen (c # s) = len_utf8 c + ulen s"

lemma ulen_append [simp]: "ulen (s @ t) = ulen s + ulen t"
  by (induction s) auto

lemma ulen_eq_0 [simp]: "ulen s = 0 \<longleftrightarrow> s = []" "0 = ulen s \<longleftrightarrow> s = []"
  by (cases s; simp)+

lemma ulen_pos [simp]: "0 < ulen s \<longleftrightarrow> s \<noteq> []"
  by (cases s) auto

lemma ulen_replicate [simp]: "ulen (replicate n c) = n * len_utf8 c"
  by (induction n) auto

text \<open>
  \<open>split_at\<close>: the two parts of a string at a byte offset, or the panic. \<open>is_char_boundary\<close>
  says there is none.
\<close>

fun usplit :: "ustr \<Rightarrow> nat \<Rightarrow> (ustr \<times> ustr) option" where
  "usplit s 0 = Some ([], s)"
| "usplit [] (Suc n) = None"
| "usplit (c # s) (Suc n) =
     (if len_utf8 c \<le> Suc n
      then map_option (\<lambda>(a, b). (c # a, b)) (usplit s (Suc n - len_utf8 c))
      else None)"

definition is_char_boundary :: "ustr \<Rightarrow> nat \<Rightarrow> bool" where
  "is_char_boundary s i \<longleftrightarrow> usplit s i \<noteq> None"

lemma usplit_append [simp]: "usplit (a @ b) (ulen a) = Some (a, b)"
proof (induction a)
  case Nil
  then show ?case by simp
next
  case (Cons c a)
  obtain n where n: "len_utf8 c + ulen a = Suc n"
    using not0_implies_Suc [of "len_utf8 c + ulen a"] by auto
  then have "len_utf8 c \<le> Suc n" and "Suc n - len_utf8 c = ulen a" by arith+
  then have "usplit (c # (a @ b)) (Suc n) = Some (c # a, b)"
    using Cons by simp
  then show ?case by (simp add: n)
qed

lemma usplit_all [simp]: "usplit s (ulen s) = Some (s, [])"
  using usplit_append [of s "[]"] by simp

lemma usplit_Some: "usplit s i = Some (a, b) \<longleftrightarrow> s = a @ b \<and> i = ulen a"
proof
  show "usplit s i = Some (a, b) \<Longrightarrow> s = a @ b \<and> i = ulen a"
    by (induction s i arbitrary: a b rule: usplit.induct) (fastforce split: if_splits)+
next
  show "s = a @ b \<and> i = ulen a \<Longrightarrow> usplit s i = Some (a, b)"
    by simp
qed

lemma boundary_iff: "is_char_boundary s i \<longleftrightarrow> (\<exists>a b. s = a @ b \<and> i = ulen a)"
  unfolding is_char_boundary_def using usplit_Some [of s i] by force

lemma boundaryI: "s = a @ b \<Longrightarrow> i = ulen a \<Longrightarrow> is_char_boundary s i"
  by (auto simp: boundary_iff)

lemma boundary_append [simp]: "is_char_boundary (a @ b) (ulen a)"
  by (rule boundaryI) auto

lemma boundary_append3 [simp]: "is_char_boundary (a @ m @ b) (ulen a + ulen m)"
  by (rule boundaryI [of _ "a @ m" b]) auto

lemma boundary_0 [simp]: "is_char_boundary s 0"
  by (simp add: is_char_boundary_def)

lemma boundary_ulen [simp]: "is_char_boundary s (ulen s)"
  by (simp add: is_char_boundary_def)

lemma boundary_le: "is_char_boundary s i \<Longrightarrow> i \<le> ulen s"
  by (auto simp: boundary_iff)

text \<open>Two prefixes of one string are prefixes of each other in the order of their lengths.\<close>

lemma prefix_ulen_le:
  assumes "a @ b = c @ d" and "ulen a \<le> ulen c"
  shows "\<exists>m. c = a @ m \<and> b = m @ d"
proof -
  from assms(1) obtain us where "a = c @ us \<and> us @ b = d \<or> a @ us = c \<and> b = us @ d"
    by (auto simp: append_eq_append_conv2)
  with assms(2) show ?thesis by auto
qed

lemma boundary_split3:
  assumes "is_char_boundary s i" "is_char_boundary s j" "i \<le> j"
  shows "\<exists>a m b. s = a @ m @ b \<and> i = ulen a \<and> j = ulen (a @ m)"
proof -
  from assms(1) obtain a b where s: "s = a @ b" and i: "i = ulen a" by (auto simp: boundary_iff)
  from assms(2) obtain c d where t: "s = c @ d" and j: "j = ulen c" by (auto simp: boundary_iff)
  from prefix_ulen_le [of a b c d] s t i j assms(3) obtain m where "c = a @ m" "b = m @ d" by auto
  with s i j show ?thesis by auto
qed

text \<open>\<open>&s[i..j]\<close>, \<open>insert_str\<close> and \<open>replace_range(i..j, "")\<close>.\<close>

definition uslice :: "ustr \<Rightarrow> nat \<Rightarrow> nat \<Rightarrow> ustr option" where
  "uslice s i j =
     (case usplit s i of
        None \<Rightarrow> None
      | Some (a, b) \<Rightarrow> if i \<le> j then map_option fst (usplit b (j - i)) else None)"

definition uinsert :: "ustr \<Rightarrow> nat \<Rightarrow> ustr \<Rightarrow> ustr option" where
  "uinsert s i t = map_option (\<lambda>(a, b). a @ t @ b) (usplit s i)"

definition ucut :: "ustr \<Rightarrow> nat \<Rightarrow> nat \<Rightarrow> ustr option" where
  "ucut s i j =
     (case usplit s i of
        None \<Rightarrow> None
      | Some (a, b) \<Rightarrow>
          if i \<le> j then map_option (\<lambda>(m, c). a @ c) (usplit b (j - i)) else None)"

lemma uslice_append3 [simp]: "uslice (a @ m @ b) (ulen a) (ulen a + ulen m) = Some m"
  by (simp add: uslice_def)

lemma ucut_append3 [simp]: "ucut (a @ m @ b) (ulen a) (ulen a + ulen m) = Some (a @ b)"
  by (simp add: ucut_def)

lemma uinsert_append [simp]: "uinsert (a @ b) (ulen a) t = Some (a @ t @ b)"
  by (simp add: uinsert_def)

text \<open>
  \<open>char::is_control\<close> (general category Cc) and \<open>char::is_whitespace\<close> (the property
  \<open>White_Space\<close>), and the trimming functions of \<open>str\<close>.
\<close>

definition is_control :: "uchar \<Rightarrow> bool" where
  "is_control c \<longleftrightarrow> c < 32 \<or> 127 \<le> c \<and> c \<le> 159"

definition is_whitespace :: "uchar \<Rightarrow> bool" where
  "is_whitespace c \<longleftrightarrow> 9 \<le> c \<and> c \<le> 13 \<or> c = 32 \<or> c = 133 \<or> c = 160 \<or> c = 5760
     \<or> 8192 \<le> c \<and> c \<le> 8202 \<or> c = 8232 \<or> c = 8233 \<or> c = 8239 \<or> c = 8287 \<or> c = 12288"

definition trim_end_matches :: "(uchar \<Rightarrow> bool) \<Rightarrow> ustr \<Rightarrow> ustr" where
  "trim_end_matches p s = rev (dropWhile p (rev s))"

definition trim_start_matches :: "(uchar \<Rightarrow> bool) \<Rightarrow> ustr \<Rightarrow> ustr" where
  "trim_start_matches p s = dropWhile p s"

definition trim :: "ustr \<Rightarrow> ustr" where
  "trim s = trim_start_matches is_whitespace (trim_end_matches is_whitespace s)"

lemma trim_end_matches_last: "trim_end_matches p s \<noteq> [] \<Longrightarrow> \<not> p (last (trim_end_matches p s))"
  using hd_dropWhile [of p "rev s"] by (simp add: trim_end_matches_def last_rev)

lemma trim_start_matches_hd: "trim_start_matches p s \<noteq> [] \<Longrightarrow> \<not> p (hd (trim_start_matches p s))"
  by (simp add: trim_start_matches_def hd_dropWhile)

lemma trim_end_matches_prefix: "\<exists>t. s = trim_end_matches p s @ t \<and> (\<forall>c \<in> set t. p c)"
proof -
  have "s = rev (dropWhile p (rev s)) @ rev (takeWhile p (rev s))"
    by (metis rev_append rev_rev_ident takeWhile_dropWhile_id)
  moreover have "\<forall>c \<in> set (rev (takeWhile p (rev s))). p c"
    by (auto dest: set_takeWhileD)
  ultimately show ?thesis unfolding trim_end_matches_def by blast
qed

text \<open>\<open>char::to_ascii_lowercase\<close> and \<open>str::eq_ignore_ascii_case\<close>.\<close>

definition to_ascii_lowercase :: "uchar \<Rightarrow> uchar" where
  "to_ascii_lowercase c = (if 65 \<le> c \<and> c \<le> 90 then c + 32 else c)"

definition eq_ignore_ascii_case :: "ustr \<Rightarrow> ustr \<Rightarrow> bool" where
  "eq_ignore_ascii_case s t \<longleftrightarrow> map to_ascii_lowercase s = map to_ascii_lowercase t"

end
