(* ===== verification/Text_Edit.thy ===== *)
theory Text_Edit
  imports Rust_Str "HOL-Library.Monad_Syntax"
begin

text \<open>
  The single-line text model behind every entry of the shell, \<open>src/src/ui/text_edit.rs\<close>: text,
  caret and selection anchor as byte offsets, the Emacs kill buffer and the input method's
  composition. Every operation that slices the text is \<open>option\<close>-valued (\<open>None\<close> is the panic of
  an offset that is not a character boundary, or a failed \<open>debug_assert\<close>).

  The crate \<open>unicode-segmentation\<close> and the alphabetic tables of \<open>char::is_alphanumeric\<close> are a
  parameter, the record \<open>segmentation\<close>; \<open>segmentation_ok\<close> states what the crate documents: the
  pieces are not empty and concatenate to the string. Buffer capacities are not modelled.
\<close>

section \<open>Data\<close>

record segmentation =
  graphemes :: "ustr \<Rightarrow> ustr list"
  word_bounds :: "ustr \<Rightarrow> ustr list"
  is_alphanumeric :: "uchar \<Rightarrow> bool"

definition segmentation_ok :: "segmentation \<Rightarrow> bool" where
  "segmentation_ok u \<longleftrightarrow>
     (\<forall>s. concat (graphemes u s) = s \<and> [] \<notin> set (graphemes u s)) \<and>
     (\<forall>s. concat (word_bounds u s) = s \<and> [] \<notin> set (word_bounds u s))"

datatype keysym =
    K_Return | K_KP_Enter | K_ISO_Enter | K_Escape
  | K_Left | K_KP_Left | K_Right | K_KP_Right
  | K_Home | K_KP_Home | K_Begin | K_End | K_KP_End
  | K_BackSpace | K_Delete | K_KP_Delete
  | K_a | K_A | K_b | K_B | K_d | K_D | K_e | K_E | K_f | K_F | K_k | K_K
  | K_n | K_N | K_p | K_P | K_u | K_U | K_w | K_W | K_y | K_Y
  | K_Shift_L | K_Shift_R | K_Shift_Lock | K_Caps_Lock
  | K_Other nat

record edit_mods =
  m_ctrl :: bool
  m_shift :: bool
  m_alt :: bool
  m_logo :: bool

definition no_mods :: edit_mods where
  "no_mods = \<lparr>m_ctrl = False, m_shift = False, m_alt = False, m_logo = False\<rparr>"

definition is_plain :: "edit_mods \<Rightarrow> bool" where
  "is_plain m \<longleftrightarrow> \<not> m_ctrl m \<and> \<not> m_alt m \<and> \<not> m_logo m"

datatype key_theme = DefaultTheme | Emacs

definition from_setting :: "ustr \<Rightarrow> key_theme" where
  "from_setting v = (if eq_ignore_ascii_case v (lit ''emacs'') then Emacs else DefaultTheme)"

datatype edit_outcome = Changed | Moved | Activate | Cancel | Ignored

datatype motion = Move | Extend

definition motion_of :: "edit_mods \<Rightarrow> motion" where
  "motion_of m = (if m_shift m then Extend else Move)"

record text_edit =
  te_text :: ustr
  te_cursor :: nat
  te_anchor :: nat
  te_kill :: ustr
  te_preedit :: "ustr option"

definition new_edit :: text_edit where
  "new_edit = \<lparr>te_text = [], te_cursor = 0, te_anchor = 0, te_kill = [], te_preedit = None\<rparr>"

section \<open>Reading\<close>

definition ordered :: "text_edit \<Rightarrow> nat \<times> nat" where
  "ordered e = (if te_cursor e \<le> te_anchor e then (te_cursor e, te_anchor e)
                else (te_anchor e, te_cursor e))"

definition selection :: "text_edit \<Rightarrow> (nat \<times> nat) option" where
  "selection e = (let (lo, hi) = ordered e in if lo \<noteq> hi then Some (lo, hi) else None)"

definition selected_text :: "text_edit \<Rightarrow> ustr option option" where
  "selected_text e =
     (case selection e of
        None \<Rightarrow> Some None
      | Some (lo, hi) \<Rightarrow> map_option Some (uslice (te_text e) lo hi))"

text \<open>\<open>masked_offset\<close> counts the characters before a byte offset; \<open>None\<close> is the slice's panic.\<close>

definition masked_offset :: "text_edit \<Rightarrow> nat \<Rightarrow> uchar \<Rightarrow> nat option" where
  "masked_offset e i mc =
     map_option (\<lambda>(a, b). length a * len_utf8 mc) (usplit (te_text e) (min i (ulen (te_text e))))"

definition preedit_len :: "text_edit \<Rightarrow> nat" where
  "preedit_len e = (case te_preedit e of None \<Rightarrow> 0 | Some p \<Rightarrow> ulen p)"

definition masked_positions ::
  "text_edit \<Rightarrow> uchar \<Rightarrow> bool \<Rightarrow> (nat option \<times> (nat \<times> nat) option) option" where
  "masked_positions e mc focused =
     (if \<not> focused then Some (None, None)
      else do {
        c \<leftarrow> masked_offset e (te_cursor e) mc;
        sel \<leftarrow> (case selection e of
                  None \<Rightarrow> Some None
                | Some (lo, hi) \<Rightarrow> do {
                    l \<leftarrow> masked_offset e lo mc;
                    h \<leftarrow> masked_offset e hi mc;
                    Some (Some (l, h)) });
        Some (Some (c + preedit_len e), sel) })"

definition display_cursor :: "text_edit \<Rightarrow> nat" where
  "display_cursor e = te_cursor e + preedit_len e"

definition display :: "uchar option \<Rightarrow> text_edit \<Rightarrow> ustr option" where
  "display mc e = do {
     (base, caret) \<leftarrow> (case mc of
        Some m \<Rightarrow> map_option (\<lambda>c. (replicate (length (te_text e)) m, c))
                     (masked_offset e (te_cursor e) m)
      | None \<Rightarrow> Some (te_text e, te_cursor e));
     (case te_preedit e of
        None \<Rightarrow> Some base
      | Some p \<Rightarrow> uinsert base (min caret (ulen base)) p) }"

section \<open>Writing\<close>

definition set_text :: "ustr \<Rightarrow> text_edit \<Rightarrow> text_edit" where
  "set_text t e = e\<lparr>te_text := t, te_cursor := ulen t, te_anchor := ulen t\<rparr>"

definition clear_edit :: "text_edit \<Rightarrow> text_edit" where
  "clear_edit e = e\<lparr>te_text := [], te_cursor := 0, te_anchor := 0\<rparr>"

definition secure_clear :: "text_edit \<Rightarrow> text_edit" where
  "secure_clear e = e\<lparr>te_text := [], te_cursor := 0, te_anchor := 0, te_kill := [], te_preedit := None\<rparr>"

definition set_preedit :: "ustr option \<Rightarrow> text_edit \<Rightarrow> text_edit \<times> bool" where
  "set_preedit p e = (if te_preedit e = p then (e, False) else (e\<lparr>te_preedit := p\<rparr>, True))"

definition select_all :: "text_edit \<Rightarrow> text_edit" where
  "select_all e = e\<lparr>te_anchor := 0, te_cursor := ulen (te_text e)\<rparr>"

definition debug_check :: "text_edit \<Rightarrow> text_edit option" where
  "debug_check e = (if is_char_boundary (te_text e) (te_cursor e)
                      \<and> is_char_boundary (te_text e) (te_anchor e) then Some e else None)"

definition move_caret :: "nat \<Rightarrow> motion \<Rightarrow> text_edit \<Rightarrow> text_edit option" where
  "move_caret t mo e =
     debug_check (let e1 = e\<lparr>te_cursor := t\<rparr> in if mo = Move then e1\<lparr>te_anchor := t\<rparr> else e1)"

definition delete_range :: "nat \<times> nat \<Rightarrow> text_edit \<Rightarrow> (text_edit \<times> bool) option" where
  "delete_range r e =
     (if fst r \<ge> snd r then Some (e, False)
      else do {
        t \<leftarrow> ucut (te_text e) (fst r) (snd r);
        e1 \<leftarrow> debug_check (e\<lparr>te_text := t, te_cursor := fst r, te_anchor := fst r\<rparr>);
        Some (e1, True) })"

definition delete_selection :: "text_edit \<Rightarrow> (text_edit \<times> bool) option" where
  "delete_selection e =
     (case selection e of Some sel \<Rightarrow> delete_range sel e | None \<Rightarrow> Some (e, False))"

definition kill_range :: "nat \<times> nat \<Rightarrow> bool \<Rightarrow> text_edit \<Rightarrow> (text_edit \<times> bool) option" where
  "kill_range r remember e =
     (if fst r \<ge> snd r then Some (e, False)
      else if remember then do {
        t \<leftarrow> uslice (te_text e) (fst r) (snd r);
        delete_range r (e\<lparr>te_kill := t\<rparr>) }
      else delete_range r e)"

definition insert_str :: "ustr \<Rightarrow> text_edit \<Rightarrow> text_edit option" where
  "insert_str s e = do {
     (e1, _) \<leftarrow> delete_selection e;
     t \<leftarrow> uinsert (te_text e1) (te_cursor e1) s;
     debug_check (e1\<lparr>te_text := t, te_cursor := te_cursor e1 + ulen s,
                     te_anchor := te_cursor e1 + ulen s\<rparr>) }"

section \<open>Grapheme and word boundaries\<close>

text \<open>\<open>grapheme_indices\<close> and \<open>split_word_bound_indices\<close>: each piece with its byte offset.\<close>

fun with_offsets :: "nat \<Rightarrow> ustr list \<Rightarrow> (nat \<times> ustr) list" where
  "with_offsets i [] = []"
| "with_offsets i (g # gs) = (i, g) # with_offsets (i + ulen g) gs"

definition is_word :: "segmentation \<Rightarrow> ustr \<Rightarrow> bool" where
  "is_word u w \<longleftrightarrow> list_ex (is_alphanumeric u) w"

definition prev_grapheme :: "segmentation \<Rightarrow> nat \<Rightarrow> text_edit \<Rightarrow> nat option" where
  "prev_grapheme u pos e =
     map_option (\<lambda>(a, b). (case rev (with_offsets 0 (graphemes u a)) of
                              [] \<Rightarrow> 0 | (i, g) # _ \<Rightarrow> i))
       (usplit (te_text e) pos)"

definition next_grapheme :: "segmentation \<Rightarrow> nat \<Rightarrow> text_edit \<Rightarrow> nat option" where
  "next_grapheme u pos e =
     map_option (\<lambda>(a, b). (case graphemes u b of
                              [] \<Rightarrow> ulen (te_text e) | g # _ \<Rightarrow> pos + ulen g))
       (usplit (te_text e) pos)"

definition word_start_before :: "segmentation \<Rightarrow> nat \<Rightarrow> text_edit \<Rightarrow> nat" where
  "word_start_before u pos e =
     (case find (\<lambda>(i, w). i < pos \<and> is_word u w)
             (rev (with_offsets 0 (word_bounds u (te_text e)))) of
        Some (i, w) \<Rightarrow> i | None \<Rightarrow> 0)"

definition word_end_after :: "segmentation \<Rightarrow> nat \<Rightarrow> text_edit \<Rightarrow> nat" where
  "word_end_after u pos e =
     (case find (\<lambda>(i, w). i + ulen w > pos \<and> is_word u w)
             (with_offsets 0 (word_bounds u (te_text e))) of
        Some (i, w) \<Rightarrow> i + ulen w | None \<Rightarrow> ulen (te_text e))"

section \<open>Keys\<close>

text \<open>
  The motion arms of \<open>handle_sym\<close>: the offset a key moves the caret to, \<open>Some None\<close> when the
  key is no motion.
\<close>

definition caret_target ::
  "segmentation \<Rightarrow> keysym \<Rightarrow> edit_mods \<Rightarrow> bool \<Rightarrow> text_edit \<Rightarrow> nat option option" where
  "caret_target u ks mods emacs e =
     (if ks \<in> {K_Left, K_KP_Left} \<and> \<not> m_alt mods then
        (if m_ctrl mods then Some (Some (word_start_before u (te_cursor e) e))
         else map_option Some (prev_grapheme u (te_cursor e) e))
      else if ks \<in> {K_Right, K_KP_Right} \<and> \<not> m_alt mods then
        (if m_ctrl mods then Some (Some (word_end_after u (te_cursor e) e))
         else map_option Some (next_grapheme u (te_cursor e) e))
      else if ks \<in> {K_Home, K_KP_Home, K_Begin} \<and> \<not> m_alt mods then Some (Some 0)
      else if ks \<in> {K_End, K_KP_End} \<and> \<not> m_alt mods then Some (Some (ulen (te_text e)))
      else if ks \<in> {K_b, K_B} \<and> emacs \<and> m_ctrl mods then
        map_option Some (prev_grapheme u (te_cursor e) e)
      else if ks \<in> {K_f, K_F} \<and> emacs \<and> m_ctrl mods then
        map_option Some (next_grapheme u (te_cursor e) e)
      else if ks \<in> {K_a, K_A} \<and> emacs \<and> m_ctrl mods then Some (Some 0)
      else if ks \<in> {K_e, K_E} \<and> emacs \<and> m_ctrl mods then Some (Some (ulen (te_text e)))
      else Some None)"

definition handle_emacs_tail ::
  "keysym \<Rightarrow> edit_mods \<Rightarrow> bool \<Rightarrow> text_edit \<Rightarrow> (text_edit \<times> edit_outcome option) option" where
  "handle_emacs_tail ks mods emacs e =
     (if \<not> emacs \<or> \<not> m_ctrl mods then Some (e, None)
      else if ks \<in> {K_y, K_Y} then
        (if te_kill e = [] then Some (e, Some Moved)
         else do {
           e1 \<leftarrow> insert_str (te_kill e) (e\<lparr>te_kill := []\<rparr>);
           Some (e1\<lparr>te_kill := te_kill e\<rparr>, Some Changed) })
      else if ks \<in> {K_n, K_N, K_p, K_P} then Some (e, Some Moved)
      else Some (e, None))"

text \<open>
  The bodies of the deletion arms: \<open>BackSpace\<close> and \<open>Delete\<close> (by word with Control; \<open>Ctrl-d\<close> is
  \<open>Delete\<close> by grapheme) and \<open>Ctrl-w\<close>. A selection goes first.
\<close>

definition delete_back :: "segmentation \<Rightarrow> bool \<Rightarrow> text_edit \<Rightarrow> (text_edit \<times> bool) option" where
  "delete_back u word e = do {
     (e1, gone) \<leftarrow> delete_selection e;
     if gone then Some (e1, True)
     else if word then delete_range (word_start_before u (te_cursor e1) e1, te_cursor e1) e1
     else do { p \<leftarrow> prev_grapheme u (te_cursor e1) e1; delete_range (p, te_cursor e1) e1 } }"

definition delete_forward :: "segmentation \<Rightarrow> bool \<Rightarrow> text_edit \<Rightarrow> (text_edit \<times> bool) option" where
  "delete_forward u word e = do {
     (e1, gone) \<leftarrow> delete_selection e;
     if gone then Some (e1, True)
     else if word then delete_range (te_cursor e1, word_end_after u (te_cursor e1) e1) e1
     else do { p \<leftarrow> next_grapheme u (te_cursor e1) e1; delete_range (te_cursor e1, p) e1 } }"

definition kill_word :: "segmentation \<Rightarrow> text_edit \<Rightarrow> (text_edit \<times> bool) option" where
  "kill_word u e =
     kill_range (case selection e of
         Some sel \<Rightarrow> sel
       | None \<Rightarrow> (word_start_before u (te_cursor e) e, te_cursor e)) True e"

text \<open>
  The deletion arms: \<open>Some None\<close> when the key is no deletion, otherwise the edit and whether
  anything went.
\<close>

definition delete_key ::
  "segmentation \<Rightarrow> keysym \<Rightarrow> edit_mods \<Rightarrow> bool \<Rightarrow> text_edit
     \<Rightarrow> (text_edit \<times> bool) option option" where
  "delete_key u ks mods emacs e =
     (if ks = K_BackSpace \<and> \<not> m_alt mods then map_option Some (delete_back u (m_ctrl mods) e)
      else if ks \<in> {K_Delete, K_KP_Delete} \<and> \<not> m_alt mods then
        map_option Some (delete_forward u (m_ctrl mods) e)
      else if ks \<in> {K_k, K_K} \<and> m_ctrl mods then
        map_option Some (kill_range (te_cursor e, ulen (te_text e)) emacs e)
      else if ks \<in> {K_u, K_U} \<and> m_ctrl mods then
        map_option Some (kill_range (0, te_cursor e) emacs e)
      else if ks \<in> {K_d, K_D} \<and> emacs \<and> m_ctrl mods then
        map_option Some (delete_forward u False e)
      else if ks \<in> {K_w, K_W} \<and> emacs \<and> m_ctrl mods then map_option Some (kill_word u e)
      else Some None)"

definition enter_key :: "keysym \<Rightarrow> bool" where
  "enter_key ks \<longleftrightarrow> ks \<in> {K_Return, K_KP_Enter, K_ISO_Enter}"

definition a_key :: "keysym \<Rightarrow> bool" where
  "a_key ks \<longleftrightarrow> ks \<in> {K_a, K_A}"

text \<open>
  \<open>handle_sym\<close> after the keys that end the entry: motion, select all, deletion, the Emacs rest.
\<close>

definition handle_sym_edit ::
  "segmentation \<Rightarrow> keysym \<Rightarrow> edit_mods \<Rightarrow> bool \<Rightarrow> text_edit
     \<Rightarrow> (text_edit \<times> edit_outcome option) option" where
  "handle_sym_edit u ks mods emacs e = do {
     target \<leftarrow> caret_target u ks mods emacs e;
     (case target of
        Some t \<Rightarrow> do { e1 \<leftarrow> move_caret t (motion_of mods) e; Some (e1, Some Moved) }
      | None \<Rightarrow>
          if a_key ks \<and> m_ctrl mods \<and> \<not> m_shift mods \<and> \<not> emacs
          then Some (select_all e, Some Moved)
          else do {
            deleted \<leftarrow> delete_key u ks mods emacs e;
            (case deleted of
               Some (e1, gone) \<Rightarrow> Some (e1, Some (if gone then Changed else Moved))
             | None \<Rightarrow> handle_emacs_tail ks mods emacs e) }) }"

definition handle_sym_with ::
  "segmentation \<Rightarrow> keysym \<Rightarrow> edit_mods \<Rightarrow> bool \<Rightarrow> text_edit
     \<Rightarrow> (text_edit \<times> edit_outcome option) option" where
  "handle_sym_with u ks mods emacs e =
     (if enter_key ks \<and> is_plain mods then Some (e, Some Activate)
      else if ks = K_Escape \<and> is_plain mods then Some (e, Some Cancel)
      else handle_sym_edit u ks mods emacs e)"

definition handle_sym ::
  "segmentation \<Rightarrow> keysym \<Rightarrow> edit_mods \<Rightarrow> key_theme \<Rightarrow> text_edit
     \<Rightarrow> (text_edit \<times> edit_outcome option) option" where
  "handle_sym u ks mods theme e = handle_sym_with u ks mods (theme = Emacs) e"

definition handle_key ::
  "segmentation \<Rightarrow> keysym option \<Rightarrow> uchar option \<Rightarrow> edit_mods \<Rightarrow> key_theme \<Rightarrow> text_edit
     \<Rightarrow> (text_edit \<times> edit_outcome) option" where
  "handle_key u ks ch mods theme e =
     (if m_logo mods then Some (e, Ignored)
      else do {
        (e1, r) \<leftarrow> (case ks of
                      Some k \<Rightarrow> handle_sym u k mods theme e
                    | None \<Rightarrow> Some (e, None));
        (case r of
           Some out \<Rightarrow> Some (e1, out)
         | None \<Rightarrow>
             (case ch of
                Some c \<Rightarrow>
                  if is_plain mods \<and> \<not> is_control c
                  then do { e2 \<leftarrow> insert_str [c] e1; Some (e2, Changed) }
                  else Some (e1, Ignored)
              | None \<Rightarrow> Some (e1, Ignored))) })"

section \<open>The boundary invariant\<close>

definition edit_ok :: "text_edit \<Rightarrow> bool" where
  "edit_ok e \<longleftrightarrow> is_char_boundary (te_text e) (te_cursor e) \<and> is_char_boundary (te_text e) (te_anchor e)"

lemma edit_ok_new [simp]: "edit_ok new_edit"
  by (simp add: edit_ok_def new_edit_def)

lemma edit_ok_clear [simp]: "edit_ok (clear_edit e)" "edit_ok (secure_clear e)" "edit_ok (set_text t e)"
  by (simp_all add: edit_ok_def clear_edit_def secure_clear_def set_text_def)

lemma edit_ok_select_all [simp]: "edit_ok (select_all e)"
  by (simp add: edit_ok_def select_all_def)

lemma edit_ok_kill [simp]: "edit_ok (e\<lparr>te_kill := k\<rparr>) = edit_ok e"
  "edit_ok (e\<lparr>te_preedit := p\<rparr>) = edit_ok e"
  by (simp_all add: edit_ok_def)

lemma set_preedit_frame [simp]:
  "te_text (fst (set_preedit p e)) = te_text e" "edit_ok (fst (set_preedit p e)) = edit_ok e"
  by (auto simp: set_preedit_def)

lemma debug_check_Some: "edit_ok e \<Longrightarrow> debug_check e = Some e"
  by (simp add: debug_check_def edit_ok_def)

lemma with_offsets_mem:
  "(i, w) \<in> set (with_offsets k ps) \<Longrightarrow> \<exists>pre post. ps = pre @ w # post \<and> i = k + ulen (concat pre)"
proof (induction ps arbitrary: k)
  case Nil
  then show ?case by simp
next
  case (Cons p ps)
  show ?case
  proof (cases "(i, w) = (k, p)")
    case True
    then have "p # ps = [] @ w # ps \<and> i = k + ulen (concat [])" by simp
    then show ?thesis by blast
  next
    case False
    with Cons.prems have "(i, w) \<in> set (with_offsets (k + ulen p) ps)" by auto
    then obtain pre post where "ps = pre @ w # post" "i = k + ulen p + ulen (concat pre)"
      using Cons.IH by blast
    then have "p # ps = (p # pre) @ w # post \<and> i = k + ulen (concat (p # pre))" by simp
    then show ?thesis by blast
  qed
qed

lemma offset_boundary:
  assumes "(i, w) \<in> set (with_offsets 0 ps)"
  shows "is_char_boundary (concat ps @ t) i" "is_char_boundary (concat ps @ t) (i + ulen w)"
    "i \<le> ulen (concat ps)"
proof -
  from with_offsets_mem [OF assms] obtain pre post where
    ps: "ps = pre @ w # post" and i: "i = ulen (concat pre)" by auto
  then show "is_char_boundary (concat ps @ t) i" "i \<le> ulen (concat ps)"
    by (auto simp: boundary_iff)
  have "concat ps @ t = concat pre @ w @ concat post @ t" using ps by simp
  with i show "is_char_boundary (concat ps @ t) (i + ulen w)"
    by simp
qed

lemma prev_grapheme_ok:
  assumes u: "segmentation_ok u" and b: "is_char_boundary (te_text e) pos"
  shows "\<exists>p. prev_grapheme u pos e = Some p \<and> is_char_boundary (te_text e) p \<and> p \<le> pos"
proof -
  from b obtain a c where t: "te_text e = a @ c" and pos: "pos = ulen a" by (auto simp: boundary_iff)
  have cat: "concat (graphemes u a) = a" using u by (simp add: segmentation_ok_def)
  show ?thesis
  proof (cases "rev (with_offsets 0 (graphemes u a))")
    case Nil
    then show ?thesis by (simp add: prev_grapheme_def t pos)
  next
    case (Cons x xs)
    obtain i g where x: "x = (i, g)" by (cases x)
    from Cons x have "(i, g) \<in> set (with_offsets 0 (graphemes u a))"
      by (metis list.set_intros(1) set_rev)
    from offset_boundary(1) [OF this, of c] offset_boundary(3) [OF this] cat
    have "is_char_boundary (a @ c) i" "i \<le> ulen a" by auto
    then show ?thesis using Cons x by (simp add: prev_grapheme_def t pos)
  qed
qed

lemma next_grapheme_ok:
  assumes u: "segmentation_ok u" and b: "is_char_boundary (te_text e) pos"
  shows "\<exists>p. next_grapheme u pos e = Some p \<and> is_char_boundary (te_text e) p \<and> pos \<le> p"
proof -
  from b obtain a c where t: "te_text e = a @ c" and pos: "pos = ulen a" by (auto simp: boundary_iff)
  have cat: "concat (graphemes u c) = c" using u by (simp add: segmentation_ok_def)
  show ?thesis
  proof (cases "graphemes u c")
    case Nil
    with cat have "c = []" by simp
    with Nil show ?thesis by (simp add: next_grapheme_def t pos)
  next
    case (Cons g gs)
    with cat have "c = g @ concat gs" by simp
    then have "a @ c = a @ g @ concat gs" by simp
    then have "is_char_boundary (a @ c) (ulen a + ulen g)"
      by simp
    with Cons show ?thesis by (simp add: next_grapheme_def t pos)
  qed
qed

lemma word_start_before_ok:
  assumes "segmentation_ok u"
  shows "is_char_boundary (te_text e) (word_start_before u pos e)"
proof -
  have cat: "concat (word_bounds u (te_text e)) = te_text e"
    using assms by (simp add: segmentation_ok_def)
  show ?thesis
  proof (cases "find (\<lambda>(i, w). i < pos \<and> is_word u w) (rev (with_offsets 0 (word_bounds u (te_text e))))")
    case None
    then show ?thesis by (simp add: word_start_before_def)
  next
    case (Some x)
    obtain i w where x: "x = (i, w)" by (cases x)
    from Some x have "(i, w) \<in> set (with_offsets 0 (word_bounds u (te_text e)))"
      by (auto dest: find_Some_mem)
    from offset_boundary(1) [OF this, of "[]"] cat Some x show ?thesis
      by (simp add: word_start_before_def)
  qed
qed

lemma word_end_after_ok:
  assumes "segmentation_ok u"
  shows "is_char_boundary (te_text e) (word_end_after u pos e)"
proof -
  have cat: "concat (word_bounds u (te_text e)) = te_text e"
    using assms by (simp add: segmentation_ok_def)
  show ?thesis
  proof (cases "find (\<lambda>(i, w). i + ulen w > pos \<and> is_word u w) (with_offsets 0 (word_bounds u (te_text e)))")
    case None
    then show ?thesis by (simp add: word_end_after_def)
  next
    case (Some x)
    obtain i w where x: "x = (i, w)" by (cases x)
    from Some x have "(i, w) \<in> set (with_offsets 0 (word_bounds u (te_text e)))"
      by (auto dest: find_Some_mem)
    from offset_boundary(2) [OF this, of "[]"] cat Some x show ?thesis
      by (simp add: word_end_after_def)
  qed
qed

section \<open>Operations keep the invariant\<close>

lemma debug_check_eq: "debug_check e = Some e' \<longleftrightarrow> e' = e \<and> edit_ok e"
  by (auto simp: debug_check_def edit_ok_def)

lemma move_caret_ok:
  assumes "edit_ok e" "is_char_boundary (te_text e) t"
  shows "\<exists>e'. move_caret t mo e = Some e' \<and> edit_ok e'"
  using assms by (cases mo) (auto simp: move_caret_def debug_check_eq edit_ok_def)

lemma move_caret_frame:
  "move_caret t mo e = Some e' \<Longrightarrow>
     te_text e' = te_text e \<and> te_kill e' = te_kill e \<and> te_preedit e' = te_preedit e"
  by (auto simp: move_caret_def debug_check_eq Let_def split: if_splits)

lemma delete_range_ok:
  assumes "edit_ok e" "is_char_boundary (te_text e) i" "is_char_boundary (te_text e) j"
  shows "\<exists>e' b. delete_range (i, j) e = Some (e', b) \<and> edit_ok e'"
proof (cases "j \<le> i")
  case True
  with assms show ?thesis by (auto simp: delete_range_def)
next
  case False
  then obtain a m b where t: "te_text e = a @ m @ b" and i: "i = ulen a" and j: "j = ulen a + ulen m"
    using boundary_split3 [OF assms(2,3)] by auto
  with False show ?thesis by (auto simp: delete_range_def debug_check_Some edit_ok_def)
qed

lemma delete_range_frame:
  "delete_range r e = Some (e', b) \<Longrightarrow>
     te_kill e' = te_kill e \<and> te_preedit e' = te_preedit e \<and> (\<not> b \<longrightarrow> e' = e)"
  by (auto simp: delete_range_def debug_check_eq split: if_splits bind_splits)

lemma selection_bounds:
  "edit_ok e \<Longrightarrow> selection e = Some (lo, hi) \<Longrightarrow>
     is_char_boundary (te_text e) lo \<and> is_char_boundary (te_text e) hi \<and> lo < hi"
  by (auto simp: selection_def ordered_def edit_ok_def split: if_splits)

lemma delete_selection_ok:
  "edit_ok e \<Longrightarrow> \<exists>e' b. delete_selection e = Some (e', b) \<and> edit_ok e'"
  using selection_bounds [of e] delete_range_ok [of e]
  by (fastforce simp: delete_selection_def split: option.splits)

lemma delete_selection_frame:
  "delete_selection e = Some (e', b) \<Longrightarrow>
     te_kill e' = te_kill e \<and> te_preedit e' = te_preedit e \<and> (\<not> b \<longrightarrow> e' = e)"
  by (auto simp: delete_selection_def split: option.splits dest: delete_range_frame)

lemma kill_range_ok:
  assumes "edit_ok e" "is_char_boundary (te_text e) i" "is_char_boundary (te_text e) j"
  shows "\<exists>e' b. kill_range (i, j) rem e = Some (e', b) \<and> edit_ok e'"
proof (cases "j \<le> i")
  case True
  with assms show ?thesis by (auto simp: kill_range_def)
next
  case False
  then obtain a m b where t: "te_text e = a @ m @ b" and i: "i = ulen a" and j: "j = ulen a + ulen m"
    using boundary_split3 [OF assms(2,3)] by auto
  have "\<exists>e' b. delete_range (i, j) (e\<lparr>te_kill := m\<rparr>) = Some (e', b) \<and> edit_ok e'"
    by (rule delete_range_ok) (use assms in simp_all)
  moreover have "\<exists>e' b. delete_range (i, j) e = Some (e', b) \<and> edit_ok e'"
    by (rule delete_range_ok) (use assms in simp_all)
  ultimately show ?thesis using False t i j by (auto simp: kill_range_def)
qed

lemma kill_range_frame:
  "kill_range r rem e = Some (e', b) \<Longrightarrow>
     te_preedit e' = te_preedit e \<and> (\<not> rem \<longrightarrow> te_kill e' = te_kill e) \<and> (\<not> b \<longrightarrow> te_text e' = te_text e)"
proof -
  assume "kill_range r rem e = Some (e', b)"
  then consider "e' = e" | k where "delete_range r (e\<lparr>te_kill := k\<rparr>) = Some (e', b)" "rem"
    | "delete_range r e = Some (e', b)"
    by (auto simp: kill_range_def split: if_splits bind_splits)
  then show ?thesis by cases (auto dest: delete_range_frame)
qed

lemma insert_str_ok:
  assumes "edit_ok e"
  shows "\<exists>e'. insert_str s e = Some e' \<and> edit_ok e'"
proof -
  obtain e1 g where del: "delete_selection e = Some (e1, g)" and ok: "edit_ok e1"
    using delete_selection_ok [OF assms] by blast
  from ok obtain a b where "te_text e1 = a @ b" "te_cursor e1 = ulen a"
    by (auto simp: edit_ok_def boundary_iff)
  with del show ?thesis by (auto simp: insert_str_def debug_check_Some edit_ok_def)
qed

lemma insert_str_frame:
  "insert_str s e = Some e' \<Longrightarrow> te_kill e' = te_kill e \<and> te_preedit e' = te_preedit e"
  by (auto simp: insert_str_def debug_check_eq split: bind_splits dest: delete_selection_frame)

lemma caret_target_ok:
  assumes "segmentation_ok u" "edit_ok e"
  shows "\<exists>t. caret_target u ks mods emacs e = Some t \<and>
           (\<forall>p. t = Some p \<longrightarrow> is_char_boundary (te_text e) p)"
proof -
  have cur: "is_char_boundary (te_text e) (te_cursor e)" using assms by (simp add: edit_ok_def)
  show ?thesis
    using prev_grapheme_ok [OF assms(1) cur] next_grapheme_ok [OF assms(1) cur]
      word_start_before_ok [OF assms(1)] word_end_after_ok [OF assms(1)]
    by (auto simp: caret_target_def)
qed

lemma delete_back_ok:
  assumes u: "segmentation_ok u" and "edit_ok e"
  shows "\<exists>e' b. delete_back u word e = Some (e', b) \<and> edit_ok e'"
proof -
  obtain e1 g where del: "delete_selection e = Some (e1, g)" and ok: "edit_ok e1"
    using delete_selection_ok [OF assms(2)] by blast
  then have cur: "is_char_boundary (te_text e1) (te_cursor e1)" by (simp add: edit_ok_def)
  obtain p where p: "prev_grapheme u (te_cursor e1) e1 = Some p" "is_char_boundary (te_text e1) p"
    using prev_grapheme_ok [OF u cur] by blast
  show ?thesis
    using del ok p delete_range_ok [OF ok p(2) cur]
      delete_range_ok [OF ok word_start_before_ok [OF u] cur]
    by (auto simp: delete_back_def)
qed

lemma delete_forward_ok:
  assumes u: "segmentation_ok u" and "edit_ok e"
  shows "\<exists>e' b. delete_forward u word e = Some (e', b) \<and> edit_ok e'"
proof -
  obtain e1 g where del: "delete_selection e = Some (e1, g)" and ok: "edit_ok e1"
    using delete_selection_ok [OF assms(2)] by blast
  then have cur: "is_char_boundary (te_text e1) (te_cursor e1)" by (simp add: edit_ok_def)
  obtain p where p: "next_grapheme u (te_cursor e1) e1 = Some p" "is_char_boundary (te_text e1) p"
    using next_grapheme_ok [OF u cur] by blast
  show ?thesis
    using del ok p delete_range_ok [OF ok cur p(2)]
      delete_range_ok [OF ok cur word_end_after_ok [OF u]]
    by (auto simp: delete_forward_def)
qed

lemma kill_word_ok:
  assumes "segmentation_ok u" and "edit_ok e"
  shows "\<exists>e' b. kill_word u e = Some (e', b) \<and> edit_ok e'"
proof (cases "selection e")
  case None
  have "is_char_boundary (te_text e) (te_cursor e)" using assms by (simp add: edit_ok_def)
  with None kill_range_ok [OF assms(2) word_start_before_ok [OF assms(1)]]
  show ?thesis by (simp add: kill_word_def)
next
  case (Some sel)
  with selection_bounds [OF assms(2)] kill_range_ok [OF assms(2)]
  show ?thesis by (cases sel) (simp add: kill_word_def)
qed

lemma delete_key_ok:
  assumes "segmentation_ok u" "edit_ok e"
  shows "\<exists>r. delete_key u ks mods emacs e = Some r \<and> (\<forall>e' b. r = Some (e', b) \<longrightarrow> edit_ok e')"
proof -
  define good :: "(text_edit \<times> bool) option option \<Rightarrow> bool"
    where "good x \<longleftrightarrow> (\<exists>r. x = Some r \<and> (\<forall>e' b. r = Some (e', b) \<longrightarrow> edit_ok e'))" for x
  have lift: "good (map_option Some x)" if "\<exists>e' b. x = Some (e', b) \<and> edit_ok e'" for x
    using that by (auto simp: good_def)
  have none: "good (Some None)" by (simp add: good_def)
  have cur: "is_char_boundary (te_text e) (te_cursor e)" using assms by (simp add: edit_ok_def)
  have "good (delete_key u ks mods emacs e)"
    unfolding delete_key_def
    by (simp add: none lift [OF delete_back_ok [OF assms]] lift [OF delete_forward_ok [OF assms]]
        lift [OF kill_word_ok [OF assms]] lift [OF kill_range_ok [OF assms(2) cur boundary_ulen]]
        lift [OF kill_range_ok [OF assms(2) boundary_0 cur]])
  then show ?thesis by (simp add: good_def)
qed

text \<open>What a deletion may not touch.\<close>

lemma delete_back_frame:
  "delete_back u word e = Some (e', b) \<Longrightarrow>
     te_kill e' = te_kill e \<and> te_preedit e' = te_preedit e \<and> (\<not> b \<longrightarrow> e' = e)"
  by (auto simp: delete_back_def split: bind_splits if_splits
      dest!: delete_selection_frame delete_range_frame)

lemma delete_forward_frame:
  "delete_forward u word e = Some (e', b) \<Longrightarrow>
     te_kill e' = te_kill e \<and> te_preedit e' = te_preedit e \<and> (\<not> b \<longrightarrow> e' = e)"
  by (auto simp: delete_forward_def split: bind_splits if_splits
      dest!: delete_selection_frame delete_range_frame)

lemma delete_key_frame:
  "delete_key u ks mods emacs e = Some (Some (e', b)) \<Longrightarrow>
     te_preedit e' = te_preedit e \<and> (\<not> emacs \<longrightarrow> te_kill e' = te_kill e) \<and>
     (\<not> b \<longrightarrow> te_text e' = te_text e)"
  by (auto simp: delete_key_def kill_word_def split: if_splits
      dest!: delete_back_frame delete_forward_frame kill_range_frame)

section \<open>A key\<close>

lemma handle_emacs_tail_ok:
  "edit_ok e \<Longrightarrow> \<exists>e' r. handle_emacs_tail ks mods emacs e = Some (e', r) \<and> edit_ok e'"
  using insert_str_ok [of "e\<lparr>te_kill := []\<rparr>" "te_kill e"]
  by (auto simp: handle_emacs_tail_def)

lemma handle_emacs_tail_frame:
  "handle_emacs_tail ks mods emacs e = Some (e', r) \<Longrightarrow>
     te_preedit e' = te_preedit e \<and> te_kill e' = te_kill e \<and> (r \<noteq> Some Changed \<longrightarrow> e' = e)
     \<and> r \<in> {None, Some Moved, Some Changed}"
  by (auto simp: handle_emacs_tail_def split: if_splits bind_splits dest!: insert_str_frame)

lemma handle_sym_edit_ok:
  assumes "segmentation_ok u" "edit_ok e"
  shows "\<exists>e' r. handle_sym_edit u ks mods emacs e = Some (e', r) \<and> edit_ok e'"
proof -
  obtain t where t: "caret_target u ks mods emacs e = Some t"
    and tb: "\<And>p. t = Some p \<Longrightarrow> is_char_boundary (te_text e) p"
    using caret_target_ok [OF assms] by blast
  obtain d where d: "delete_key u ks mods emacs e = Some d"
    and db: "\<And>e' b. d = Some (e', b) \<Longrightarrow> edit_ok e'"
    using delete_key_ok [OF assms] by blast
  obtain e1 r where tail: "handle_emacs_tail ks mods emacs e = Some (e1, r)" "edit_ok e1"
    using handle_emacs_tail_ok [OF assms(2)] by blast
  show ?thesis
  proof (cases t)
    case (Some p)
    obtain e2 where "move_caret p (motion_of mods) e = Some e2" "edit_ok e2"
      using move_caret_ok [OF assms(2) tb [OF Some]] by blast
    with t Some show ?thesis by (simp add: handle_sym_edit_def)
  next
    case None
    then show ?thesis
    proof (cases d)
      case None
      with tail t d \<open>t = None\<close> show ?thesis by (simp add: handle_sym_edit_def)
    next
      case (Some x)
      obtain e2 b where "x = (e2, b)" by (cases x)
      with db [of e2 b] Some t d \<open>t = None\<close> show ?thesis by (simp add: handle_sym_edit_def)
    qed
  qed
qed

lemma handle_sym_with_ok:
  assumes "segmentation_ok u" "edit_ok e"
  shows "\<exists>e' r. handle_sym_with u ks mods emacs e = Some (e', r) \<and> edit_ok e'"
  using handle_sym_edit_ok [OF assms, of ks mods emacs] assms(2) by (simp add: handle_sym_with_def)

text \<open>The five ways a keysym is answered.\<close>

lemma handle_sym_edit_cases:
  assumes "handle_sym_edit u ks mods emacs e = Some (e', r)"
  shows "(\<exists>t. move_caret t (motion_of mods) e = Some e' \<and> r = Some Moved) \<or>
    e' = select_all e \<and> r = Some Moved \<or>
    (\<exists>b. delete_key u ks mods emacs e = Some (Some (e', b)) \<and> r = Some (if b then Changed else Moved)) \<or>
    handle_emacs_tail ks mods emacs e = Some (e', r)"
proof -
  from assms obtain t where t: "caret_target u ks mods emacs e = Some t"
    by (auto simp: handle_sym_edit_def split: bind_splits)
  show ?thesis
  proof (cases t)
    case (Some p)
    with t assms have "do { e1 \<leftarrow> move_caret p (motion_of mods) e; Some (e1, Some Moved) } = Some (e', r)"
      by (simp add: handle_sym_edit_def)
    then show ?thesis by (auto split: bind_splits)
  next
    case None
    show ?thesis
    proof (cases "a_key ks \<and> m_ctrl mods \<and> \<not> m_shift mods \<and> \<not> emacs")
      case True
      with None t assms show ?thesis by (simp add: handle_sym_edit_def)
    next
      case False
      have eq: "handle_sym_edit u ks mods emacs e = do {
            deleted \<leftarrow> delete_key u ks mods emacs e;
            (case deleted of
               Some (e1, gone) \<Rightarrow> Some (e1, Some (if gone then Changed else Moved))
             | None \<Rightarrow> handle_emacs_tail ks mods emacs e) }"
        unfolding handle_sym_edit_def t None if_not_P [OF False] by simp
      from assms eq obtain d where d: "delete_key u ks mods emacs e = Some d"
        by (auto split: bind_splits)
      with eq assms have "(case d of
               Some (e1, gone) \<Rightarrow> Some (e1, Some (if gone then Changed else Moved))
             | None \<Rightarrow> handle_emacs_tail ks mods emacs e) = Some (e', r)"
        by simp
      then show ?thesis by (cases d) (fastforce simp: d split: prod.splits)+
    qed
  qed
qed

lemma handle_sym_with_cases:
  assumes "handle_sym_with u ks mods emacs e = Some (e', r)"
  obtains (final) "e' = e" "r \<in> {Some Activate, Some Cancel}"
    | (caret) t where "move_caret t (motion_of mods) e = Some e'" "r = Some Moved"
    | (all) "e' = select_all e" "r = Some Moved"
    | (delete) b where "delete_key u ks mods emacs e = Some (Some (e', b))"
        "r = Some (if b then Changed else Moved)"
    | (tail) "handle_emacs_tail ks mods emacs e = Some (e', r)"
proof (cases "(enter_key ks \<or> ks = K_Escape) \<and> is_plain mods")
  case True
  with assms final show thesis by (auto simp: handle_sym_with_def split: if_splits)
next
  case False
  with assms have "handle_sym_edit u ks mods emacs e = Some (e', r)"
    by (auto simp: handle_sym_with_def)
  from handle_sym_edit_cases [OF this] show thesis
    by (elim disjE exE conjE) (rule caret all delete tail; assumption)+
qed

lemma handle_sym_with_frame:
  assumes "handle_sym_with u ks mods emacs e = Some (e', r)"
  shows "te_preedit e' = te_preedit e \<and> (\<not> emacs \<longrightarrow> te_kill e' = te_kill e) \<and>
    (r = None \<longrightarrow> e' = e) \<and> (r = Some Moved \<longrightarrow> te_text e' = te_text e) \<and>
    (r \<noteq> Some Moved \<longrightarrow> r \<noteq> Some Changed \<longrightarrow> e' = e)"
  using assms
proof (cases rule: handle_sym_with_cases)
  case final
  then show ?thesis by auto
next
  case caret
  then show ?thesis by (auto dest: move_caret_frame)
next
  case all
  then show ?thesis by (simp add: select_all_def)
next
  case (delete b)
  then show ?thesis by (auto dest: delete_key_frame)
next
  case tail
  then show ?thesis by (auto dest: handle_emacs_tail_frame)
qed

definition sym_stage ::
  "segmentation \<Rightarrow> keysym option \<Rightarrow> edit_mods \<Rightarrow> key_theme \<Rightarrow> text_edit
     \<Rightarrow> (text_edit \<times> edit_outcome option) option" where
  "sym_stage u ks mods theme e =
     (case ks of Some k \<Rightarrow> handle_sym u k mods theme e | None \<Rightarrow> Some (e, None))"

lemma sym_stage_ok:
  "segmentation_ok u \<Longrightarrow> edit_ok e \<Longrightarrow> \<exists>e' r. sym_stage u ks mods theme e = Some (e', r) \<and> edit_ok e'"
  using handle_sym_with_ok [of u e _ mods "theme = Emacs"]
  by (cases ks) (simp_all add: sym_stage_def handle_sym_def)

lemma sym_stage_frame:
  assumes "sym_stage u ks mods theme e = Some (e', r)"
  shows "te_preedit e' = te_preedit e" "theme = DefaultTheme \<Longrightarrow> te_kill e' = te_kill e"
    "r = None \<Longrightarrow> e' = e" "r = Some Moved \<Longrightarrow> te_text e' = te_text e"
    "r \<noteq> Some Moved \<Longrightarrow> r \<noteq> Some Changed \<Longrightarrow> e' = e"
  using assms handle_sym_with_frame
  by (auto simp: sym_stage_def handle_sym_def split: option.splits)

lemma handle_key_ok:
  assumes "segmentation_ok u" "edit_ok e"
  shows "\<exists>e' out. handle_key u ks ch mods theme e = Some (e', out) \<and> edit_ok e'"
proof -
  obtain e1 r where s: "sym_stage u ks mods theme e = Some (e1, r)" and ok: "edit_ok e1"
    using sym_stage_ok [OF assms] by blast
  have ins: "\<exists>e' out. do { e2 \<leftarrow> insert_str [c] e1; Some (e2, Changed) } = Some (e', out) \<and> edit_ok e'" for c
    using insert_str_ok [OF ok, of "[c]"] by auto
  show ?thesis
    using s ok ins assms(2)
    unfolding handle_key_def sym_stage_def [symmetric] by (simp split: option.split)
qed

lemma handle_key_frame:
  assumes "handle_key u ks ch mods theme e = Some (e', out)"
  shows "te_preedit e' = te_preedit e"
    and "theme = DefaultTheme \<Longrightarrow> te_kill e' = te_kill e"
    and "out = Moved \<Longrightarrow> te_text e' = te_text e"
    and "out \<noteq> Moved \<Longrightarrow> out \<noteq> Changed \<Longrightarrow> e' = e"
proof -
  consider (a) "e' = e" "out = Ignored"
    | (b) "sym_stage u ks mods theme e = Some (e', Some out)"
    | (c) c where "insert_str [c] e = Some e'" "out = Changed"
  proof (cases "m_logo mods")
    case True
    with assms a show thesis by (simp add: handle_key_def)
  next
    case False
    with assms obtain e1 r where st: "sym_stage u ks mods theme e = Some (e1, r)"
      and rest: "(case r of Some out \<Rightarrow> Some (e1, out)
        | None \<Rightarrow> (case ch of Some c \<Rightarrow>
              if is_plain mods \<and> \<not> is_control c
              then do { e2 \<leftarrow> insert_str [c] e1; Some (e2, Changed) } else Some (e1, Ignored)
            | None \<Rightarrow> Some (e1, Ignored))) = Some (e', out)"
      unfolding handle_key_def sym_stage_def [symmetric] by (auto split: bind_splits)
    show thesis
    proof (cases r)
      case None
      with sym_stage_frame(3) [OF st] have "e1 = e" by simp
      with None rest a c show thesis by (auto split: option.splits if_splits bind_splits)
    next
      case (Some x)
      with st rest b show thesis by simp
    qed
  qed
  note cases = this
  show "te_preedit e' = te_preedit e"
    by (rule cases) (auto dest: sym_stage_frame(1) insert_str_frame)
  show "te_kill e' = te_kill e" if "theme = DefaultTheme"
    by (rule cases) (auto dest: sym_stage_frame(2) [OF _ that] insert_str_frame)
  show "te_text e' = te_text e" if "out = Moved"
    by (rule cases) (use that in \<open>auto dest: sym_stage_frame(4)\<close>)
  show "e' = e" if "out \<noteq> Moved" "out \<noteq> Changed"
    by (rule cases) (use that in \<open>auto dest: sym_stage_frame(5)\<close>)
qed

text \<open>A sequence of keys, as the input path feeds it; \<open>None\<close> is a panic at one of them.\<close>

type_synonym key_event = "keysym option \<times> uchar option \<times> edit_mods \<times> key_theme"

fun handle_keys :: "segmentation \<Rightarrow> key_event list \<Rightarrow> text_edit \<Rightarrow> text_edit option" where
  "handle_keys u [] e = Some e"
| "handle_keys u ((ks, ch, mods, theme) # evs) e = do {
     (e1, out) \<leftarrow> handle_key u ks ch mods theme e;
     handle_keys u evs e1 }"

lemma handle_keys_ok:
  "segmentation_ok u \<Longrightarrow> edit_ok e \<Longrightarrow> \<exists>e'. handle_keys u evs e = Some e' \<and> edit_ok e'"
proof (induction evs arbitrary: e)
  case Nil
  then show ?case by simp
next
  case (Cons ev evs)
  obtain ks ch mods theme where ev: "ev = (ks, ch, mods, theme)" by (cases ev) auto
  obtain e1 out where e1: "handle_key u ks ch mods theme e = Some (e1, out)" "edit_ok e1"
    using handle_key_ok [OF Cons.prems] by blast
  from Cons.IH [OF Cons.prems(1) e1(2)] e1(1) show ?case by (auto simp: ev)
qed

lemma handle_keys_default_kill:
  "handle_keys u evs e = Some e' \<Longrightarrow> \<forall>(ks, ch, mods, theme) \<in> set evs. theme = DefaultTheme \<Longrightarrow>
     te_kill e' = te_kill e"
  by (induction u evs e rule: handle_keys.induct)
     (auto split: bind_splits dest!: handle_key_frame(2))

section \<open>Properties\<close>

text \<open>
  The simplest segmentation, one piece per character; it satisfies what the crate documents,
  so the theorems below are not empty.
\<close>

definition char_segmentation :: segmentation where
  "char_segmentation = \<lparr>graphemes = map (\<lambda>c. [c]), word_bounds = map (\<lambda>c. [c]),
     is_alphanumeric = (\<lambda>c. 48 \<le> c \<and> c \<le> 57 \<or> 65 \<le> c \<and> c \<le> 90 \<or> 97 \<le> c \<and> c \<le> 122)\<rparr>"

lemma char_segmentation_ok [simp]: "segmentation_ok char_segmentation"
proof -
  have "concat (map (\<lambda>c. [c]) s) = s" for s :: ustr by (induction s) auto
  then show ?thesis by (auto simp: segmentation_ok_def char_segmentation_def)
qed

text \<open>
  C6. No key sequence panics. Starting from an empty entry, every sequence of keys (any keysym,
  character, modifiers and key theme, typed into text of any script) is handled without a
  slice outside a character boundary and without a failed \<open>debug_assert\<close>, and leaves caret and
  anchor on character boundaries.
\<close>

theorem text_edit_never_panics:
  assumes "segmentation_ok u"
  shows "\<exists>e. handle_keys u evs new_edit = Some e \<and>
           is_char_boundary (te_text e) (te_cursor e) \<and> is_char_boundary (te_text e) (te_anchor e)"
  using handle_keys_ok [OF assms edit_ok_new] by (auto simp: edit_ok_def)

theorem text_edit_never_panics_witness:
  "\<exists>e. handle_keys char_segmentation
         [(None, Some 233, no_mods, DefaultTheme), (Some K_Left, None, no_mods, DefaultTheme),
          (Some K_Delete, None, no_mods, Emacs)] new_edit = Some e \<and>
       is_char_boundary (te_text e) (te_cursor e) \<and> is_char_boundary (te_text e) (te_anchor e)"
  by (rule text_edit_never_panics) simp

text \<open>
  C7. What an outcome means. On any well-formed entry a key is answered, and its outcome is
  honest: \<open>Moved\<close> leaves the text as it was, and \<open>Ignored\<close>, \<open>Activate\<close> and \<open>Cancel\<close> leave the
  whole entry untouched; the composition is never changed by a key.
\<close>

theorem text_edit_outcome:
  assumes "segmentation_ok u" "edit_ok e"
  shows "\<exists>e' out. handle_key u ks ch mods theme e = Some (e', out) \<and> edit_ok e' \<and>
           te_preedit e' = te_preedit e \<and>
           (out = Moved \<longrightarrow> te_text e' = te_text e) \<and>
           (out \<in> {Ignored, Activate, Cancel} \<longrightarrow> e' = e)"
proof -
  obtain e' out where h: "handle_key u ks ch mods theme e = Some (e', out)" and ok: "edit_ok e'"
    using handle_key_ok [OF assms] by blast
  from handle_key_frame [OF h] h ok show ?thesis by auto
qed

theorem text_edit_outcome_witness:
  "\<exists>e' out. handle_key char_segmentation (Some K_Home) None no_mods DefaultTheme
              (set_text (lit ''abc'') new_edit) = Some (e', out) \<and> edit_ok e' \<and>
           te_preedit e' = te_preedit (set_text (lit ''abc'') new_edit) \<and>
           (out = Moved \<longrightarrow> te_text e' = te_text (set_text (lit ''abc'') new_edit)) \<and>
           (out \<in> {Ignored, Activate, Cancel} \<longrightarrow> e' = set_text (lit ''abc'') new_edit)"
  by (rule text_edit_outcome) simp_all



text \<open>
  C9. Kill and yank. In the Emacs theme, \<open>Ctrl-k\<close> with the caret inside the text and nothing
  selected cuts everything after the caret, and \<open>Ctrl-y\<close> right after it puts the same text
  back: the entry holds what it held, with the caret at the end.
\<close>

lemma kill_to_end:
  assumes "te_text e = a @ b" "te_cursor e = ulen a" "te_anchor e = ulen a" "b \<noteq> []"
  shows "handle_key u (Some K_k) ch (no_mods\<lparr>m_ctrl := True\<rparr>) Emacs e
    = Some (e\<lparr>te_text := a, te_kill := b\<rparr>, Changed)"
proof -
  have "kill_range (ulen a, ulen a + ulen b) True e = Some (e\<lparr>te_text := a, te_kill := b\<rparr>, True)"
    using assms uslice_append3 [of a b "[]"] ucut_append3 [of a b "[]"]
    by (simp add: kill_range_def delete_range_def debug_check_def)
  with assms show ?thesis
    by (simp add: handle_key_def handle_sym_def handle_sym_with_def handle_sym_edit_def
        caret_target_def delete_key_def enter_key_def a_key_def no_mods_def)
qed

lemma yank:
  assumes "te_text e = a" "te_cursor e = ulen a" "te_anchor e = ulen a" "te_kill e \<noteq> []"
  shows "\<exists>e2. handle_key u (Some K_y) ch (no_mods\<lparr>m_ctrl := True\<rparr>) Emacs e = Some (e2, Changed)
    \<and> te_text e2 = a @ te_kill e \<and> te_cursor e2 = ulen (a @ te_kill e) \<and> te_anchor e2 = ulen (a @ te_kill e)"
  using assms uinsert_append [of a "[]" "te_kill e"] boundary_append3 [of a "te_kill e" "[]"]
  by (simp add: handle_key_def handle_sym_def handle_sym_with_def handle_sym_edit_def
      caret_target_def delete_key_def enter_key_def a_key_def no_mods_def handle_emacs_tail_def
      insert_str_def delete_selection_def selection_def ordered_def debug_check_def)



text \<open>
  C10. Masking. What a masked entry draws tells nothing of the text but its number of
  characters: without a composition it is that many mask characters, with one it is those
  characters with the composition inserted, and the caret the view is given is a character
  boundary of what is drawn, right after the composition.
\<close>

lemma masked_offset_prefix:
  "te_text e = a @ b \<Longrightarrow> masked_offset e (ulen a) m = Some (length a * len_utf8 m)"
  by (simp add: masked_offset_def)

lemma usplit_replicate:
  "usplit (replicate (n + k) m) (n * len_utf8 m) = Some (replicate n m, replicate k m)"
  by (simp add: usplit_Some replicate_add)



end
