(* ===== verification/Verifier.thy ===== *)
theory Verifier
  imports Rust_Str
begin

text \<open>
  The messages between the compositor and gdm's verifier, \<open>src/src/dbus/gdm.rs\<close>: requests,
  events, the kinds of messages and their priority order, and the choice of the service a
  conversation is about. The D-Bus client behind them is an environment: it may send any event
  at any time.
\<close>

datatype reader_type = NoReader | Press | Swipe

definition reader_present :: "reader_type \<Rightarrow> bool" where
  "reader_present r \<longleftrightarrow> r \<noteq> NoReader"

definition PASSWORD_SERVICE :: ustr where
  "PASSWORD_SERVICE = lit ''gdm-password''"

definition FINGERPRINT_SERVICE :: ustr where
  "FINGERPRINT_SERVICE = lit ''gdm-fingerprint''"

definition foreground_service :: "bool \<Rightarrow> reader_type \<Rightarrow> ustr" where
  "foreground_service password_enabled reader =
     (if password_enabled then PASSWORD_SERVICE
      else if reader_present reader then FINGERPRINT_SERVICE
      else PASSWORD_SERVICE)"

record begin_request =
  br_username :: ustr
  br_epoch :: nat
  br_reader :: reader_type
  br_login :: bool
  br_allowed_failures :: nat
  br_password_enabled :: bool

datatype verifier_request =
    Begin begin_request
  | Answer ustr
  | StartFingerprint
  | CancelRequest
  | StartSession ustr

text \<open>\<open>MessageKind\<close> derives \<open>Ord\<close>: declaration order is priority.\<close>

datatype message_kind = Hint | Info | Error

fun kind_rank :: "message_kind \<Rightarrow> nat" where
  "kind_rank Hint = 0"
| "kind_rank Info = 1"
| "kind_rank Error = 2"

lemma kind_rank_inject [simp]: "kind_rank a = kind_rank b \<longleftrightarrow> a = b"
  by (cases a; cases b) auto

instantiation message_kind :: linorder
begin

definition less_eq_message_kind :: "message_kind \<Rightarrow> message_kind \<Rightarrow> bool" where
  "less_eq_message_kind a b \<longleftrightarrow> kind_rank a \<le> kind_rank b"

definition less_message_kind :: "message_kind \<Rightarrow> message_kind \<Rightarrow> bool" where
  "less_message_kind a b \<longleftrightarrow> kind_rank a < kind_rank b"

instance
  by standard (auto simp: less_eq_message_kind_def less_message_kind_def)

end

lemma kind_less_simps [simp]:
  "Hint < Info" "Hint < Error" "Info < Error" "\<not> Error < k" "\<not> Info < Hint" "\<not> k < Hint"
  by (cases k; simp add: less_message_kind_def)+

lemma kind_le_Error [simp]: "k \<le> Error" "Error \<le> k \<longleftrightarrow> k = Error" "Hint \<le> k"
  by (cases k; simp add: less_eq_message_kind_def)+

datatype message_source = PasswordSource | FingerprintSource

datatype verifier_event =
    Ready nat
  | Unavailable nat ustr
  | AskQuestion ustr bool
  | FilterMessages message_source
  | ShowMessage ustr message_kind message_source
  | Complete
  | SessionOpened ustr
  | Failed
  | Lost
  | Reset
  | Exhausted

end
