(* ===== verification/Unlock_Dialog.thy ===== *)
theory Unlock_Dialog
  imports Text_Edit Verifier
begin

text \<open>
  The unlock dialog, \<open>src/src/unlock_dialog.rs\<close>: the prompt page of the shield, the state of the
  conversation with the verifier, the password entry and the queue of messages under it.
  Methods return the dialog and the effects; those that edit the entry are \<open>option\<close>-valued, as
  the entry's are. A time is a count of nanoseconds on the monotonic clock; adding a message's
  read time to it is plain addition (at most 2^32 characters of 48 ms each).
\<close>

section \<open>Data\<close>

definition PROMPT_IDLE :: duration where
  "PROMPT_IDLE = dur_secs 120"

definition USERNAME_QUESTION :: ustr where
  "USERNAME_QUESTION = lit ''Username''"

definition USER_READ_TIME :: duration where
  "USER_READ_TIME = dur_millis 48"

definition USER_READ_TIME_MIN :: duration where
  "USER_READ_TIME_MIN = dur_millis 2000"

definition read_time :: "ustr \<Rightarrow> duration" where
  "read_time text = max (USER_READ_TIME * (length text mod 2 ^ 32)) USER_READ_TIME_MIN"

datatype page = Clock | Prompt

datatype status = NotVerifying | Asking | AskingName | Answered | StatusFailed | Verified

record message =
  msg_source :: message_source
  msg_text :: ustr
  msg_kind :: message_kind

record user_info =
  ui_name :: ustr
  ui_real_name :: ustr

definition default_user :: user_info where
  "default_user = \<lparr>ui_name = [], ui_real_name = []\<rparr>"

definition display_name :: "user_info \<Rightarrow> ustr" where
  "display_name u = (if ui_real_name u = [] then ui_name u else ui_real_name u)"

definition or_named :: "ustr \<Rightarrow> user_info \<Rightarrow> user_info" where
  "or_named name u = (if ui_name u = [] then u\<lparr>ui_name := name\<rparr> else u)"

record unlock_effects =
  ue_request :: "verifier_request option"
  ue_unlock :: bool
  ue_redraw :: bool
  ue_start_fingerprint :: bool
  ue_name_entered :: "ustr option"

definition no_unlock :: unlock_effects where
  "no_unlock = \<lparr>ue_request = None, ue_unlock = False, ue_redraw = False,
     ue_start_fingerprint = False, ue_name_entered = None\<rparr>"

definition redraw :: unlock_effects where
  "redraw = no_unlock\<lparr>ue_redraw := True\<rparr>"

record unlock_dialog =
  ud_page :: page
  ud_status :: status
  ud_user :: user_info
  ud_entry :: text_edit
  ud_question :: "(ustr \<times> bool) option"
  ud_message :: "message option"
  ud_wiggle :: bool
  ud_message_until :: "duration option"
  ud_message_queue :: "message option list"
  ud_peek :: bool
  ud_peek_locked_down :: bool
  ud_last_activity :: "duration option"

definition new_dialog :: "user_info \<Rightarrow> unlock_dialog" where
  "new_dialog user = \<lparr>ud_page = Clock, ud_status = NotVerifying, ud_user = user, ud_entry = new_edit,
     ud_question = None, ud_message = None, ud_wiggle = False, ud_message_until = None,
     ud_message_queue = [], ud_peek = False, ud_peek_locked_down = False, ud_last_activity = None\<rparr>"

section \<open>Messages\<close>

definition set_real_name :: "ustr \<Rightarrow> unlock_dialog \<Rightarrow> unlock_dialog" where
  "set_real_name n d = d\<lparr>ud_user := (ud_user d)\<lparr>ui_real_name := n\<rparr>\<rparr>"

definition set_user :: "user_info \<Rightarrow> unlock_dialog \<Rightarrow> unlock_dialog" where
  "set_user v d = d\<lparr>ud_user := v\<rparr>"

definition take_wiggle :: "unlock_dialog \<Rightarrow> unlock_dialog \<times> bool" where
  "take_wiggle d = (d\<lparr>ud_wiggle := False\<rparr>, ud_wiggle d)"

definition message_deadline :: "unlock_dialog \<Rightarrow> duration option" where
  "message_deadline d = (case ud_message_queue d of [] \<Rightarrow> None | _ # _ \<Rightarrow> ud_message_until d)"

text \<open>\<open>Iterator::max\<close> over the shown and the queued messages.\<close>

fun kinds_of :: "message option list \<Rightarrow> message_kind list" where
  "kinds_of [] = []"
| "kinds_of (None # ms) = kinds_of ms"
| "kinds_of (Some m # ms) = msg_kind m # kinds_of ms"

definition loudest_message :: "unlock_dialog \<Rightarrow> message_kind option" where
  "loudest_message d =
     (case kinds_of (ud_message d # ud_message_queue d) of
        [] \<Rightarrow> None
      | k # ks \<Rightarrow> Some (foldl max k ks))"

definition show_message_now :: "message option \<Rightarrow> duration \<Rightarrow> unlock_dialog \<Rightarrow> unlock_dialog \<times> bool" where
  "show_message_now m now d =
     (let changed = (ud_message d \<noteq> m);
          wig = (if changed
                 then ud_wiggle d \<or> (case m of None \<Rightarrow> False
                        | Some x \<Rightarrow> msg_kind x = Error \<and> msg_source x = FingerprintSource)
                 else ud_wiggle d)
      in (d\<lparr>ud_wiggle := wig,
            ud_message_until := map_option (\<lambda>x. now + read_time (msg_text x)) m,
            ud_message := m\<rparr>, changed))"

definition queue_message :: "message option \<Rightarrow> duration \<Rightarrow> unlock_dialog \<Rightarrow> unlock_dialog \<times> bool" where
  "queue_message m now d =
     (if (case ud_message_until d of None \<Rightarrow> False | Some until \<Rightarrow> now < until)
      then (d\<lparr>ud_message_queue := ud_message_queue d @ [m]\<rparr>, False)
      else show_message_now m now d)"

fun sum_read_times :: "message option list \<Rightarrow> duration" where
  "sum_read_times [] = 0"
| "sum_read_times (None # ms) = sum_read_times ms"
| "sum_read_times (Some m # ms) = read_time (msg_text m) + sum_read_times ms"

definition messages_read_at :: "unlock_dialog \<Rightarrow> duration option" where
  "messages_read_at d =
     map_option (\<lambda>t. t + sum_read_times (ud_message_queue d)) (ud_message_until d)"

definition drop_messages :: "unlock_dialog \<Rightarrow> unlock_dialog \<times> bool" where
  "drop_messages d = show_message_now None 0 (d\<lparr>ud_message_queue := []\<rparr>)"

definition doomed :: "message_source \<Rightarrow> message option \<Rightarrow> bool" where
  "doomed src m = (case m of None \<Rightarrow> False | Some x \<Rightarrow> msg_source x = src \<and> msg_kind x < Error)"

definition filter_messages :: "message_source \<Rightarrow> duration \<Rightarrow> unlock_dialog \<Rightarrow> unlock_dialog \<times> bool" where
  "filter_messages src now d =
     (let d1 = d\<lparr>ud_message_queue := filter (\<lambda>m. \<not> doomed src m) (ud_message_queue d)\<rparr> in
      if \<not> doomed src (ud_message d1) then (d1, False)
      else (case ud_message_queue d1 of
              [] \<Rightarrow> show_message_now None now d1
            | m # ms \<Rightarrow> show_message_now m now (d1\<lparr>ud_message_queue := ms\<rparr>)))"

lemma show_message_now_queue [simp]:
  "ud_message_queue (fst (show_message_now m now d)) = ud_message_queue d"
  by (simp add: show_message_now_def Let_def)

function advance_messages :: "duration \<Rightarrow> unlock_dialog \<Rightarrow> unlock_dialog \<times> bool" where
  "advance_messages now d =
     (if (case ud_message_until d of None \<Rightarrow> True | Some until \<Rightarrow> now \<ge> until)
      then (case ud_message_queue d of
              [] \<Rightarrow> (d, False)
            | m # ms \<Rightarrow>
                (let r1 = show_message_now m now (d\<lparr>ud_message_queue := ms\<rparr>);
                     r2 = advance_messages now (fst r1)
                 in (fst r2, snd r1 \<or> snd r2)))
      else (d, False))"
  by pat_completeness auto
termination
  by (relation "measure (\<lambda>(now, d). length (ud_message_queue d))") auto

declare advance_messages.simps [simp del]

section \<open>The entry and the pages\<close>

definition clear_entry :: "unlock_dialog \<Rightarrow> unlock_dialog" where
  "clear_entry d = d\<lparr>ud_entry := secure_clear (ud_entry d)\<rparr>"

definition asked_for_secret :: "unlock_dialog \<Rightarrow> bool" where
  "asked_for_secret d = (case ud_question d of None \<Rightarrow> True | Some (q, secret) \<Rightarrow> secret)"

definition is_secret :: "unlock_dialog \<Rightarrow> bool" where
  "is_secret d \<longleftrightarrow> asked_for_secret d \<and> \<not> ud_peek d"

definition peek :: "unlock_dialog \<Rightarrow> bool option" where
  "peek d = (if \<not> asked_for_secret d \<or> ud_peek_locked_down d then None else Some (ud_peek d))"

definition toggle_peek :: "duration \<Rightarrow> unlock_dialog \<Rightarrow> unlock_dialog \<times> unlock_effects" where
  "toggle_peek now d =
     (let d1 = d\<lparr>ud_last_activity := Some now\<rparr> in
      if peek d1 = None then (d1, no_unlock)
      else (d1\<lparr>ud_peek := \<not> ud_peek d1\<rparr>, redraw))"

definition set_peek_locked_down :: "bool \<Rightarrow> unlock_dialog \<Rightarrow> unlock_dialog" where
  "set_peek_locked_down b d =
     (let d1 = d\<lparr>ud_peek_locked_down := b\<rparr> in if b then d1\<lparr>ud_peek := False\<rparr> else d1)"

definition entry_mask :: "unlock_dialog \<Rightarrow> uchar option" where
  "entry_mask d = (if is_secret d then Some 9679 else None)"

definition entry_display :: "unlock_dialog \<Rightarrow> ustr option" where
  "entry_display d = display (entry_mask d) (ud_entry d)"

definition is_entry_live :: "unlock_dialog \<Rightarrow> bool" where
  "is_entry_live d \<longleftrightarrow> ud_page d = Prompt \<and> ud_status d \<in> {Asking, AskingName}"

definition ask_username :: "duration \<Rightarrow> unlock_dialog \<Rightarrow> unlock_dialog \<times> unlock_effects" where
  "ask_username now d =
     (let d1 = d\<lparr>ud_user := default_user, ud_peek := False\<rparr>;
          d2 = clear_entry (fst (drop_messages d1))
      in (d2\<lparr>ud_question := Some (USERNAME_QUESTION, False), ud_status := AskingName,
            ud_page := Prompt, ud_last_activity := Some now\<rparr>, redraw))"

definition show_prompt :: "duration \<Rightarrow> unlock_dialog \<Rightarrow> unlock_dialog \<times> unlock_effects" where
  "show_prompt now d =
     (let d1 = d\<lparr>ud_last_activity := Some now\<rparr> in
      if ud_page d1 = Prompt then (d1, no_unlock)
      else (d1\<lparr>ud_page := Prompt\<rparr>, redraw\<lparr>ue_start_fingerprint := True\<rparr>))"

definition show_clock :: "unlock_dialog \<Rightarrow> unlock_dialog \<times> unlock_effects" where
  "show_clock d =
     (let d1 = (clear_entry d)\<lparr>ud_last_activity := None\<rparr>;
          d2 = (if ud_status d1 = AskingName
                then d1\<lparr>ud_status := NotVerifying, ud_question := None\<rparr> else d1);
          (d3, cleared) = drop_messages d2
      in if ud_page d3 = Clock then (d3, if cleared then redraw else no_unlock)
         else (d3\<lparr>ud_page := Clock\<rparr>, redraw))"

definition entry_key ::
  "segmentation \<Rightarrow> keysym option \<Rightarrow> uchar option \<Rightarrow> edit_mods \<Rightarrow> key_theme \<Rightarrow> duration
     \<Rightarrow> unlock_dialog \<Rightarrow> (unlock_dialog \<times> unlock_effects option) option" where
  "entry_key u ks ch mods theme now d =
     (let (d0, effects) = show_prompt now d;
          d1 = d0\<lparr>ud_last_activity := Some now\<rparr>
      in if \<not> is_entry_live d1 then Some (d1, None)
         else do {
           (e, out) \<leftarrow> handle_key u ks ch mods theme (ud_entry d1);
           let d2 = d1\<lparr>ud_entry := e\<rparr>;
           Some (d2, if out \<in> {Changed, Moved} then Some (effects\<lparr>ue_redraw := True\<rparr>) else None) })"

definition type_char ::
  "segmentation \<Rightarrow> uchar \<Rightarrow> duration \<Rightarrow> unlock_dialog \<Rightarrow> (unlock_dialog \<times> unlock_effects) option" where
  "type_char u c now d = do {
     (d1, r) \<leftarrow> entry_key u None (Some c) no_mods DefaultTheme now d;
     Some (case r of Some e \<Rightarrow> (d1, e) | None \<Rightarrow> show_prompt now d1) }"

definition dialog_set_preedit :: "ustr option \<Rightarrow> unlock_dialog \<Rightarrow> unlock_dialog \<times> bool" where
  "dialog_set_preedit p d = (let (e, b) = set_preedit p (ud_entry d) in (d\<lparr>ud_entry := e\<rparr>, b))"

definition backspace ::
  "segmentation \<Rightarrow> duration \<Rightarrow> unlock_dialog \<Rightarrow> (unlock_dialog \<times> unlock_effects) option" where
  "backspace u now d = do {
     (d1, r) \<leftarrow> entry_key u (Some K_BackSpace) None no_mods DefaultTheme now d;
     Some (d1, case r of Some e \<Rightarrow> e | None \<Rightarrow> no_unlock) }"

definition submit :: "duration \<Rightarrow> unlock_dialog \<Rightarrow> unlock_dialog \<times> unlock_effects" where
  "submit now d =
     (let d1 = d\<lparr>ud_last_activity := Some now\<rparr> in
      if \<not> is_entry_live d1 then (d1, no_unlock)
      else if ud_status d1 = AskingName then
        (if te_text (ud_entry d1) = [] then (d1, no_unlock)
         else (let name = te_text (ud_entry d1);
                   d2 = (clear_entry d1)\<lparr>ud_question := None, ud_status := NotVerifying\<rparr>
               in (d2, redraw\<lparr>ue_name_entered := Some name\<rparr>)))
      else (let answer = te_text (ud_entry d1);
                d2 = (clear_entry d1)\<lparr>ud_status := Answered\<rparr>;
                d3 = fst (queue_message None now d2)
            in (d3, no_unlock\<lparr>ue_request := Some (Answer answer), ue_redraw := True\<rparr>)))"

definition cancel :: "unlock_dialog \<Rightarrow> unlock_dialog \<times> unlock_effects" where
  "cancel d = show_clock d"

definition tick :: "duration \<Rightarrow> unlock_dialog \<Rightarrow> unlock_dialog \<times> unlock_effects" where
  "tick now d =
     (let (d1, advanced) = advance_messages now d;
          escaping = (ud_page d1 = Prompt \<and>
            (case ud_last_activity d1 of None \<Rightarrow> False | Some la \<Rightarrow> now - la \<ge> PROMPT_IDLE))
      in if escaping
         then (let (d2, e) = show_clock d1 in (d2, e\<lparr>ue_redraw := ue_redraw e \<or> advanced\<rparr>))
         else (d1, if advanced then redraw else no_unlock))"

definition is_waiting_to_escape :: "unlock_dialog \<Rightarrow> bool" where
  "is_waiting_to_escape d \<longleftrightarrow> ud_page d = Prompt \<and> ud_last_activity d \<noteq> None"

section \<open>The verifier's events\<close>

definition clean_question :: "ustr \<Rightarrow> ustr" where
  "clean_question q =
     (if q = lit ''Password:'' \<or> q = lit ''Password: '' then lit ''Password''
      else trim (trim_end_matches (\<lambda>c. c = 58 \<or> c = 65306) (trim_end_matches is_whitespace q)))"

definition auth_failed_message :: message where
  "auth_failed_message = \<lparr>msg_source = PasswordSource, msg_text = lit ''Authentication failed'',
     msg_kind = Error\<rparr>"

fun on_verifier_event :: "verifier_event \<Rightarrow> duration \<Rightarrow> unlock_dialog \<Rightarrow> unlock_dialog \<times> unlock_effects" where
  "on_verifier_event (Ready ep) now d = (d, no_unlock)"
| "on_verifier_event Lost now d =
     ((clear_entry (d\<lparr>ud_status := NotVerifying, ud_question := None\<rparr>))\<lparr>ud_page := Clock\<rparr>, redraw)"
| "on_verifier_event (Unavailable ep reason) now d =
     (clear_entry (d\<lparr>ud_status := NotVerifying, ud_question := None\<rparr>), redraw)"
| "on_verifier_event (AskQuestion q secret) now d =
     ((clear_entry (d\<lparr>ud_peek := False, ud_question := Some (clean_question q, secret)\<rparr>))
        \<lparr>ud_status := Asking\<rparr>, redraw)"
| "on_verifier_event (FilterMessages src) now d =
     (let (d1, changed) = filter_messages src now d in (d1, if changed then redraw else no_unlock))"
| "on_verifier_event (ShowMessage text kind src) now d =
     (if (case loudest_message d of None \<Rightarrow> False | Some loudest \<Rightarrow> kind < loudest) then (d, no_unlock)
      else (let (d1, changed) =
              queue_message (Some \<lparr>msg_source = src, msg_text = text, msg_kind = kind\<rparr>) now d
            in (d1, if changed then redraw else no_unlock)))"
| "on_verifier_event Complete now d =
     ((clear_entry (d\<lparr>ud_status := Verified\<rparr>))\<lparr>ud_question := None\<rparr>,
      no_unlock\<lparr>ue_unlock := True, ue_redraw := True\<rparr>)"
| "on_verifier_event Failed now d =
     (let d1 = (clear_entry (d\<lparr>ud_status := StatusFailed\<rparr>))\<lparr>ud_question := None\<rparr>;
          d2 = (if ud_message d1 = None then fst (queue_message (Some auth_failed_message) now d1) else d1)
      in (d2, redraw))"
| "on_verifier_event Exhausted now d = (d, no_unlock)"
| "on_verifier_event (SessionOpened service) now d = (d, no_unlock)"
| "on_verifier_event Reset now d =
     (let d1 = (clear_entry (d\<lparr>ud_status := NotVerifying\<rparr>))\<lparr>ud_question := None\<rparr>
      in (fst (queue_message None now d1), redraw))"

section \<open>The dialog as a machine\<close>

datatype dialog_op =
    DSetRealName ustr
  | DSetUser user_info
  | DTakeWiggle
  | DTogglePeek duration
  | DSetPeekLockedDown bool
  | DAskUsername duration
  | DShowPrompt duration
  | DShowClock
  | DTypeChar uchar duration
  | DEntryKey "keysym option" "uchar option" edit_mods key_theme duration
  | DSetPreedit "ustr option"
  | DBackspace duration
  | DSubmit duration
  | DCancel
  | DTick duration
  | DEvent verifier_event duration

fun dialog_step ::
  "segmentation \<Rightarrow> dialog_op \<Rightarrow> unlock_dialog \<Rightarrow> (unlock_dialog \<times> unlock_effects) option" where
  "dialog_step u (DSetRealName n) d = Some (set_real_name n d, no_unlock)"
| "dialog_step u (DSetUser v) d = Some (set_user v d, no_unlock)"
| "dialog_step u DTakeWiggle d = Some (fst (take_wiggle d), no_unlock)"
| "dialog_step u (DTogglePeek now) d = Some (toggle_peek now d)"
| "dialog_step u (DSetPeekLockedDown b) d = Some (set_peek_locked_down b d, no_unlock)"
| "dialog_step u (DAskUsername now) d = Some (ask_username now d)"
| "dialog_step u (DShowPrompt now) d = Some (show_prompt now d)"
| "dialog_step u DShowClock d = Some (show_clock d)"
| "dialog_step u (DTypeChar c now) d = type_char u c now d"
| "dialog_step u (DEntryKey ks ch mods theme now) d =
     map_option (\<lambda>(d1, r). (d1, case r of Some e \<Rightarrow> e | None \<Rightarrow> no_unlock))
       (entry_key u ks ch mods theme now d)"
| "dialog_step u (DSetPreedit p) d = Some (fst (dialog_set_preedit p d), no_unlock)"
| "dialog_step u (DBackspace now) d = backspace u now d"
| "dialog_step u (DSubmit now) d = Some (submit now d)"
| "dialog_step u DCancel d = Some (cancel d)"
| "dialog_step u (DTick now) d = Some (tick now d)"
| "dialog_step u (DEvent ev now) d = Some (on_verifier_event ev now d)"

text \<open>
  The invariant: the entry is well formed; text is only ever held while the entry is live, and
  a live entry has a question; the name question is the greeter's own and unmasked; a message
  is shown exactly while it has a time to be read; a locked-down peek is off.
\<close>

definition dialog_ok :: "unlock_dialog \<Rightarrow> bool" where
  "dialog_ok d \<longleftrightarrow>
     edit_ok (ud_entry d) \<and>
     (te_text (ud_entry d) \<noteq> [] \<longrightarrow> is_entry_live d) \<and>
     (ud_status d = Asking \<longrightarrow> ud_question d \<noteq> None) \<and>
     (ud_status d = AskingName \<longrightarrow> ud_question d = Some (USERNAME_QUESTION, False)) \<and>
     (ud_question d \<noteq> None \<longrightarrow> ud_status d \<in> {Asking, AskingName, Answered}) \<and>
     (ud_message d = None \<longleftrightarrow> ud_message_until d = None) \<and>
     (ud_peek_locked_down d \<longrightarrow> \<not> ud_peek d)"

lemma dialog_ok_new [simp]: "dialog_ok (new_dialog user)"
  by (simp add: dialog_ok_def new_dialog_def) (simp add: new_edit_def)

text \<open>What the message operations leave alone.\<close>

lemma show_message_now_ok [simp]: "dialog_ok (fst (show_message_now m now d)) \<longleftrightarrow>
    edit_ok (ud_entry d) \<and> (te_text (ud_entry d) \<noteq> [] \<longrightarrow> is_entry_live d) \<and>
     (ud_status d = Asking \<longrightarrow> ud_question d \<noteq> None) \<and>
     (ud_status d = AskingName \<longrightarrow> ud_question d = Some (USERNAME_QUESTION, False)) \<and>
     (ud_question d \<noteq> None \<longrightarrow> ud_status d \<in> {Asking, AskingName, Answered}) \<and>
     (ud_peek_locked_down d \<longrightarrow> \<not> ud_peek d)"
  by (cases m) (auto simp: dialog_ok_def show_message_now_def Let_def is_entry_live_def)

lemma dialog_ok_queue [simp]: "dialog_ok (d\<lparr>ud_message_queue := q\<rparr>) \<longleftrightarrow> dialog_ok d"
  by (simp add: dialog_ok_def is_entry_live_def)

lemma dialog_ok_show: "dialog_ok d \<Longrightarrow> dialog_ok (fst (show_message_now m now d))"
  unfolding show_message_now_ok by (simp add: dialog_ok_def)

lemma dialog_ok_queue_message: "dialog_ok d \<Longrightarrow> dialog_ok (fst (queue_message m now d))"
  by (simp add: queue_message_def dialog_ok_show del: show_message_now_ok)

lemma dialog_ok_drop: "dialog_ok d \<Longrightarrow> dialog_ok (fst (drop_messages d))"
  by (simp add: drop_messages_def dialog_ok_show del: show_message_now_ok)

lemma dialog_ok_filter: "dialog_ok d \<Longrightarrow> dialog_ok (fst (filter_messages src now d))"
  by (auto simp: filter_messages_def Let_def intro!: dialog_ok_show simp del: show_message_now_ok
      split: list.split)

lemma advance_messages_preserves:
  assumes step: "\<And>d m ms. P d \<Longrightarrow> P (fst (show_message_now m now (d\<lparr>ud_message_queue := ms\<rparr>)))"
    and "P d"
  shows "P (fst (advance_messages now d))"
proof -
  have "P d \<Longrightarrow> P (fst (advance_messages now d))"
  proof (induction "length (ud_message_queue d)" arbitrary: d)
    case 0
    then show ?case by (subst advance_messages.simps) simp
  next
    case (Suc n)
    then obtain m ms where q: "ud_message_queue d = m # ms" by (cases "ud_message_queue d") auto
    let ?d1 = "fst (show_message_now m now (d\<lparr>ud_message_queue := ms\<rparr>))"
    have "P (fst (advance_messages now ?d1))"
      using Suc q step [OF \<open>P d\<close>] by (intro Suc.hyps(1)) auto
    with q \<open>P d\<close> show ?case by (subst advance_messages.simps) (simp add: Let_def)
  qed
  with assms(2) show ?thesis by simp
qed

lemma dialog_ok_advance: "dialog_ok d \<Longrightarrow> dialog_ok (fst (advance_messages now d))"
  by (rule advance_messages_preserves) (rule dialog_ok_show, simp)

lemma queue_message_frame [simp]:
  "ud_entry (fst (queue_message m now d)) = ud_entry d"
  "ud_page (fst (queue_message m now d)) = ud_page d"
  "ud_status (fst (queue_message m now d)) = ud_status d"
  "ud_question (fst (queue_message m now d)) = ud_question d"
  by (simp_all add: queue_message_def show_message_now_def Let_def)

lemma filter_messages_frame [simp]:
  "ud_entry (fst (filter_messages src now d)) = ud_entry d"
  "ud_page (fst (filter_messages src now d)) = ud_page d"
  "ud_status (fst (filter_messages src now d)) = ud_status d"
  "ud_question (fst (filter_messages src now d)) = ud_question d"
  by (simp_all add: filter_messages_def show_message_now_def Let_def split: list.split)

lemma drop_messages_frame [simp]:
  "ud_entry (fst (drop_messages d)) = ud_entry d"
  "ud_page (fst (drop_messages d)) = ud_page d"
  "ud_status (fst (drop_messages d)) = ud_status d"
  "ud_question (fst (drop_messages d)) = ud_question d"
  "ud_message (fst (drop_messages d)) = None" "ud_message_queue (fst (drop_messages d)) = []"
  "ud_message_until (fst (drop_messages d)) = None"
  "ud_peek (fst (drop_messages d)) = ud_peek d"
  "ud_peek_locked_down (fst (drop_messages d)) = ud_peek_locked_down d"
  by (simp_all add: drop_messages_def show_message_now_def Let_def)

lemma advance_messages_frame:
  "ud_entry (fst (advance_messages now d)) = ud_entry d \<and>
   ud_page (fst (advance_messages now d)) = ud_page d \<and>
   ud_status (fst (advance_messages now d)) = ud_status d \<and>
   ud_question (fst (advance_messages now d)) = ud_question d"
  by (rule advance_messages_preserves [where P = "\<lambda>x. ud_entry x = ud_entry d \<and>
        ud_page x = ud_page d \<and> ud_status x = ud_status d \<and> ud_question x = ud_question d"])
     (simp_all add: show_message_now_def Let_def)

text \<open>Every operation keeps the invariant, and none panics.\<close>

lemma clear_entry_frame [simp]:
  "ud_page (clear_entry d) = ud_page d" "ud_status (clear_entry d) = ud_status d"
  "ud_question (clear_entry d) = ud_question d" "ud_message (clear_entry d) = ud_message d"
  "ud_message_until (clear_entry d) = ud_message_until d" "ud_peek (clear_entry d) = ud_peek d"
  "ud_peek_locked_down (clear_entry d) = ud_peek_locked_down d"
  "ud_message_queue (clear_entry d) = ud_message_queue d"
  "te_text (ud_entry (clear_entry d)) = []" "edit_ok (ud_entry (clear_entry d))"
  by (simp_all add: clear_entry_def) (simp add: secure_clear_def)

lemma dialog_ok_show_prompt: "dialog_ok d \<Longrightarrow> dialog_ok (fst (show_prompt now d))"
  by (auto simp: show_prompt_def Let_def dialog_ok_def is_entry_live_def)

lemma dialog_ok_show_clock: "dialog_ok d \<Longrightarrow> dialog_ok (fst (show_clock d))"
  by (simp add: show_clock_def Let_def split_beta) (auto simp: dialog_ok_def is_entry_live_def)

lemma dialog_ok_ask_username: "dialog_ok d \<Longrightarrow> dialog_ok (fst (ask_username now d))"
  by (simp add: ask_username_def Let_def) (auto simp: dialog_ok_def is_entry_live_def)

lemma dialog_ok_toggle_peek: "dialog_ok d \<Longrightarrow> dialog_ok (fst (toggle_peek now d))"
  by (auto simp: toggle_peek_def peek_def Let_def dialog_ok_def is_entry_live_def)

lemma dialog_ok_submit: "dialog_ok d \<Longrightarrow> dialog_ok (fst (submit now d))"
proof -
  assume ok: "dialog_ok d"
  have "dialog_ok (fst (queue_message None now
          ((clear_entry (d\<lparr>ud_last_activity := Some now\<rparr>))\<lparr>ud_status := Answered\<rparr>)))"
    using ok by (intro dialog_ok_queue_message) (auto simp: dialog_ok_def is_entry_live_def)
  with ok show ?thesis
    by (auto simp: submit_def Let_def dialog_ok_def is_entry_live_def)
qed

lemma dialog_ok_tick: "dialog_ok d \<Longrightarrow> dialog_ok (fst (tick now d))"
  using dialog_ok_show_clock [OF dialog_ok_advance [of d now]] dialog_ok_advance [of d now]
  by (simp add: tick_def Let_def split_beta)

lemma dialog_ok_entry_key:
  assumes u: "segmentation_ok u" and "dialog_ok d"
  shows "\<exists>d' r. entry_key u ks ch mods theme now d = Some (d', r) \<and> dialog_ok d'"
proof -
  let ?d1 = "(fst (show_prompt now d))\<lparr>ud_last_activity := Some now\<rparr>"
  have ok: "dialog_ok ?d1"
    using dialog_ok_show_prompt [OF assms(2), of now] by (simp add: dialog_ok_def is_entry_live_def)
  then have "edit_ok (ud_entry ?d1)" by (simp add: dialog_ok_def)
  from handle_key_ok [OF u this] obtain e out where
    h: "handle_key u ks ch mods theme (ud_entry ?d1) = Some (e, out)" "edit_ok e" by blast
  show ?thesis
  proof (cases "is_entry_live ?d1")
    case False
    with ok show ?thesis by (simp add: entry_key_def Let_def split_beta)
  next
    case True
    with ok h(2) have "dialog_ok (?d1\<lparr>ud_entry := e\<rparr>)"
      by (auto simp: dialog_ok_def is_entry_live_def)
    with True h show ?thesis by (simp add: entry_key_def Let_def split_beta)
  qed
qed

lemma dialog_ok_event: "dialog_ok d \<Longrightarrow> dialog_ok (fst (on_verifier_event ev now d))"
proof (cases ev)
  case (FilterMessages src)
  assume "dialog_ok d"
  with FilterMessages dialog_ok_filter show ?thesis by (simp add: Let_def split_beta)
next
  case (ShowMessage t k src)
  assume "dialog_ok d"
  with ShowMessage dialog_ok_queue_message show ?thesis by (simp add: Let_def split_beta)
next
  case Failed
  assume ok: "dialog_ok d"
  then have "dialog_ok ((clear_entry (d\<lparr>ud_status := StatusFailed\<rparr>))\<lparr>ud_question := None\<rparr>)"
    by (auto simp: dialog_ok_def is_entry_live_def)
  with Failed dialog_ok_queue_message show ?thesis by (simp add: Let_def)
next
  case Reset
  assume ok: "dialog_ok d"
  then have "dialog_ok ((clear_entry (d\<lparr>ud_status := NotVerifying\<rparr>))\<lparr>ud_question := None\<rparr>)"
    by (auto simp: dialog_ok_def is_entry_live_def)
  with Reset dialog_ok_queue_message show ?thesis by (simp add: Let_def)
qed (auto simp: dialog_ok_def is_entry_live_def)

lemma dialog_step_ok:
  assumes "segmentation_ok u" and "dialog_ok d"
  shows "\<exists>d' e. dialog_step u x d = Some (d', e) \<and> dialog_ok d'"
proof -
  have lift: "\<exists>d' e. Some r = Some (d', e) \<and> dialog_ok d'" if "dialog_ok (fst r)" for r :: "unlock_dialog \<times> unlock_effects"
    using that by (cases r) auto
  have key: "\<exists>d' r. entry_key u ks ch mods theme now d = Some (d', r) \<and> dialog_ok d'"
    for ks ch mods theme now by (rule dialog_ok_entry_key [OF assms])
  show ?thesis
  proof (cases x)
    case (DTypeChar c now)
    obtain d1 r where "entry_key u None (Some c) no_mods DefaultTheme now d = Some (d1, r)" "dialog_ok d1"
      using key by blast
    with DTypeChar lift [OF dialog_ok_show_prompt [of d1 now]] show ?thesis
      by (auto simp: type_char_def split: option.split)
  next
    case (DEntryKey ks ch mods theme now)
    with key [of ks ch mods theme now] show ?thesis by auto
  next
    case (DBackspace now)
    obtain d1 r where "entry_key u (Some K_BackSpace) None no_mods DefaultTheme now d = Some (d1, r)"
      "dialog_ok d1" using key by blast
    with DBackspace show ?thesis by (simp add: backspace_def)
  next
    case (DSetPreedit p)
    with assms(2) show ?thesis
      by (simp add: dialog_set_preedit_def Let_def split_beta dialog_ok_def is_entry_live_def)
  qed (use assms(2) lift dialog_ok_toggle_peek dialog_ok_ask_username dialog_ok_show_prompt
         dialog_ok_show_clock dialog_ok_submit dialog_ok_tick dialog_ok_event in
       \<open>simp_all add: cancel_def\<close>,
       auto simp: set_real_name_def set_user_def take_wiggle_def set_peek_locked_down_def Let_def
         dialog_ok_def is_entry_live_def)
qed

interpretation dialog: total_machine "dialog_step u" "\<lambda>d. segmentation_ok u \<and> dialog_ok d" for u
proof
  fix s x
  assume "segmentation_ok u \<and> dialog_ok s"
  with dialog_step_ok [of u s x]
  show "\<exists>s' e. dialog_step u x s = Some (s', e) \<and> segmentation_ok u \<and> dialog_ok s'" by blast
qed

section \<open>What the steps emit\<close>

lemma show_clock_effects [simp]:
  "ue_unlock (snd (show_clock d)) = False" "ue_request (snd (show_clock d)) = None"
  by (simp_all add: show_clock_def Let_def split_beta redraw_def no_unlock_def)

lemma show_prompt_effects [simp]:
  "ue_unlock (snd (show_prompt now d)) = False" "ue_request (snd (show_prompt now d)) = None"
  by (simp_all add: show_prompt_def Let_def redraw_def no_unlock_def)

lemma entry_key_effects:
  assumes "entry_key u ks ch mods theme now d = Some (d', Some e)"
  shows "ue_unlock e = False" "ue_request e = None"
  using assms show_prompt_effects [of now d]
  by (auto simp: entry_key_def Let_def split_beta split: if_splits bind_splits)

lemma show_prompt_pair: "show_prompt now d = (d', e) \<Longrightarrow> \<not> ue_unlock e \<and> ue_request e = None"
  using show_prompt_effects [of now d] by simp

lemma type_char_effects:
  assumes "type_char u c now d = Some (d', e)"
  shows "\<not> ue_unlock e \<and> ue_request e = None"
  using assms entry_key_effects [of u None "Some c" no_mods DefaultTheme now d]
  by (auto simp: type_char_def split: bind_splits option.splits dest: show_prompt_pair)

lemma entry_key_status:
  "entry_key u ks ch mods theme now d = Some (d', r) \<Longrightarrow> ud_status d' = ud_status d"
  by (auto simp: entry_key_def Let_def split_beta show_prompt_def split: if_splits bind_splits)

lemma show_clock_status:
  "ud_status (fst (show_clock d)) = (if ud_status d = AskingName then NotVerifying else ud_status d)"
  by (simp add: show_clock_def Let_def split_beta)

lemma show_prompt_status [simp]: "ud_status (fst (show_prompt now d)) = ud_status d"
  by (simp add: show_prompt_def Let_def)

lemma tick_status:
  "ud_status (fst (tick now d)) = ud_status d \<or> ud_status (fst (tick now d)) = NotVerifying"
  using show_clock_status [of "fst (advance_messages now d)"] advance_messages_frame [of now d]
  by (simp add: tick_def Let_def split_beta)

lemma tick_effects [simp]:
  "ue_unlock (snd (tick now d)) = False" "ue_request (snd (tick now d)) = None"
  by (simp_all add: tick_def Let_def split_beta redraw_def no_unlock_def)

lemma event_effects:
  "ue_request (snd (on_verifier_event ev now d)) = None"
  "ue_unlock (snd (on_verifier_event ev now d)) \<longleftrightarrow> ev = Complete"
  by (cases ev; simp add: Let_def split_beta redraw_def no_unlock_def)+

lemma event_status:
  "ud_status (fst (on_verifier_event ev now d)) =
     (case ev of AskQuestion q s \<Rightarrow> Asking | Complete \<Rightarrow> Verified | Failed \<Rightarrow> StatusFailed
      | Lost \<Rightarrow> NotVerifying | Unavailable ep r \<Rightarrow> NotVerifying | Reset \<Rightarrow> NotVerifying
      | _ \<Rightarrow> ud_status d)"
  by (cases ev) (simp_all add: Let_def split_beta)

lemma submit_status:
  "ud_status (fst (submit now d)) \<in> {ud_status d, NotVerifying, Answered}"
  by (auto simp: submit_def Let_def)

lemma dialog_step_unlock:
  assumes "dialog_step u x d = Some (d', e)" and "ue_unlock e"
  shows "\<exists>now. x = DEvent Complete now"
proof (cases x)
  case (DEvent ev now)
  with assms event_effects(2) [of ev now d] show ?thesis by auto
next
  case (DTypeChar c now)
  with assms type_char_effects [of u c now d d' e] show ?thesis by simp
qed (use assms in \<open>auto simp: toggle_peek_def ask_username_def submit_def cancel_def backspace_def
       redraw_def no_unlock_def Let_def split: if_splits bind_splits option.splits
       dest: entry_key_effects arg_cong [where f = snd] arg_cong [where f = "\<lambda>p. ue_unlock (snd p)"]\<close>)

lemma dialog_step_unlock_iff:
  assumes "dialog_step u x d = Some (d', e)"
  shows "ue_unlock e \<longleftrightarrow> (\<exists>now. x = DEvent Complete now)"
proof
  assume "\<exists>now. x = DEvent Complete now"
  then obtain now where "x = DEvent Complete now" ..
  with assms have "e = snd (on_verifier_event Complete now d)" by auto
  then show "ue_unlock e" by simp
qed (rule dialog_step_unlock [OF assms])

lemma dialog_step_request:
  assumes "dialog_step u x d = Some (d', e)" and "ue_request e \<noteq> None"
  shows "\<exists>now. x = DSubmit now \<and> is_entry_live d"
proof (cases x)
  case (DEvent ev now)
  with assms event_effects(1) [of ev now d] show ?thesis by auto
next
  case (DTypeChar c now)
  with assms type_char_effects [of u c now d d' e] show ?thesis by simp
next
  case (DSubmit now)
  with assms have "e = snd (submit now d)" by auto
  with assms(2) DSubmit show ?thesis
    by (auto simp: submit_def Let_def no_unlock_def is_entry_live_def split: if_splits)
next
  case (DTogglePeek now)
  with assms have "e = snd (toggle_peek now d)" by auto
  with assms(2) show ?thesis by (auto simp: toggle_peek_def Let_def redraw_def no_unlock_def split: if_splits)
next
  case (DAskUsername now)
  with assms have "e = redraw" by (auto simp: ask_username_def Let_def)
  with assms(2) show ?thesis by (simp add: redraw_def no_unlock_def)
next
  case (DShowPrompt now)
  with assms have "e = snd (show_prompt now d)" by auto
  with assms(2) show ?thesis by simp
next
  case DShowClock
  with assms have "e = snd (show_clock d)" by auto
  with assms(2) show ?thesis by simp
next
  case DCancel
  with assms have "e = snd (show_clock d)" by (auto simp: cancel_def)
  with assms(2) show ?thesis by simp
next
  case (DTick now)
  with assms have "e = snd (tick now d)" by auto
  with assms(2) show ?thesis by simp
next
  case (DEntryKey ks ch mods theme now)
  with assms obtain r where "entry_key u ks ch mods theme now d = Some (d', r)"
    and "e = (case r of Some e \<Rightarrow> e | None \<Rightarrow> no_unlock)" by auto
  with assms(2) entry_key_effects(2) show ?thesis by (cases r) (auto simp: no_unlock_def)
next
  case (DBackspace now)
  with assms obtain r where "entry_key u (Some K_BackSpace) None no_mods DefaultTheme now d = Some (d', r)"
    and "e = (case r of Some e \<Rightarrow> e | None \<Rightarrow> no_unlock)" by (auto simp: backspace_def split: bind_splits)
  with assms(2) entry_key_effects(2) show ?thesis by (cases r) (auto simp: no_unlock_def)
qed (use assms in \<open>auto simp: no_unlock_def\<close>)

lemma dialog_step_status:
  assumes "dialog_step u x d = Some (d', e)"
  shows "ud_status d' = ud_status d \<or> ud_status d' \<in> {NotVerifying, Answered} \<or>
    (\<exists>now. x = DAskUsername now \<and> ud_status d' = AskingName) \<or>
    (\<exists>ev now. x = DEvent ev now \<and> ud_status d' =
       (case ev of AskQuestion q s \<Rightarrow> Asking | Complete \<Rightarrow> Verified | Failed \<Rightarrow> StatusFailed
        | _ \<Rightarrow> ud_status d'))"
proof (cases x)
  case (DEvent ev now)
  with assms have "d' = fst (on_verifier_event ev now d)" by auto
  with event_status [of ev now d] DEvent show ?thesis by (cases ev) auto
next
  case (DSubmit now)
  with assms have "d' = fst (submit now d)" by auto
  with submit_status [of now d] show ?thesis by auto
next
  case (DTick now)
  with assms have "d' = fst (tick now d)" by auto
  with tick_status [of now d] show ?thesis by auto
next
  case (DShowPrompt now)
  with assms have "d' = fst (show_prompt now d)" by auto
  then show ?thesis by simp
next
  case DShowClock
  with assms have "d' = fst (show_clock d)" by auto
  then show ?thesis by (simp add: show_clock_status)
next
  case DCancel
  with assms have "d' = fst (show_clock d)" by (auto simp: cancel_def)
  then show ?thesis by (simp add: show_clock_status)
next
  case (DTypeChar c now)
  with assms obtain d1 r where "entry_key u None (Some c) no_mods DefaultTheme now d = Some (d1, r)"
    and "d' = d1 \<or> d' = fst (show_prompt now d1)"
    by (auto simp: type_char_def split: bind_splits option.splits dest: arg_cong [where f = fst])
  then show ?thesis using entry_key_status by fastforce
qed (use assms in \<open>auto simp: toggle_peek_def ask_username_def set_real_name_def set_user_def
       take_wiggle_def set_peek_locked_down_def dialog_set_preedit_def backspace_def Let_def split_beta
       split: if_splits bind_splits option.splits dest!: entry_key_status\<close>)

lemma dialog_step_verified:
  assumes "dialog_step u x d = Some (d', e)" "ud_status d \<noteq> Verified" "ud_status d' = Verified"
  shows "\<exists>now. x = DEvent Complete now"
  using dialog_step_status [OF assms(1)]
proof (elim disjE exE conjE)
  fix ev now assume x: "x = DEvent ev now"
  then have "d' = fst (on_verifier_event ev now d)" using assms(1) by auto
  with x assms(2,3) event_status [of ev now d] show ?thesis by (cases ev) auto
qed (use assms(2,3) in auto)

section \<open>Properties\<close>

abbreviation dialog_run ::
  "segmentation \<Rightarrow> dialog_op list \<Rightarrow> unlock_dialog \<Rightarrow> (unlock_dialog \<times> unlock_effects list) option" where
  "dialog_run u \<equiv> prun (dialog_step u)"

text \<open>
  C11. The one rule of the lock screen. Over any sequence of keystrokes, ticks, page changes,
  verifier events and setters on a fresh dialog, the effect \<open>unlock\<close> is emitted at exactly the
  steps that deliver gdm's \<open>Complete\<close>, and a dialog in status \<open>Verified\<close> has received a \<open>Complete\<close>.
\<close>

theorem dialog_unlocks_only_on_complete:
  assumes "segmentation_ok u" and "dialog_run u ops (new_dialog user) = Some (d, es)"
  shows "(\<forall>i < length es. ue_unlock (es ! i) \<longleftrightarrow> (\<exists>now. ops ! i = DEvent Complete now)) \<and>
    (ud_status d = Verified \<longrightarrow> (\<exists>now. DEvent Complete now \<in> set ops))"
proof (intro conjI allI impI)
  have start: "segmentation_ok u \<and> dialog_ok (new_dialog user)" using assms(1) by simp
  fix i assume "i < length es"
  then obtain si si' where "dialog_step u (ops ! i) si = Some (si', es ! i)"
    using dialog.prun_effect [OF start assms(2)] by blast
  then show "ue_unlock (es ! i) \<longleftrightarrow> (\<exists>now. ops ! i = DEvent Complete now)"
    by (rule dialog_step_unlock_iff)
next
  have start: "segmentation_ok u \<and> dialog_ok (new_dialog user)" using assms(1) by simp
  assume "ud_status d = Verified"
  then obtain x si si' e where "x \<in> set ops" "ud_status si \<noteq> Verified"
    and "dialog_step u x si = Some (si', e)" "ud_status si' = Verified"
    using dialog.prun_establishes [OF start assms(2), of "\<lambda>d. ud_status d = Verified"]
    by (auto simp: new_dialog_def)
  then have "\<exists>now. x = DEvent Complete now" by (intro dialog_step_verified)
  with \<open>x \<in> set ops\<close> show "\<exists>now. DEvent Complete now \<in> set ops" by blast
qed

theorem dialog_unlocks_only_on_complete_witness:
  "\<exists>d es. dialog_run char_segmentation [DShowPrompt 1, DEvent Complete 2] (new_dialog default_user) = Some (d, es)
     \<and> (\<forall>i < length es. ue_unlock (es ! i) \<longleftrightarrow> (\<exists>now. [DShowPrompt 1, DEvent Complete 2] ! i = DEvent Complete now))
     \<and> (ud_status d = Verified \<longrightarrow> (\<exists>now. DEvent Complete now \<in> set [DShowPrompt 1, DEvent Complete 2]))"
proof -
  obtain d es where r: "dialog_run char_segmentation [DShowPrompt 1, DEvent Complete 2]
      (new_dialog default_user) = Some (d, es)"
    using dialog.prun_total [of char_segmentation "new_dialog default_user"] char_segmentation_ok
      dialog_ok_new by blast
  from dialog_unlocks_only_on_complete [OF char_segmentation_ok r] r show ?thesis by blast
qed

text \<open>
  C12. The lifetime of a password. No sequence of operations on a fresh dialog panics, and in
  every state it reaches the entry holds text only while it is live: on the prompt page, with
  an unanswered question of gdm's or the greeter's. Leaving the page, an answer, a verdict, a
  reset or the loss of the channel all leave an empty entry.
\<close>

theorem dialog_text_only_while_live:
  assumes "segmentation_ok u"
  shows "\<exists>d es. dialog_run u ops (new_dialog user) = Some (d, es) \<and>
    (te_text (ud_entry d) \<noteq> [] \<longrightarrow>
       ud_page d = Prompt \<and> ud_status d \<in> {Asking, AskingName} \<and> ud_question d \<noteq> None)"
proof -
  have "segmentation_ok u \<and> dialog_ok (new_dialog user)" using assms by simp
  from dialog.prun_total [OF this, of ops] obtain d es where
    "dialog_run u ops (new_dialog user) = Some (d, es)" "dialog_ok d" by blast
  then show ?thesis by (auto simp: dialog_ok_def is_entry_live_def)
qed

theorem dialog_text_only_while_live_witness:
  "\<exists>d es. dialog_run char_segmentation
      [DEvent (AskQuestion (lit ''Password:'') True) 1, DTypeChar 97 2, DShowClock] (new_dialog default_user)
        = Some (d, es) \<and>
    (te_text (ud_entry d) \<noteq> [] \<longrightarrow>
       ud_page d = Prompt \<and> ud_status d \<in> {Asking, AskingName} \<and> ud_question d \<noteq> None)"
  by (rule dialog_text_only_while_live) simp

text \<open>
  C13. The first letter is kept. On the clock page with a question outstanding, a printable
  character raises the prompt, arms the fingerprint reader and is the first character of the
  entry: nothing typed blind is lost.
\<close>

lemma empty_edit_insert:
  assumes "edit_ok e" "te_text e = []"
  shows "\<exists>e'. insert_str [c] e = Some e' \<and> te_text e' = [c]"
proof -
  from assms have "te_cursor e = 0" "te_anchor e = 0"
    by (auto simp: edit_ok_def dest: boundary_le)
  with assms(2) boundary_ulen [of "[c]"] show ?thesis
    by (simp add: insert_str_def delete_selection_def selection_def ordered_def uinsert_def debug_check_def)
qed



text \<open>
  C14. One answer per question. Return on a live password question sends exactly what was
  typed and empties the entry; from then on no operation sends another answer until the
  verifier or the greeter asks again.
\<close>

definition asks :: "dialog_op \<Rightarrow> bool" where
  "asks x = (case x of DAskUsername now \<Rightarrow> True
     | DEvent ev now \<Rightarrow> (case ev of AskQuestion q s \<Rightarrow> True | _ \<Rightarrow> False)
     | _ \<Rightarrow> False)"

lemma step_without_question:
  assumes "dialog_step u x d = Some (d', e)" and "\<not> asks x" and "ud_status d \<notin> {Asking, AskingName}"
  shows "ud_status d' \<notin> {Asking, AskingName}" and "ue_request e = None"
proof -
  from dialog_step_status [OF assms(1)] show "ud_status d' \<notin> {Asking, AskingName}"
  proof (elim disjE exE conjE)
    fix ev now assume x: "x = DEvent ev now"
    then have "d' = fst (on_verifier_event ev now d)" using assms(1) by auto
    with x assms(2,3) event_status [of ev now d] show ?thesis by (cases ev) (auto simp: asks_def)
  qed (use assms(2,3) in \<open>auto simp: asks_def\<close>)
  show "ue_request e = None"
    using dialog_step_request [OF assms(1)] assms(3)
    by (cases "ue_request e") (auto simp: is_entry_live_def)
qed

lemma run_without_question:
  "dialog_run u ops d = Some (d', es) \<Longrightarrow> \<forall>x \<in> set ops. \<not> asks x \<Longrightarrow>
     ud_status d \<notin> {Asking, AskingName} \<Longrightarrow> \<forall>e \<in> set es. ue_request e = None"
proof (induction ops arbitrary: d es)
  case Nil
  then show ?case by simp
next
  case (Cons x ops)
  from Cons.prems(1) obtain d1 e es' where x: "dialog_step u x d = Some (d1, e)"
    and rest: "dialog_run u ops d1 = Some (d', es')" and es: "es = e # es'"
    by (auto split: option.splits)
  have "\<not> asks x" using Cons.prems(2) by simp
  note st = step_without_question [OF x this Cons.prems(3)]
  from Cons.IH [OF rest _ st(1)] Cons.prems(2) st(2) es show ?case by simp
qed

theorem dialog_one_answer_per_question:
  assumes "ud_page d = Prompt" "ud_status d = Asking"
    and "\<forall>x \<in> set ops. \<not> asks x"
  shows "\<exists>d1 e. submit now d = (d1, e) \<and> ue_request e = Some (Answer (te_text (ud_entry d))) \<and>
    te_text (ud_entry d1) = [] \<and> te_kill (ud_entry d1) = [] \<and> te_preedit (ud_entry d1) = None \<and>
    (\<forall>d2 es. dialog_run u ops d1 = Some (d2, es) \<longrightarrow> (\<forall>e \<in> set es. ue_request e = None))"
proof -
  obtain d1 e where s: "submit now d = (d1, e)" by (cases "submit now d")
  with assms(1,2) have "ue_request e = Some (Answer (te_text (ud_entry d)))"
    "ud_status d1 = Answered" "ud_entry d1 = secure_clear (ud_entry d)"
    by (auto simp: submit_def is_entry_live_def Let_def clear_entry_def)
  with s run_without_question [of u ops d1, OF _ assms(3)] show ?thesis
    by (auto simp: secure_clear_def)
qed

theorem dialog_one_answer_per_question_witness:
  "let d = fst (show_prompt 1 (fst (on_verifier_event (AskQuestion (lit ''Password:'') True) 1 (new_dialog default_user)))) in
   \<exists>d1 e. submit 4 d = (d1, e) \<and> ue_request e = Some (Answer (te_text (ud_entry d))) \<and>
    te_text (ud_entry d1) = [] \<and> te_kill (ud_entry d1) = [] \<and> te_preedit (ud_entry d1) = None \<and>
    (\<forall>d2 es. dialog_run char_segmentation [DSubmit 5, DSubmit 6] d1 = Some (d2, es)
       \<longrightarrow> (\<forall>e \<in> set es. ue_request e = None))"
  unfolding Let_def
  by (rule dialog_one_answer_per_question)
     (simp_all add: new_dialog_def show_prompt_def clear_entry_def asks_def)

text \<open>
  C15. An error is read before it goes. While an error is on screen and its reading time has not
  passed, no event of the verifier takes it down or changes its deadline, and the errors
  waiting behind it keep their order: an event can only add to the end of them.
\<close>

definition queued_errors :: "unlock_dialog \<Rightarrow> message option list" where
  "queued_errors d = filter (\<lambda>m. \<exists>x. m = Some x \<and> msg_kind x = Error) (ud_message_queue d)"

lemma error_max: "k \<le> (Error :: message_kind)"
  by (cases k) (simp_all add: less_eq_message_kind_def)

lemma error_not_doomed: "msg_kind x = Error \<Longrightarrow> \<not> doomed src (Some x)"
  using error_max by (simp add: doomed_def)

lemma queue_message_waits:
  assumes "ud_message_until d = Some until" "now < until"
  shows "queue_message m now d = (d\<lparr>ud_message_queue := ud_message_queue d @ [m]\<rparr>, False)"
  using assms by (simp add: queue_message_def)

lemma filter_messages_error:
  assumes "ud_message d = Some m" "msg_kind m = Error"
  shows "filter_messages src now d
     = (d\<lparr>ud_message_queue := filter (\<lambda>m. \<not> doomed src m) (ud_message_queue d)\<rparr>, False)"
  using assms error_not_doomed by (simp add: filter_messages_def)

lemma queued_errors_filter:
  "queued_errors (d\<lparr>ud_message_queue := filter (\<lambda>m. \<not> doomed src m) (ud_message_queue d)\<rparr>) = queued_errors d"
proof -
  have "(\<exists>x. m = Some x \<and> msg_kind x = Error) \<Longrightarrow> \<not> doomed src m" for m
    using error_not_doomed by auto
  then show ?thesis by (auto simp: queued_errors_def filter_filter intro!: filter_cong)
qed

lemma clear_entry_messages [simp]:
  "ud_message_until (clear_entry d) = ud_message_until d"
  "ud_message_queue (clear_entry d) = ud_message_queue d"
  by (simp_all add: clear_entry_def)

theorem dialog_error_is_read:
  assumes "ud_message d = Some m" "msg_kind m = Error"
    and "ud_message_until d = Some until" "now < until"
  shows "\<exists>d' e late. on_verifier_event ev now d = (d', e) \<and> ud_message d' = Some m \<and>
    ud_message_until d' = Some until \<and> queued_errors d' = queued_errors d @ late"
proof (cases ev)
  case (ShowMessage t k src)
  with assms show ?thesis by (auto simp: queue_message_waits queued_errors_def)
next
  case (FilterMessages src)
  with assms queued_errors_filter [of src d] show ?thesis by (auto simp: filter_messages_error)
next
  case Reset
  with assms show ?thesis by (auto simp: Let_def queue_message_waits queued_errors_def)
qed (use assms in \<open>simp_all add: Let_def queued_errors_def\<close>)

theorem dialog_error_is_read_witness:
  "let m = \<lparr>msg_source = PasswordSource, msg_text = lit ''Sorry'', msg_kind = Error\<rparr>;
       d = fst (on_verifier_event (ShowMessage (lit ''Sorry'') Error PasswordSource) 0 (new_dialog default_user)) in
   \<exists>d' e late. on_verifier_event Reset 1 d = (d', e) \<and> ud_message d' = Some m \<and>
    ud_message_until d' = Some (read_time (lit ''Sorry'')) \<and> queued_errors d' = queued_errors d @ late"
  unfolding Let_def
  by (rule dialog_error_is_read)
     (simp_all add: new_dialog_def loudest_message_def queue_message_def show_message_now_def
       read_time_def USER_READ_TIME_MIN_def USER_READ_TIME_def dur_millis_def dur_secs_def)

text \<open>
  C16. A queued message can lose its timer. The deadline after which the compositor is to move
  the queue on is documented to be absent only while nothing is queued. This run ends with an
  error in the queue, nothing on screen and no deadline: a fingerprint hint is up when a
  password is submitted (which queues a clear), an error follows, and the fingerprint's
  messages are filtered, which shows the clear and gives it no time. The error then waits for
  the next unrelated tick.
\<close>

definition stuck_queue_ops :: "dialog_op list" where
  "stuck_queue_ops =
     [DEvent (AskQuestion (lit ''Password:'') True) 0, DShowPrompt 0,
      DEvent (ShowMessage (lit ''Place your finger'') Hint FingerprintSource) 1,
      DSubmit 2, DEvent (ShowMessage (lit ''Sorry'') Error PasswordSource) 3,
      DEvent (FilterMessages FingerprintSource) 4]"


end
