(* ===== verification/Timers.thy ===== *)
theory Timers
  imports Prelude "HOL-Library.Product_Lexorder" "HOL-Library.Sublist"
begin

text \<open>
  The compositor's timers, \<open>src/src/utils/timers.rs\<close>. A callback is a value of the client's type
  \<open>'c\<close> and \<open>exec\<close> runs it on the whole of the client's data \<open>'d\<close>; it returns the callback (it is
  an \<open>FnMut\<close>), the data and what it wants next. The wheel lives on the data and is reached
  through the accessor \<open>wheel\<close>, a getter and a setter here.
\<close>

section \<open>The wheel\<close>

type_synonym token = nat

record 'c timer_entry =
  tm_token :: token
  tm_deadline :: duration
  tm_callback :: 'c

record 'c timers =
  tms_entries :: "'c timer_entry list"
  tms_next_token :: nat
  tms_cancelled :: "token list"
  tms_dispatching :: bool

definition no_timers :: "'c timers" where
  "no_timers = \<lparr>tms_entries = [], tms_next_token = 0, tms_cancelled = [], tms_dispatching = False\<rparr>"

definition insert_at :: "duration \<Rightarrow> 'c \<Rightarrow> 'c timers \<Rightarrow> token \<times> 'c timers" where
  "insert_at deadline callback ts =
     (let token = tms_next_token ts in
      (token, ts\<lparr>tms_next_token := tms_next_token ts + 1,
                tms_entries := tms_entries ts @
                  [\<lparr>tm_token = token, tm_deadline = deadline, tm_callback = callback\<rparr>]\<rparr>))"

definition cancel_timer :: "token \<Rightarrow> 'c timers \<Rightarrow> 'c timers" where
  "cancel_timer token ts =
     (let ts1 = (if tms_dispatching ts
                 then ts\<lparr>tms_cancelled := tms_cancelled ts @ [token]\<rparr> else ts)
      in ts1\<lparr>tms_entries := filter (\<lambda>e. tm_token e \<noteq> token) (tms_entries ts1)\<rparr>)"

definition is_pending :: "token \<Rightarrow> 'c timers \<Rightarrow> bool" where
  "is_pending token ts \<longleftrightarrow> (\<exists>e \<in> set (tms_entries ts). tm_token e = token)"

definition next_deadline :: "'c timers \<Rightarrow> duration option" where
  "next_deadline ts =
     (case map tm_deadline (tms_entries ts) of [] \<Rightarrow> None | d # ds \<Rightarrow> Some (fold min ds d))"

section \<open>Dispatch\<close>

definition due_tokens :: "duration \<Rightarrow> 'c timers \<Rightarrow> token list" where
  "due_tokens now ts =
     map snd (sort (map (\<lambda>e. (tm_deadline e, tm_token e))
       (filter (\<lambda>e. tm_deadline e \<le> now) (tms_entries ts))))"

text \<open>\<open>Vec::remove\<close> at the position of the first entry that has the token.\<close>

definition remove_entry :: "token \<Rightarrow> 'c timer_entry list \<Rightarrow> 'c timer_entry list" where
  "remove_entry token es =
     takeWhile (\<lambda>e. tm_token e \<noteq> token) es @ tl (dropWhile (\<lambda>e. tm_token e \<noteq> token) es)"

definition lift_out :: "token \<Rightarrow> 'c timers \<Rightarrow> 'c timers" where
  "lift_out token ts =
     ts\<lparr>tms_entries := remove_entry token (tms_entries ts), tms_dispatching := True\<rparr>"

definition put_back ::
  "duration \<Rightarrow> 'c timer_entry \<Rightarrow> 'c \<Rightarrow> duration option \<Rightarrow> 'c timers \<Rightarrow> 'c timers" where
  "put_back now e callback again ts =
     (let cancelled = (tm_token e \<in> set (tms_cancelled ts));
          ts1 = ts\<lparr>tms_dispatching := False, tms_cancelled := []\<rparr>
      in case again of
           None \<Rightarrow> ts1
         | Some after \<Rightarrow>
             if cancelled then ts1
             else ts1\<lparr>tms_entries := tms_entries ts1 @
                      [e\<lparr>tm_deadline := now + after, tm_callback := callback\<rparr>]\<rparr>)"

definition fire ::
  "('d \<Rightarrow> 'c timers) \<Rightarrow> ('c timers \<Rightarrow> 'd \<Rightarrow> 'd) \<Rightarrow> ('c \<Rightarrow> 'd \<Rightarrow> 'c \<times> 'd \<times> duration option)
     \<Rightarrow> duration \<Rightarrow> 'c timer_entry \<Rightarrow> 'd \<Rightarrow> 'd" where
  "fire get put exec now e d =
     (let (callback, d1, again) = exec (tm_callback e) (put (lift_out (tm_token e) (get d)) d)
      in put (put_back now e callback again (get d1)) d1)"

fun dispatch_due ::
  "('d \<Rightarrow> 'c timers) \<Rightarrow> ('c timers \<Rightarrow> 'd \<Rightarrow> 'd) \<Rightarrow> ('c \<Rightarrow> 'd \<Rightarrow> 'c \<times> 'd \<times> duration option)
     \<Rightarrow> duration \<Rightarrow> token list \<Rightarrow> 'd \<Rightarrow> 'd" where
  "dispatch_due get put exec now [] d = d"
| "dispatch_due get put exec now (token # due) d =
     dispatch_due get put exec now due
       (case find (\<lambda>e. tm_token e = token) (tms_entries (get d)) of
          None \<Rightarrow> d
        | Some e \<Rightarrow> fire get put exec now e d)"

definition dispatch_from ::
  "('d \<Rightarrow> 'c timers) \<Rightarrow> ('c timers \<Rightarrow> 'd \<Rightarrow> 'd) \<Rightarrow> ('c \<Rightarrow> 'd \<Rightarrow> 'c \<times> 'd \<times> duration option)
     \<Rightarrow> duration \<Rightarrow> 'd \<Rightarrow> 'd" where
  "dispatch_from get put exec now d = dispatch_due get put exec now (due_tokens now (get d)) d"

text \<open>The tokens whose callbacks a dispatch runs, in the order it runs them.\<close>

fun fired ::
  "('d \<Rightarrow> 'c timers) \<Rightarrow> ('c timers \<Rightarrow> 'd \<Rightarrow> 'd) \<Rightarrow> ('c \<Rightarrow> 'd \<Rightarrow> 'c \<times> 'd \<times> duration option)
     \<Rightarrow> duration \<Rightarrow> token list \<Rightarrow> 'd \<Rightarrow> token list" where
  "fired get put exec now [] d = []"
| "fired get put exec now (token # due) d =
     (case find (\<lambda>e. tm_token e = token) (tms_entries (get d)) of
        None \<Rightarrow> fired get put exec now due d
      | Some e \<Rightarrow> token # fired get put exec now due (fire get put exec now e d))"

lemma dispatch_due_preserves:
  assumes "\<And>e d. P d \<Longrightarrow> e \<in> set (tms_entries (get d)) \<Longrightarrow> P (fire get put exec now e d)" and "P d"
  shows "P (dispatch_due get put exec now due d)"
  using assms(2)
proof (induction due arbitrary: d)
  case (Cons t due)
  show ?case
  proof (cases "find (\<lambda>e. tm_token e = t) (tms_entries (get d))")
    case (Some e)
    with find_Some_mem [OF Some] assms(1) [OF Cons.prems] Cons.IH show ?thesis by simp
  qed (use Cons in simp)
qed simp

section \<open>What a callback may do to the wheel\<close>

inductive wheel_use :: "'c timers \<Rightarrow> 'c timers \<Rightarrow> bool" where
  use_refl: "wheel_use ts ts"
| use_insert: "wheel_use ts ts' \<Longrightarrow> wheel_use ts (snd (insert_at deadline c ts'))"
| use_cancel: "wheel_use ts ts' \<Longrightarrow> wheel_use ts (cancel_timer token ts')"

lemma wheel_use_trans: "wheel_use b c \<Longrightarrow> wheel_use a b \<Longrightarrow> wheel_use a c"
  by (induction rule: wheel_use.induct) (auto intro: wheel_use.intros)

lemma wheel_use_insert: "wheel_use ts (snd (insert_at deadline c ts))"
  by (rule use_insert [OF use_refl])

lemma wheel_use_cancel: "wheel_use ts (cancel_timer token ts)"
  by (rule use_cancel [OF use_refl])

text \<open>Tokens are handed out once: the invariant of the wheel.\<close>

definition timers_ok :: "'c timers \<Rightarrow> bool" where
  "timers_ok ts \<longleftrightarrow> distinct (map tm_token (tms_entries ts)) \<and>
     (\<forall>e \<in> set (tms_entries ts). tm_token e < tms_next_token ts)"

definition timers_idle :: "'c timers \<Rightarrow> bool" where
  "timers_idle ts \<longleftrightarrow> \<not> tms_dispatching ts \<and> tms_cancelled ts = []"

lemma timers_ok_new [simp]: "timers_ok no_timers" "timers_idle no_timers"
  by (simp_all add: timers_ok_def timers_idle_def no_timers_def)

lemma insert_at_next [simp]: "tms_next_token (snd (insert_at dl c ts)) = Suc (tms_next_token ts)"
  by (simp add: insert_at_def Let_def)

lemma insert_at_entries [simp]:
  "tms_entries (snd (insert_at dl c ts)) = tms_entries ts @
     [\<lparr>tm_token = tms_next_token ts, tm_deadline = dl, tm_callback = c\<rparr>]"
  by (simp add: insert_at_def Let_def)

lemma cancel_next [simp]: "tms_next_token (cancel_timer t ts) = tms_next_token ts"
  by (simp add: cancel_timer_def Let_def)

lemma cancel_entries [simp]:
  "tms_entries (cancel_timer t ts) = filter (\<lambda>e. tm_token e \<noteq> t) (tms_entries ts)"
  by (simp add: cancel_timer_def Let_def)

lemma insert_at_pending [simp]: "is_pending (fst (insert_at dl c ts)) (snd (insert_at dl c ts))"
  by (simp add: insert_at_def is_pending_def Let_def)

lemma cancel_not_pending [simp]: "\<not> is_pending t (cancel_timer t ts)"
  by (simp add: is_pending_def)

lemma timers_ok_insert [simp]: "timers_ok ts \<Longrightarrow> timers_ok (snd (insert_at dl c ts))"
  by (auto simp: timers_ok_def)

lemma timers_ok_cancel [simp]: "timers_ok ts \<Longrightarrow> timers_ok (cancel_timer t ts)"
  by (auto simp: timers_ok_def distinct_map_filter)

lemma timers_idle_insert [simp]: "timers_idle (snd (insert_at dl c ts)) \<longleftrightarrow> timers_idle ts"
  by (simp add: timers_idle_def insert_at_def Let_def)

lemma timers_idle_cancel [simp]: "timers_idle ts \<Longrightarrow> timers_idle (cancel_timer t ts)"
  by (simp add: timers_idle_def cancel_timer_def Let_def)

lemma remove_entry_subset: "set (remove_entry t es) \<subseteq> set es"
proof
  fix e assume "e \<in> set (remove_entry t es)"
  moreover have "set (tl zs) \<subseteq> set zs" for zs :: "'a timer_entry list" by (cases zs) auto
  ultimately show "e \<in> set es"
    by (auto simp: remove_entry_def dest!: set_takeWhileD dest: set_dropWhileD)
qed

lemma remove_entry_filter:
  "distinct (map tm_token es) \<Longrightarrow> remove_entry t es = filter (\<lambda>e. tm_token e \<noteq> t) es"
proof (induction es)
  case (Cons e es)
  show ?case
  proof (cases "tm_token e = t")
    case True
    with Cons.prems have "filter (\<lambda>x. tm_token x \<noteq> t) es = es" by (auto simp: filter_id_conv image_iff)
    with True show ?thesis by (simp add: remove_entry_def)
  next
    case False
    with Cons show ?thesis by (simp add: remove_entry_def)
  qed
qed (simp add: remove_entry_def)

lemma lift_out_entries:
  "timers_ok ts \<Longrightarrow> tms_entries (lift_out t ts) = filter (\<lambda>e. tm_token e \<noteq> t) (tms_entries ts)"
  by (simp add: lift_out_def remove_entry_filter timers_ok_def)

lemma lift_out_subset: "set (tms_entries (lift_out t ts)) \<subseteq> set (tms_entries ts)"
  by (simp add: lift_out_def remove_entry_subset)

lemma lift_out_next [simp]: "tms_next_token (lift_out t ts) = tms_next_token ts"
  by (simp add: lift_out_def)

lemma timers_ok_lift_out: "timers_ok ts \<Longrightarrow> timers_ok (lift_out t ts)"
  using lift_out_entries [of ts t] by (auto simp: timers_ok_def distinct_map_filter)

lemma wheel_use_ok: "wheel_use ts ts' \<Longrightarrow> timers_ok ts \<Longrightarrow> timers_ok ts'"
  by (induction rule: wheel_use.induct) auto

lemma wheel_use_next: "wheel_use ts ts' \<Longrightarrow> tms_next_token ts \<le> tms_next_token ts'"
  by (induction rule: wheel_use.induct) auto

lemma wheel_use_old:
  "wheel_use ts ts' \<Longrightarrow> e \<in> set (tms_entries ts') \<Longrightarrow> tm_token e < tms_next_token ts
     \<Longrightarrow> e \<in> set (tms_entries ts)"
  by (induction rule: wheel_use.induct) (auto dest: wheel_use_next)

text \<open>The earliest deadline is what the loop must next wake for.\<close>

lemma fold_min_le: "fold min ds (d :: nat) \<le> d \<and> (\<forall>x \<in> set ds. fold min ds d \<le> x)"
proof (induction ds arbitrary: d)
  case (Cons y ds)
  from Cons.IH [of "min y d"] show ?case by auto
qed simp

lemma fold_min_in: "fold min ds (d :: nat) \<in> set (d # ds)"
proof (induction ds arbitrary: d)
  case (Cons y ds)
  from Cons.IH [of "min y d"] show ?case by (auto simp: min_def split: if_splits)
qed simp

lemma next_deadline_None [simp]: "next_deadline ts = None \<longleftrightarrow> tms_entries ts = []"
  by (auto simp: next_deadline_def split: list.splits)

lemma next_deadline_Some:
  assumes "next_deadline ts = Some t"
  shows "t \<in> tm_deadline ` set (tms_entries ts) \<and> (\<forall>e \<in> set (tms_entries ts). t \<le> tm_deadline e)"
proof -
  from assms obtain d ds where m: "map tm_deadline (tms_entries ts) = d # ds"
    and t: "t = fold min ds d" by (auto simp: next_deadline_def split: list.splits)
  then have s: "tm_deadline ` set (tms_entries ts) = set (d # ds)"
    by (metis list.set_map)
  have "t \<in> set (d # ds)" using fold_min_in t by blast
  moreover have "\<forall>x \<in> set (d # ds). t \<le> x" using fold_min_le [of ds d] t by simp
  ultimately show ?thesis using s by (metis imageI)
qed

section \<open>Dispatch, for a client that keeps to the interface\<close>

lemma due_tokens_set:
  "t \<in> set (due_tokens now ts) \<longleftrightarrow> (\<exists>e \<in> set (tms_entries ts). tm_token e = t \<and> tm_deadline e \<le> now)"
  by (force simp: due_tokens_def)

lemma due_tokens_distinct: "timers_ok ts \<Longrightarrow> distinct (due_tokens now ts)"
proof -
  assume "timers_ok ts"
  then have "distinct (map tm_token (filter (\<lambda>e. tm_deadline e \<le> now) (tms_entries ts)))"
    by (simp add: timers_ok_def distinct_map_filter)
  then have "distinct (map snd (map (\<lambda>e. (tm_deadline e, tm_token e))
      (filter (\<lambda>e. tm_deadline e \<le> now) (tms_entries ts))))"
    by (simp add: comp_def)
  then show ?thesis
    by (auto simp: due_tokens_def distinct_map inj_on_def)
qed

locale timer_client =
  fixes get :: "'d \<Rightarrow> 'c timers"
    and put :: "'c timers \<Rightarrow> 'd \<Rightarrow> 'd"
    and exec :: "'c \<Rightarrow> 'd \<Rightarrow> 'c \<times> 'd \<times> duration option"
  assumes get_put: "get (put ts d) = ts"
    and exec_wheel: "exec c d = (c', d', again) \<Longrightarrow> wheel_use (get d) (get d')"
begin

text \<open>One firing: what the wheel is before and after.\<close>

lemma fire_get:
  obtains d1 callback again where
    "exec (tm_callback e) (put (lift_out (tm_token e) (get d)) d) = (callback, d1, again)"
    "wheel_use (lift_out (tm_token e) (get d)) (get d1)"
    "get (fire get put exec now e d) = put_back now e callback again (get d1)"
proof -
  obtain callback d1 again where
    x: "exec (tm_callback e) (put (lift_out (tm_token e) (get d)) d) = (callback, d1, again)"
    using prod_cases3 by blast
  from exec_wheel [OF x] have "wheel_use (lift_out (tm_token e) (get d)) (get d1)"
    by (simp add: get_put)
  moreover from x have "get (fire get put exec now e d) = put_back now e callback again (get d1)"
    by (simp add: fire_def get_put)
  ultimately show ?thesis using that x by blast
qed

lemma fire_next: "tms_next_token (get d) \<le> tms_next_token (get (fire get put exec now e d))"
proof -
  obtain d1 callback again where u: "wheel_use (lift_out (tm_token e) (get d)) (get d1)"
    and g: "get (fire get put exec now e d) = put_back now e callback again (get d1)"
    by (rule fire_get [of e d now])
  from wheel_use_next [OF u] g show ?thesis
    by (simp add: put_back_def Let_def split: option.split)
qed

lemma fire_idle: "timers_idle (get (fire get put exec now e d))"
proof -
  obtain d1 callback again where
    "get (fire get put exec now e d) = put_back now e callback again (get d1)"
    by (rule fire_get [of e d now])
  then show ?thesis by (simp add: put_back_def timers_idle_def Let_def split: option.split)
qed

lemma fire_ok:
  assumes "timers_ok (get d)" "e \<in> set (tms_entries (get d))"
  shows "timers_ok (get (fire get put exec now e d))"
proof -
  obtain d1 callback again where u: "wheel_use (lift_out (tm_token e) (get d)) (get d1)"
    and g: "get (fire get put exec now e d) = put_back now e callback again (get d1)"
    by (rule fire_get [of e d now])
  from wheel_use_ok [OF u timers_ok_lift_out [OF assms(1)]] have ok: "timers_ok (get d1)" .
  have lt: "tm_token e < tms_next_token (lift_out (tm_token e) (get d))"
    using assms by (auto simp: timers_ok_def)
  have "tm_token e \<notin> tm_token ` set (tms_entries (get d1))"
  proof
    assume "tm_token e \<in> tm_token ` set (tms_entries (get d1))"
    then obtain e' where e': "e' \<in> set (tms_entries (get d1))" "tm_token e = tm_token e'" by auto
    then have "tm_token e' < tms_next_token (lift_out (tm_token e) (get d))" using lt by simp
    from wheel_use_old [OF u e'(1) this] e'(2) show False by (simp add: lift_out_entries assms(1))
  qed
  with ok lt wheel_use_next [OF u] g show ?thesis
    by (auto simp: put_back_def timers_ok_def Let_def split: option.splits)
qed

lemma find_entry: "find (\<lambda>e. tm_token e = t) es = Some e \<Longrightarrow> e \<in> set es \<and> tm_token e = t"
  using find_Some_mem [of "\<lambda>e. tm_token e = t" es e] by auto

lemma dispatch_due_ok:
  "timers_ok (get d) \<Longrightarrow> timers_ok (get (dispatch_due get put exec now due d))"
proof (induction due arbitrary: d)
  case (Cons t due)
  show ?case
  proof (cases "find (\<lambda>e. tm_token e = t) (tms_entries (get d))")
    case (Some e)
    with find_entry [OF Some] fire_ok [OF Cons.prems] Cons.IH show ?thesis by simp
  qed (use Cons in simp)
qed simp

lemma dispatch_due_idle:
  "timers_idle (get d) \<Longrightarrow> timers_idle (get (dispatch_due get put exec now due d))"
  by (induction due arbitrary: d) (auto intro: fire_idle split: option.split)

text \<open>Only pending tokens fire, each once, in the order of the list of due ones.\<close>

lemma fired_subseq: "subseq (fired get put exec now due d) due"
  by (induction due arbitrary: d) (auto split: option.split)

text \<open>
  A timer that was there before and is not in the list of due ones cannot appear, and one that
  fired and did not ask to come due again is gone.
\<close>

lemma fire_old:
  assumes "e' \<in> set (tms_entries (get (fire get put exec now e d)))"
    and "tm_token e' < tms_next_token (get d)" and "tm_token e' \<noteq> tm_token e"
  shows "e' \<in> set (tms_entries (get d))"
proof -
  obtain d1 callback again where u: "wheel_use (lift_out (tm_token e) (get d)) (get d1)"
    and g: "get (fire get put exec now e d) = put_back now e callback again (get d1)"
    by (rule fire_get [of e d now])
  from assms(1,3) g have "e' \<in> set (tms_entries (get d1))"
    by (auto simp: put_back_def Let_def split: option.splits if_splits)
  from wheel_use_old [OF u this] assms(2) lift_out_subset show ?thesis by auto
qed

lemma dispatch_due_old:
  assumes "e' \<in> set (tms_entries (get (dispatch_due get put exec now due d)))"
    and "tm_token e' < tms_next_token (get d)" and "tm_token e' \<notin> set due"
  shows "e' \<in> set (tms_entries (get d))"
  using assms
proof (induction due arbitrary: d)
  case (Cons t due)
  show ?case
  proof (cases "find (\<lambda>e. tm_token e = t) (tms_entries (get d))")
    case (Some e)
    note te = find_entry [OF Some]
    let ?d = "fire get put exec now e d"
    have "tm_token e' < tms_next_token (get ?d)"
      using Cons.prems(2) fire_next [of d now e] by simp
    with Cons.IH [of ?d] Cons.prems(1,3) Some have "e' \<in> set (tms_entries (get ?d))" by simp
    from fire_old [OF this Cons.prems(2)] te Cons.prems(3) show ?thesis by auto
  qed (use Cons in simp)
qed simp

end

text \<open>A client none of whose callbacks asks to come due again.\<close>

locale one_shot_client = timer_client get put exec
  for get :: "'d \<Rightarrow> 'c timers" and put :: "'c timers \<Rightarrow> 'd \<Rightarrow> 'd"
    and exec :: "'c \<Rightarrow> 'd \<Rightarrow> 'c \<times> 'd \<times> duration option" +
  assumes exec_once: "exec c d = (c', d', again) \<Longrightarrow> again = None"
begin

lemma fire_gone:
  assumes "timers_ok (get d)" "e \<in> set (tms_entries (get d))"
  shows "\<not> is_pending (tm_token e) (get (fire get put exec now e d))"
proof
  assume "is_pending (tm_token e) (get (fire get put exec now e d))"
  then obtain e' where e': "e' \<in> set (tms_entries (get (fire get put exec now e d)))"
    "tm_token e' = tm_token e" by (auto simp: is_pending_def)
  obtain d1 callback again where
    x: "exec (tm_callback e) (put (lift_out (tm_token e) (get d)) d) = (callback, d1, again)"
    and u: "wheel_use (lift_out (tm_token e) (get d)) (get d1)"
    and g: "get (fire get put exec now e d) = put_back now e callback again (get d1)"
    by (rule fire_get [of e d now])
  from e'(1) g exec_once [OF x] have "e' \<in> set (tms_entries (get d1))"
    by (simp add: put_back_def Let_def)
  from wheel_use_old [OF u this] e'(2) assms show False
    by (auto simp: lift_out_entries timers_ok_def)
qed

lemma dispatch_due_stays_gone:
  assumes "\<not> is_pending t (get d)" "t < tms_next_token (get d)"
  shows "\<not> is_pending t (get (dispatch_due get put exec now due d))"
  using assms
proof (induction due arbitrary: d)
  case (Cons t' due)
  show ?case
  proof (cases "find (\<lambda>e. tm_token e = t') (tms_entries (get d))")
    case (Some e)
    note te = find_entry [OF Some]
    let ?d = "fire get put exec now e d"
    have "t \<noteq> t'" using te Cons.prems(1) by (auto simp: is_pending_def)
    then have "\<not> is_pending t (get ?d)"
      using fire_old [of _ now e d] te Cons.prems by (auto simp: is_pending_def)
    with Cons.IH [of ?d] Cons.prems(2) fire_next [of d now e] Some show ?thesis by simp
  qed (use Cons in simp)
qed simp

lemma dispatch_due_gone:
  assumes "timers_ok (get d)" "t \<in> set due" "t < tms_next_token (get d)"
  shows "\<not> is_pending t (get (dispatch_due get put exec now due d))"
  using assms
proof (induction due arbitrary: d)
  case (Cons t' due)
  show ?case
  proof (cases "find (\<lambda>e. tm_token e = t') (tms_entries (get d))")
    case None
    then have "\<not> is_pending t' (get d)" by (auto simp: is_pending_def find_None_all)
    with None Cons dispatch_due_stays_gone [of t' d now due] show ?thesis
      by (cases "t = t'") auto
  next
    case (Some e)
    note te = find_entry [OF Some]
    let ?d = "fire get put exec now e d"
    have lt: "t < tms_next_token (get ?d)" using Cons.prems(3) fire_next [of d now e] by simp
    have "timers_ok (get ?d)" using fire_ok Cons.prems(1) te by blast
    moreover have "\<not> is_pending t' (get ?d)" using fire_gone [OF Cons.prems(1)] te by blast
    ultimately show ?thesis
      using Cons.IH [of ?d] Cons.prems(2) lt Some dispatch_due_stays_gone [of t' ?d now due]
      by (cases "t = t'") auto
  qed
qed simp

text \<open>
  After a dispatch at \<open>now\<close>, what is still due was armed during it: every timer that was due
  before has fired or been cancelled.
\<close>

lemma dispatch_clears_due:
  assumes "timers_ok (get d)" "e \<in> set (tms_entries (get (dispatch_from get put exec now d)))"
    and "tm_deadline e \<le> now"
  shows "tms_next_token (get d) \<le> tm_token e"
proof (rule ccontr)
  assume "\<not> tms_next_token (get d) \<le> tm_token e"
  then have lt: "tm_token e < tms_next_token (get d)" by simp
  have "tm_token e \<notin> set (due_tokens now (get d))"
  proof
    assume "tm_token e \<in> set (due_tokens now (get d))"
    from dispatch_due_gone [OF assms(1) this lt] assms(2) show False
      by (auto simp: dispatch_from_def is_pending_def)
  qed
  moreover from dispatch_due_old [OF assms(2) [unfolded dispatch_from_def] lt this]
  have "e \<in> set (tms_entries (get d))" .
  ultimately show False using assms(3) by (auto simp: due_tokens_set)
qed

end

end
