(* ===== verification/Lock_Screen.thy ===== *)
theory Lock_Screen
  imports Prelude
begin

text \<open>
  The curtain of the lock screen, \<open>src/src/ui/lock_screen.rs\<close>: what is on screen and which of its
  animations still owe frames. Modelled are the state and every operation on it whose result is
  not a floating-point value; opacities, offsets and drawing are not, so of the caps-lock
  warning and of the login dialog's fade only the clocks are kept.
\<close>

section \<open>State\<close>

definition HINT_IDLE :: duration where
  "HINT_IDLE = dur_secs 4"

definition HINT_FADE :: duration where
  "HINT_FADE = dur_millis 300"

definition FADE_TIME :: duration where
  "FADE_TIME = dur_secs 10"

definition SLIDE_TIME :: duration where
  "SLIDE_TIME = dur_millis 250"

definition CROSSFADE_TIME :: duration where
  "CROSSFADE_TIME = dur_millis 300"

definition DIALOG_FADE_TIME :: duration where
  "DIALOG_FADE_TIME = dur_millis 250"

definition CAPS_FADE :: duration where
  "CAPS_FADE = dur_millis 200"

definition WIGGLE_TIME :: duration where
  "WIGGLE_TIME = dur_millis (65 * ((3 + 1) + 2))"

datatype curtain = Hidden | Showing duration | Covering | Hiding duration

fun settled :: "curtain \<Rightarrow> curtain" where
  "settled (Showing t) = Covering"
| "settled (Hiding t) = Hidden"
| "settled c = c"

record lock_screen =
  lsc_idle_since :: "duration option"
  lsc_curtain :: curtain
  lsc_fade_since :: "duration option"
  lsc_page_since :: "(duration \<times> bool) option"
  lsc_showing_prompt :: bool
  lsc_caps_since :: "duration option"
  lsc_caps_warning :: bool
  lsc_wiggle :: "duration option"
  lsc_dialog_fade :: "duration option"
  lsc_dialog_hidden :: bool

definition new_lock_screen :: lock_screen where
  "new_lock_screen = \<lparr>lsc_idle_since = None, lsc_curtain = Hidden, lsc_fade_since = None,
     lsc_page_since = None, lsc_showing_prompt = False, lsc_caps_since = None,
     lsc_caps_warning = False, lsc_wiggle = None, lsc_dialog_fade = None, lsc_dialog_hidden = False\<rparr>"

section \<open>Operations\<close>

definition set_shown :: "bool \<Rightarrow> duration \<Rightarrow> lock_screen \<Rightarrow> lock_screen" where
  "set_shown shown now l =
     (let l1 = l\<lparr>lsc_idle_since := (if shown then Some now else None),
          lsc_curtain := (case (shown, lsc_curtain l) of
              (True, Showing t) \<Rightarrow> Showing t
            | (True, Covering) \<Rightarrow> Covering
            | (True, _) \<Rightarrow> Showing now
            | (False, Hidden) \<Rightarrow> Hidden
            | (False, Hiding t) \<Rightarrow> Hiding t
            | (False, _) \<Rightarrow> Hiding now)\<rparr>
      in if \<not> shown then l1\<lparr>lsc_fade_since := None\<rparr> else l1)"

definition settle_page :: "lock_screen \<Rightarrow> lock_screen" where
  "settle_page l = l\<lparr>lsc_page_since := None\<rparr>"

definition retire_curtain :: "lock_screen \<Rightarrow> lock_screen" where
  "retire_curtain l =
     (let l1 = l\<lparr>lsc_curtain := settled (lsc_curtain l)\<rparr> in
      if lsc_curtain l1 = Hidden then settle_page (l1\<lparr>lsc_showing_prompt := False\<rparr>) else l1)"

definition light_on :: "duration \<Rightarrow> lock_screen \<Rightarrow> lock_screen" where
  "light_on now l = (if lsc_fade_since l = None then l\<lparr>lsc_fade_since := Some now\<rparr> else l)"

definition light_off :: "lock_screen \<Rightarrow> lock_screen" where
  "light_off l = l\<lparr>lsc_fade_since := None\<rparr>"

definition running :: "duration \<Rightarrow> duration option \<Rightarrow> duration \<Rightarrow> bool" where
  "running len since now = (case since of None \<Rightarrow> False | Some t \<Rightarrow> now - t < len)"

definition is_fading :: "duration \<Rightarrow> lock_screen \<Rightarrow> bool" where
  "is_fading now l = running FADE_TIME (lsc_fade_since l) now"

definition is_covering :: "duration \<Rightarrow> lock_screen \<Rightarrow> bool" where
  "is_covering now l = (case lsc_curtain l of
       Hidden \<Rightarrow> False
     | Showing t \<Rightarrow> True
     | Covering \<Rightarrow> True
     | Hiding since \<Rightarrow> now - since < SLIDE_TIME)"

definition is_sliding :: "duration \<Rightarrow> lock_screen \<Rightarrow> bool" where
  "is_sliding now l = (case lsc_curtain l of
       Hidden \<Rightarrow> False
     | Covering \<Rightarrow> False
     | Showing since \<Rightarrow> now - since < SLIDE_TIME
     | Hiding since \<Rightarrow> now - since < SLIDE_TIME)"

definition set_page :: "bool \<Rightarrow> duration \<Rightarrow> lock_screen \<Rightarrow> lock_screen" where
  "set_page prompt now l =
     (if lsc_showing_prompt l = prompt then l
      else l\<lparr>lsc_showing_prompt := prompt, lsc_page_since := Some (now, prompt)\<rparr>)"

definition set_caps_warning :: "bool \<Rightarrow> duration \<Rightarrow> lock_screen \<Rightarrow> lock_screen \<times> bool" where
  "set_caps_warning warn now l =
     (if lsc_caps_warning l = warn then (l, False)
      else (l\<lparr>lsc_caps_warning := warn, lsc_caps_since := Some now\<rparr>, True))"

definition caps_is_animating :: "duration \<Rightarrow> lock_screen \<Rightarrow> bool" where
  "caps_is_animating now l = running CAPS_FADE (lsc_caps_since l) now"

definition start_wiggle :: "duration \<Rightarrow> lock_screen \<Rightarrow> lock_screen" where
  "start_wiggle now l = l\<lparr>lsc_wiggle := Some now\<rparr>"

definition wiggle_is_animating :: "duration \<Rightarrow> lock_screen \<Rightarrow> bool" where
  "wiggle_is_animating now l = running WIGGLE_TIME (lsc_wiggle l) now"

definition settle_wiggle :: "lock_screen \<Rightarrow> lock_screen" where
  "settle_wiggle l = l\<lparr>lsc_wiggle := None\<rparr>"

definition settle_caps :: "lock_screen \<Rightarrow> lock_screen" where
  "settle_caps l = l\<lparr>lsc_caps_since := None\<rparr>"

definition fade_dialog :: "bool \<Rightarrow> duration \<Rightarrow> lock_screen \<Rightarrow> lock_screen" where
  "fade_dialog shown now l =
     (if shown \<noteq> lsc_dialog_hidden l \<and> lsc_dialog_fade l = None then l
      else l\<lparr>lsc_dialog_hidden := \<not> shown, lsc_dialog_fade := Some now\<rparr>)"

definition dialog_is_animating :: "duration \<Rightarrow> lock_screen \<Rightarrow> bool" where
  "dialog_is_animating now l = running DIALOG_FADE_TIME (lsc_dialog_fade l) now"

definition page_is_animating :: "duration \<Rightarrow> lock_screen \<Rightarrow> bool" where
  "page_is_animating now l = running CROSSFADE_TIME (map_option fst (lsc_page_since l)) now"

definition settle_curtain :: "duration \<Rightarrow> lock_screen \<Rightarrow> lock_screen" where
  "settle_curtain now l = (if is_sliding now l then l else retire_curtain l)"

definition settle :: "lock_screen \<Rightarrow> lock_screen" where
  "settle l = settle_wiggle (settle_caps (settle_page (retire_curtain (l\<lparr>lsc_fade_since := None\<rparr>))))"

definition note_activity :: "duration \<Rightarrow> lock_screen \<Rightarrow> lock_screen" where
  "note_activity now l = (if lsc_idle_since l \<noteq> None then l\<lparr>lsc_idle_since := Some now\<rparr> else l)"

definition hint_is_animating :: "duration \<Rightarrow> lock_screen \<Rightarrow> bool" where
  "hint_is_animating now l = (case lsc_idle_since l of
       None \<Rightarrow> False
     | Some since \<Rightarrow> HINT_IDLE \<le> now - since \<and> now - since < HINT_IDLE + HINT_FADE)"

definition hint_wait :: "duration \<Rightarrow> lock_screen \<Rightarrow> duration option" where
  "hint_wait now l = (case lsc_idle_since l of
       None \<Rightarrow> None
     | Some since \<Rightarrow>
         if now - since < HINT_IDLE then Some (HINT_IDLE - (now - since)) else None)"

section \<open>The curtain\<close>

definition curtain_landed :: "duration \<Rightarrow> lock_screen \<Rightarrow> bool" where
  "curtain_landed now l \<longleftrightarrow> is_covering now l \<and> \<not> is_sliding now l"

lemmas curtain_defs = set_shown_def is_covering_def is_sliding_def curtain_landed_def
  settle_curtain_def retire_curtain_def settle_def settle_page_def settle_caps_def settle_wiggle_def

lemma SLIDE_TIME_pos [simp]: "0 < SLIDE_TIME"
  by (simp add: SLIDE_TIME_def dur_millis_def)

lemma landed_iff: "curtain_landed now l \<longleftrightarrow>
    (case lsc_curtain l of Covering \<Rightarrow> True | Showing t \<Rightarrow> now - t \<ge> SLIDE_TIME | _ \<Rightarrow> False)"
  by (auto simp: curtain_defs split: curtain.splits)

lemma shown_covers: "is_covering t (set_shown True now l)"
  by (simp add: curtain_defs Let_def split: curtain.split)

lemma shown_lands:
  "(case lsc_curtain l of Showing since \<Rightarrow> since \<le> now | _ \<Rightarrow> True) \<Longrightarrow> t \<ge> now + SLIDE_TIME
     \<Longrightarrow> curtain_landed t (set_shown True now l)"
  by (auto simp: landed_iff set_shown_def Let_def split: curtain.splits)

lemma hidden_leaves:
  "(case lsc_curtain l of Hiding since \<Rightarrow> since \<le> now | _ \<Rightarrow> True) \<Longrightarrow> t \<ge> now + SLIDE_TIME
     \<Longrightarrow> \<not> is_covering t (set_shown False now l)"
  by (auto simp: curtain_defs Let_def split: curtain.splits)

lemma hidden_not_landed [simp]: "\<not> curtain_landed t (set_shown False now l)"
  by (auto simp: landed_iff set_shown_def Let_def split: curtain.splits)

text \<open>Retiring a finished slide is invisible from then on: time only moves forward.\<close>

lemma settle_curtain_invisible:
  assumes "now \<le> t"
  shows "is_covering t (settle_curtain now l) \<longleftrightarrow> is_covering t l"
    and "is_sliding t (settle_curtain now l) \<longleftrightarrow> is_sliding t l"
  using assms by (auto simp: curtain_defs Let_def split: curtain.splits)

lemma settle_lands: "lsc_curtain l \<noteq> Hidden \<Longrightarrow> (\<forall>t. lsc_curtain l \<noteq> Hiding t) \<Longrightarrow> curtain_landed t (settle l)"
  by (cases "lsc_curtain l") (auto simp: curtain_defs Let_def)

lemma lock_screen_frames [simp]:
  "lsc_curtain (light_on t l) = lsc_curtain l" "lsc_curtain (light_off l) = lsc_curtain l"
  "lsc_curtain (set_page p t l) = lsc_curtain l" "lsc_curtain (fst (set_caps_warning w t l)) = lsc_curtain l"
  "lsc_curtain (start_wiggle t l) = lsc_curtain l" "lsc_curtain (fade_dialog b t l) = lsc_curtain l"
  "lsc_curtain (note_activity t l) = lsc_curtain l"
  by (simp_all add: light_on_def light_off_def set_page_def set_caps_warning_def start_wiggle_def
      fade_dialog_def note_activity_def)

lemma landed_frames [simp]:
  "curtain_landed now (light_on t l) = curtain_landed now l"
  "curtain_landed now (light_off l) = curtain_landed now l"
  "curtain_landed now (set_page p t l) = curtain_landed now l"
  "curtain_landed now (fst (set_caps_warning w t l)) = curtain_landed now l"
  "curtain_landed now (start_wiggle t l) = curtain_landed now l"
  "curtain_landed now (fade_dialog b t l) = curtain_landed now l"
  "curtain_landed now (note_activity t l) = curtain_landed now l"
  by (simp_all add: landed_iff)

end
