(* ===== verification/Login_Grid.thy ===== *)
theory Login_Grid
  imports Main
begin

text \<open>
  The greeter's user grid, \<open>src/src/ui/login_grid.rs\<close>: what the pointer and the keyboard are on and
  how the keys move the focus. The geometry (which tile a point hits) and the drawing are
  floating-point and are not modelled; a click is the operation on the hit it resolved to.
\<close>

section \<open>Data\<close>

definition MAX_COLUMNS :: nat where
  "MAX_COLUMNS = 4"

definition MAX_USERS :: nat where
  "MAX_USERS = 12"

datatype grid_hit = Tile nat | EnterNameHit | A11yHit

datatype grid_action = Pick nat | EnterName | A11y

datatype grid_key = GLeft | GRight | GUp | GDown | GNext | GPrev | GActivate

record login_grid =
  lg_hovered :: "grid_hit option"
  lg_focused :: "grid_hit option"

definition new_grid :: login_grid where
  "new_grid = \<lparr>lg_hovered = None, lg_focused = None\<rparr>"

definition shows_grid :: "nat \<Rightarrow> bool" where
  "shows_grid count \<longleftrightarrow> 1 \<le> count \<and> count \<le> MAX_USERS"

section \<open>Operations\<close>

definition set_hovered :: "grid_hit option \<Rightarrow> login_grid \<Rightarrow> login_grid \<times> bool" where
  "set_hovered h g = (g\<lparr>lg_hovered := h\<rparr>, lg_hovered g \<noteq> h)"

definition grid_reset :: "nat \<Rightarrow> login_grid \<Rightarrow> login_grid" where
  "grid_reset count g = g\<lparr>lg_hovered := None,
     lg_focused := (if shows_grid count then Some (Tile 0) else None)\<rparr>"

definition grid_clamp :: "nat \<Rightarrow> login_grid \<Rightarrow> login_grid" where
  "grid_clamp count g =
     (let g1 = (case lg_focused g of
            Some (Tile i) \<Rightarrow>
              if \<not> shows_grid count \<or> i \<ge> count
              then g\<lparr>lg_focused := (if shows_grid count then Some (Tile (count - 1)) else None)\<rparr>
              else g
          | _ \<Rightarrow> g)
      in case lg_hovered g1 of
           Some (Tile i) \<Rightarrow> if i \<ge> count then g1\<lparr>lg_hovered := None\<rparr> else g1
         | _ \<Rightarrow> g1)"

text \<open>The focus chain of Tab: the tiles, the pill, the accessibility button.\<close>

fun hit_index :: "nat \<Rightarrow> grid_hit \<Rightarrow> nat" where
  "hit_index count (Tile i) = i"
| "hit_index count EnterNameHit = count"
| "hit_index count A11yHit = count + 1"

definition from_index :: "nat \<Rightarrow> nat \<Rightarrow> grid_hit" where
  "from_index count i = (if i < count then Tile i else if i = count then EnterNameHit else A11yHit)"

fun hit_action :: "grid_hit \<Rightarrow> grid_action" where
  "hit_action (Tile i) = Pick i"
| "hit_action EnterNameHit = EnterName"
| "hit_action A11yHit = A11y"

definition walk_row :: "bool \<Rightarrow> nat \<Rightarrow> grid_hit option \<Rightarrow> grid_hit option" where
  "walk_row left count f = (case f of
       Some (Tile i) \<Rightarrow>
         (let row_start = i div MAX_COLUMNS * MAX_COLUMNS;
              row_end = min (row_start + MAX_COLUMNS) count
          in if left then (if i \<ge> 1 \<and> i - 1 \<ge> row_start then Some (Tile (i - 1)) else f)
             else (if i + 1 < row_end then Some (Tile (i + 1)) else f))
     | None \<Rightarrow> Some (Tile 0)
     | Some EnterNameHit \<Rightarrow> if left then f else Some A11yHit
     | Some A11yHit \<Rightarrow> if left then Some EnterNameHit else f)"

definition walk_up :: "nat \<Rightarrow> grid_hit option \<Rightarrow> grid_hit option" where
  "walk_up count f = (case f of
       Some (Tile i) \<Rightarrow> if i \<ge> MAX_COLUMNS then Some (Tile (i - MAX_COLUMNS)) else f
     | Some EnterNameHit \<Rightarrow> Some (Tile (count - 1))
     | Some A11yHit \<Rightarrow> Some (Tile (count - 1))
     | None \<Rightarrow> Some (Tile 0))"

definition walk_down :: "nat \<Rightarrow> grid_hit option \<Rightarrow> grid_hit option" where
  "walk_down count f = (case f of
       Some (Tile i) \<Rightarrow>
         Some (if i + MAX_COLUMNS < count then Tile (i + MAX_COLUMNS)
               else if i div MAX_COLUMNS < (count - 1) div MAX_COLUMNS then Tile (count - 1)
               else EnterNameHit)
     | None \<Rightarrow> Some (Tile 0)
     | _ \<Rightarrow> f)"

definition walk_tab :: "bool \<Rightarrow> nat \<Rightarrow> grid_hit option \<Rightarrow> grid_hit option" where
  "walk_tab next count f =
     (let stops = count + 2 in
      Some (from_index count (case f of
         None \<Rightarrow> if next then 0 else stops - 1
       | Some h \<Rightarrow> (if next then hit_index count h + 1 else hit_index count h + stops - 1) mod stops)))"

definition grid_key_walk :: "grid_key \<Rightarrow> nat \<Rightarrow> grid_hit option \<Rightarrow> grid_hit option" where
  "grid_key_walk key count f = (case key of
       GActivate \<Rightarrow> f
     | GNext \<Rightarrow> walk_tab True count f
     | GPrev \<Rightarrow> walk_tab False count f
     | GLeft \<Rightarrow> walk_row True count f
     | GRight \<Rightarrow> walk_row False count f
     | GUp \<Rightarrow> walk_up count f
     | GDown \<Rightarrow> walk_down count f)"

definition grid_key_press ::
  "grid_key \<Rightarrow> nat \<Rightarrow> login_grid \<Rightarrow> login_grid \<times> grid_action option \<times> bool" where
  "grid_key_press key count g =
     (if \<not> shows_grid count then (g, None, False)
      else if key = GActivate then (g, map_option hit_action (lg_focused g), False)
      else (let f = grid_key_walk key (min count MAX_USERS) (lg_focused g)
            in (g\<lparr>lg_focused := f\<rparr>, None, f \<noteq> lg_focused g)))"

definition grid_click :: "grid_hit option \<Rightarrow> login_grid \<Rightarrow> login_grid \<times> grid_action option" where
  "grid_click h g = (case h of
       None \<Rightarrow> (g, None)
     | Some x \<Rightarrow> (g\<lparr>lg_focused := Some x\<rparr>, Some (hit_action x)))"

section \<open>The focus stays on something that is there\<close>

fun hit_ok :: "nat \<Rightarrow> grid_hit \<Rightarrow> bool" where
  "hit_ok count (Tile i) \<longleftrightarrow> i < count"
| "hit_ok count _ \<longleftrightarrow> True"

definition focus_ok :: "nat \<Rightarrow> grid_hit option \<Rightarrow> bool" where
  "focus_ok count f \<longleftrightarrow> (\<forall>h. f = Some h \<longrightarrow> hit_ok count h)"

definition grid_ok :: "nat \<Rightarrow> login_grid \<Rightarrow> bool" where
  "grid_ok count g \<longleftrightarrow> focus_ok count (lg_focused g)"

lemma focus_ok_simps [simp]: "focus_ok count None" "focus_ok count (Some h) \<longleftrightarrow> hit_ok count h"
  by (simp_all add: focus_ok_def)

lemma from_index_ok [simp]: "hit_ok count (from_index count i)"
  by (simp add: from_index_def)

lemma walk_row_ok: "1 \<le> count \<Longrightarrow> focus_ok count f \<Longrightarrow> focus_ok count (walk_row left count f)"
  by (auto simp: walk_row_def Let_def split: option.split grid_hit.split)

lemma walk_up_ok: "1 \<le> count \<Longrightarrow> focus_ok count f \<Longrightarrow> focus_ok count (walk_up count f)"
  by (auto simp: walk_up_def split: option.split grid_hit.split)

lemma walk_down_ok: "1 \<le> count \<Longrightarrow> focus_ok count f \<Longrightarrow> focus_ok count (walk_down count f)"
  by (auto simp: walk_down_def split: option.split grid_hit.split)

lemma walk_tab_ok: "focus_ok count (walk_tab next count f)"
  by (simp add: walk_tab_def Let_def)

lemma grid_walk_ok:
  "1 \<le> count \<Longrightarrow> focus_ok count f \<Longrightarrow> focus_ok count (grid_key_walk key count f)"
  by (cases key) (simp_all add: grid_key_walk_def walk_row_ok walk_up_ok walk_down_ok walk_tab_ok)

lemma grid_key_ok: "grid_ok count g \<Longrightarrow> grid_ok count (fst (grid_key_press key count g))"
  using grid_walk_ok [of count "lg_focused g" key]
  by (auto simp: grid_key_press_def grid_ok_def shows_grid_def Let_def min_absorb1)

lemma grid_reset_ok [simp]: "grid_ok count (grid_reset count g)"
  by (simp add: grid_ok_def grid_reset_def shows_grid_def)

lemma grid_clamp_ok: "grid_ok count (grid_clamp count g)"
  by (auto simp: grid_clamp_def grid_ok_def shows_grid_def Let_def focus_ok_def
      split: option.splits grid_hit.splits)

lemma grid_click_ok: "focus_ok count h \<Longrightarrow> grid_ok count g \<Longrightarrow> grid_ok count (fst (grid_click h g))"
  by (auto simp: grid_click_def grid_ok_def split: option.split)

lemma grid_pick_in_range:
  assumes "grid_ok count g" "grid_key_press key count g = (g', Some (Pick i), moved)"
  shows "i < count"
proof -
  from assms(2) have "map_option hit_action (lg_focused g) = Some (Pick i)"
    by (auto simp: grid_key_press_def Let_def split: if_splits)
  then obtain h where "lg_focused g = Some h" "hit_action h = Pick i" by auto
  then have "lg_focused g = Some (Tile i)" by (cases h) auto
  with assms(1) show ?thesis by (simp add: grid_ok_def)
qed

section \<open>Tab walks a cycle\<close>

lemma hit_index_from_index [simp]: "i < count + 2 \<Longrightarrow> hit_index count (from_index count i) = i"
  by (auto simp: from_index_def)

lemma from_index_hit_index [simp]: "hit_ok count h \<Longrightarrow> from_index count (hit_index count h) = h"
  by (cases h) (auto simp: from_index_def)

lemma hit_index_bound: "hit_ok count h \<Longrightarrow> hit_index count h < count + 2"
  by (cases h) auto

fun tabs :: "nat \<Rightarrow> nat \<Rightarrow> grid_hit option \<Rightarrow> grid_hit option" where
  "tabs 0 count f = f"
| "tabs (Suc n) count f = tabs n count (walk_tab True count f)"

lemma tabs_index:
  "i < count + 2 \<Longrightarrow> tabs n count (Some (from_index count i)) = Some (from_index count ((i + n) mod (count + 2)))"
  by (induction n arbitrary: i) (simp_all add: walk_tab_def mod_add_left_eq)

lemma cycle_back: "i < n \<Longrightarrow> ((i + 1) mod n + n - 1) mod n = (i :: nat)"
proof (cases "i + 1 = n")
  case False
  assume "i < n"
  with False have "(i + 1) mod n + n - 1 = i + n" by simp
  with \<open>i < n\<close> show ?thesis by simp
qed auto

lemma cycle_forth:
  assumes "i < n" "j < (n :: nat)"
  shows "(i + (j + n - i) mod n) mod n = j"
proof -
  have "(i + (j + n - i) mod n) mod n = (i + (j + n - i)) mod n" by (rule mod_add_right_eq)
  also have "i + (j + n - i) = j + n" using assms by simp
  finally show ?thesis using assms by simp
qed

lemma tab_back:
  assumes "hit_ok count h"
  shows "walk_tab False count (walk_tab True count (Some h)) = Some h"
  using assms cycle_back [OF hit_index_bound [OF assms]] by (simp add: walk_tab_def Let_def)

text \<open>Every stop of the page is within \<open>count + 1\<close> Tabs of every other.\<close>

lemma tab_reaches:
  assumes "hit_ok count h" "hit_ok count h'"
  shows "\<exists>n < count + 2. tabs n count (Some h) = Some h'"
proof -
  let ?n = "count + 2" and ?i = "hit_index count h" and ?j = "hit_index count h'"
  note b = hit_index_bound [OF assms(1)] hit_index_bound [OF assms(2)]
  let ?k = "(?j + ?n - ?i) mod ?n"
  have "(?i + ?k) mod ?n = ?j" by (rule cycle_forth [OF b])
  with tabs_index [OF b(1), of ?k] assms have "tabs ?k count (Some h) = Some h'"
    by (simp del: add_2_eq_Suc')
  moreover have "?k < ?n" by simp
  ultimately show ?thesis by blast
qed

end
