(* ===== verification/Session_Mode.thy ===== *)
theory Session_Mode
  imports Main
begin

text \<open>
  Session modes, \<open>src/src/session_mode.rs\<close>: what the shell may show in a user's session, on the
  lock screen and on the greeter.
\<close>

datatype panel_style = Normal | Transparent

record session_mode =
  mode_name :: string
  allow_settings :: bool
  has_notifications :: bool
  is_locked_mode :: bool
  is_greeter_mode :: bool
  panel_roles :: "string list"
  mode_panel_style :: panel_style

definition shows_panel_role :: "string \<Rightarrow> session_mode \<Rightarrow> bool" where
  "shows_panel_role role m \<longleftrightarrow> role \<in> set (panel_roles m)"

definition RESTRICTIVE :: session_mode where
  "RESTRICTIVE = \<lparr>mode_name = ''restrictive'', allow_settings = False, has_notifications = False,
     is_locked_mode = False, is_greeter_mode = False, panel_roles = [], mode_panel_style = Normal\<rparr>"

definition USER :: session_mode where
  "USER = RESTRICTIVE\<lparr>mode_name := ''user'', allow_settings := True, has_notifications := True,
     panel_roles := [''activities'', ''dateMenu'', ''appIndicators'', ''screenRecording'',
       ''dwellClick'', ''a11y'', ''keyboard'', ''quickSettings'']\<rparr>"

definition UNLOCK_DIALOG :: session_mode where
  "UNLOCK_DIALOG = RESTRICTIVE\<lparr>mode_name := ''unlock-dialog'', is_locked_mode := True,
     panel_roles := [''dwellClick'', ''a11y'', ''keyboard'', ''quickSettings''],
     mode_panel_style := Transparent\<rparr>"

definition GDM :: session_mode where
  "GDM = RESTRICTIVE\<lparr>mode_name := ''gdm'', has_notifications := True, is_greeter_mode := True,
     panel_roles := [''dateMenu'', ''dwellClick'', ''keyboard'', ''quickSettings''],
     mode_panel_style := Transparent\<rparr>"

definition current_mode :: "bool \<Rightarrow> bool \<Rightarrow> session_mode" where
  "current_mode greeter screen_covered =
     (if greeter then GDM else if screen_covered then UNLOCK_DIALOG else USER)"

lemmas mode_defs = RESTRICTIVE_def USER_def UNLOCK_DIALOG_def GDM_def

lemma current_mode_flags:
  "allow_settings (current_mode g c) \<longleftrightarrow> \<not> g \<and> \<not> c"
  "is_locked_mode (current_mode g c) \<longleftrightarrow> \<not> g \<and> c"
  "is_greeter_mode (current_mode g c) \<longleftrightarrow> g"
  "has_notifications (current_mode g c) \<longleftrightarrow> g \<or> \<not> c"
  by (simp_all add: current_mode_def mode_defs)

lemma covered_hides:
  assumes "c" "\<not> g"
  shows "\<not> shows_panel_role ''activities'' (current_mode g c)"
    and "\<not> shows_panel_role ''dateMenu'' (current_mode g c)"
    and "\<not> shows_panel_role ''appIndicators'' (current_mode g c)"
    and "\<not> shows_panel_role ''screenRecording'' (current_mode g c)"
  using assms by (simp_all add: current_mode_def mode_defs shows_panel_role_def)

end
