(* ===== verification/Lock_Session.thy ===== *)
theory Lock_Session
  imports Screen_Shield Unlock_Dialog Timers Lock_Screen Login_Grid Session_Mode
begin

text \<open>
  The compositor around the lock, \<open>src/src/synoik.rs\<close>: the state of the shield, the dialog, the
  curtain, the greeter's pages and the timers, and the handlers that drive them from keys,
  clicks, gdm, logind, the session bus and the clock. A handler is a function on the record
  below; one that edits the password entry is \<open>option\<close>-valued (\<open>None\<close> is a panic).

  Redraw requests, logging, images, the idle monitor and the panel's own drawing are left out.
  What lies outside the program is state that a step may set or a log it appends to: the gdm
  channel, the keyboard's caps lock, the outputs, the outcome of taking logind's inhibitor, and
  the requests, signals and session switches sent.
\<close>

section \<open>State\<close>

datatype login_page = Grid | NamePage | PromptPage ustr bool

fun is_asking_a_user :: "login_page \<Rightarrow> bool" where
  "is_asking_a_user (PromptPage user listed) = True"
| "is_asking_a_user _ = False"

definition LOGIN_TILE_DWELL :: duration where
  "LOGIN_TILE_DWELL = dur_secs 3"

definition AUTHENTICATOR_TIMEOUT :: duration where
  "AUTHENTICATOR_TIMEOUT = dur_secs 10"

definition SHIELD_PRESENT_DEADLINE :: duration where
  "SHIELD_PRESENT_DEADLINE = dur_secs 1"

definition LEAVING_FOR_LOGIN_DEADLINE :: duration where
  "LEAVING_FOR_LOGIN_DEADLINE = dur_secs 2"

datatype password_mode = Regular | SetAtLogin | NoPassword

definition password_mode_is_none :: "password_mode \<Rightarrow> bool" where
  "password_mode_is_none m \<longleftrightarrow> m = NoPassword"

text \<open>The picture's stamp is a modification time and a length; only equality is ever asked of it.\<close>

type_synonym account_icon = "ustr \<times> nat \<times> nat"

record user_account =
  ua_real_name :: ustr
  ua_icon_file :: "account_icon option"
  ua_password_mode :: password_mode

record login_user =
  lu_name :: ustr
  lu_real_name :: ustr
  lu_icon_file :: "account_icon option"
  lu_uid :: nat
  lu_logged_in :: bool
  lu_login_frequency :: nat

datatype lock_state = WlUnlocked | WaitingForSurfaces | Locking | WlLocked

text \<open>The sender's side of the channel to gdm's client: none, one whose receiver is gone, or live.\<close>

datatype gdm_channel = NoSender | ClosedSender | OpenSender

datatype screen_saver_signal = ActiveChanged bool | WakeUpScreen

text \<open>The callbacks the handlers below arm.\<close>

datatype session_timer =
    TFade
  | TLock
  | TMessage
  | TWatchdog nat
  | TRetry
  | TStartSession ustr
  | TExhausted nat
  | TDwell nat nat
  | TPresent
  | TLeaving

record lock_session =
  ls_now :: duration
  ls_monotonic :: duration
  ls_timers :: "session_timer timers"
  ls_shield :: screen_shield
  ls_dialog :: unlock_dialog
  ls_screen :: lock_screen
  ls_grid :: login_grid
  ls_greeter :: bool
  ls_nested :: bool
  ls_login_page :: login_page
  ls_login_users :: "login_user list"
  ls_login_users_loaded :: bool
  ls_login_dwell :: nat
  ls_greeter_visit :: nat
  ls_popover_open :: bool
  ls_gdm :: gdm_channel
  ls_sent :: "verifier_request list"
  ls_verifier_foreground :: "ustr option"
  ls_reader :: reader_type
  ls_settings :: shield_settings
  ls_allowed_failures :: nat
  ls_disable_user_list :: bool
  ls_key_theme :: key_theme
  ls_account :: user_account
  ls_multiple_users :: bool
  ls_can_switch_user :: bool
  ls_caps_lock :: bool
  ls_lock_state :: lock_state
  ls_lock_replies :: "nat list"
  ls_answered :: "nat list"
  ls_clipboard_mime_types :: "ustr list"
  ls_snapshot_activation :: "duration option"
  ls_published_active :: bool
  ls_screen_saver_emit :: bool
  ls_signals :: "screen_saver_signal list"
  ls_is_session_instance :: bool
  ls_session_path_known :: bool
  ls_locked_hint :: "bool option"
  ls_session_active :: bool
  ls_sleep_inhibitor :: bool
  ls_can_inhibit :: bool
  ls_outputs :: "nat list"
  ls_frames_owed :: "nat list"
  ls_present_deadline :: "token option"
  ls_switch_user_on_frame :: bool
  ls_accounts_conn :: bool
  ls_goto_login :: nat
  ls_leaving_for_login :: "token option"
  ls_blank_parked :: bool
  ls_monitors_off :: bool
  ls_fade_timer :: "token option"
  ls_lock_timer :: "token option"
  ls_message_timer :: "token option"
  ls_mode :: session_mode

section \<open>Timers and the channel to gdm\<close>

definition timer_at :: "duration \<Rightarrow> session_timer \<Rightarrow> lock_session \<Rightarrow> token \<times> lock_session" where
  "timer_at deadline k s =
     (let (tok, ts) = insert_at deadline k (ls_timers s) in (tok, s\<lparr>ls_timers := ts\<rparr>))"

definition timer_after :: "duration \<Rightarrow> session_timer \<Rightarrow> lock_session \<Rightarrow> token \<times> lock_session" where
  "timer_after after k s = timer_at (ls_now s + after) k s"

definition stop_timer :: "token option \<Rightarrow> lock_session \<Rightarrow> lock_session" where
  "stop_timer tok s = (case tok of None \<Rightarrow> s | Some t \<Rightarrow> s\<lparr>ls_timers := cancel_timer t (ls_timers s)\<rparr>)"

text \<open>\<open>send_blocking\<close> on the sender, if there is one; the flag says it was accepted.\<close>

definition send_gdm :: "verifier_request \<Rightarrow> lock_session \<Rightarrow> lock_session \<times> bool" where
  "send_gdm r s =
     (if ls_gdm s = OpenSender then (s\<lparr>ls_sent := ls_sent s @ [r]\<rparr>, True) else (s, False))"

section \<open>What covers the screen\<close>

definition wl_is_locked :: "lock_session \<Rightarrow> bool" where
  "wl_is_locked s \<longleftrightarrow> ls_lock_state s \<in> {Locking, WlLocked}"

definition screen_is_covered :: "lock_session \<Rightarrow> bool" where
  "screen_is_covered s \<longleftrightarrow> ls_greeter s \<or> sh_active (ls_shield s) \<or> wl_is_locked s"

definition shield_is_up :: "lock_session \<Rightarrow> bool" where
  "shield_is_up s \<longleftrightarrow> ls_greeter s \<or> sh_active (ls_shield s)"

definition session_mode_of :: "lock_session \<Rightarrow> session_mode" where
  "session_mode_of s = current_mode (ls_greeter s) (screen_is_covered s)"

definition sync_session_mode :: "lock_session \<Rightarrow> lock_session" where
  "sync_session_mode s =
     (if ls_mode s = session_mode_of s then s
      else s\<lparr>ls_mode := session_mode_of s, ls_popover_open := False\<rparr>)"

definition shield_curtain_landed :: "lock_session \<Rightarrow> bool" where
  "shield_curtain_landed s \<longleftrightarrow> is_covering (ls_now s) (ls_screen s) \<and> \<not> is_sliding (ls_now s) (ls_screen s)"

definition shield_frame_owed :: "lock_session \<Rightarrow> bool" where
  "shield_frame_owed s \<longleftrightarrow> (\<exists>out \<in> set (ls_frames_owed s). out \<in> set (ls_outputs s))"

definition curtain_frame_owed :: "lock_session \<Rightarrow> bool" where
  "curtain_frame_owed s \<longleftrightarrow>
     (sh_active (ls_shield s) \<and> \<not> shield_curtain_landed s) \<or> shield_frame_owed s"

section \<open>What the rest of the system is told\<close>

text \<open>Taking the inhibitor succeeds or not as \<open>ls_can_inhibit\<close> says (a connection, and logind's answer).\<close>

definition sync_sleep_inhibitor :: "lock_session \<Rightarrow> lock_session" where
  "sync_sleep_inhibitor s =
     (let want = wants_sleep_inhibitor (ls_session_active s) (curtain_frame_owed s) (ls_shield s) in
      if want = ls_sleep_inhibitor s then s
      else if \<not> want then s\<lparr>ls_sleep_inhibitor := False\<rparr>
      else s\<lparr>ls_sleep_inhibitor := ls_can_inhibit s\<rparr>)"

definition publish_shield_active :: "lock_session \<Rightarrow> lock_session" where
  "publish_shield_active s =
     (let active = sh_active (ls_shield s) \<and> shield_curtain_landed s in
      if active = ls_published_active s then s
      else (let s1 = s\<lparr>ls_published_active := active,
                  ls_signals := (if ls_screen_saver_emit s then ls_signals s @ [ActiveChanged active]
                                 else ls_signals s)\<rparr>
            in if active \<and> ls_sleep_inhibitor s1 then sync_sleep_inhibitor s1 else s1))"

definition settle_lock_replies :: "lock_session \<Rightarrow> lock_session" where
  "settle_lock_replies s =
     (if ls_lock_replies s = [] then s
      else if shield_curtain_landed s \<or> \<not> sh_active (ls_shield s)
      then s\<lparr>ls_answered := ls_answered s @ ls_lock_replies s, ls_lock_replies := []\<rparr>
      else s)"

definition update_locked_hint :: "lock_session \<Rightarrow> lock_session" where
  "update_locked_hint s =
     (if \<not> ls_is_session_instance s then s
      else if \<not> ls_session_path_known s then s
      else (let locked = (ls_lock_state s = WlLocked \<or> sh_locked (ls_shield s)) in
            if ls_greeter s then s
            else if ls_locked_hint s = Some locked then s
            else s\<lparr>ls_locked_hint := Some locked\<rparr>))"

definition hold_blank_until_switched :: "lock_session \<Rightarrow> lock_session" where
  "hold_blank_until_switched s =
     (let s1 = (stop_timer (ls_leaving_for_login s) s)\<lparr>ls_leaving_for_login := None\<rparr>;
          (tok, s2) = timer_after LEAVING_FOR_LOGIN_DEADLINE TLeaving s1
      in s2\<lparr>ls_leaving_for_login := Some tok\<rparr>)"

definition goto_login_session :: "lock_session \<Rightarrow> lock_session" where
  "goto_login_session s =
     (let s1 = hold_blank_until_switched s in
      if \<not> ls_accounts_conn s1 then s1 else s1\<lparr>ls_goto_login := ls_goto_login s1 + 1\<rparr>)"

definition session_paused :: "lock_session \<Rightarrow> lock_session" where
  "session_paused s =
     (stop_timer (ls_leaving_for_login s) s)\<lparr>ls_leaving_for_login := None, ls_blank_parked := False\<rparr>"

definition clear_shield_present_wait :: "lock_session \<Rightarrow> lock_session" where
  "clear_shield_present_wait s =
     (let s1 = s\<lparr>ls_frames_owed := []\<rparr>;
          s2 = (stop_timer (ls_present_deadline s1) s1)\<lparr>ls_present_deadline := None\<rparr>;
          s3 = sync_sleep_inhibitor s2
      in if ls_switch_user_on_frame s3
         then goto_login_session (s3\<lparr>ls_switch_user_on_frame := False\<rparr>) else s3)"

definition arm_shield_present_wait :: "lock_session \<Rightarrow> lock_session" where
  "arm_shield_present_wait s =
     (let s1 = s\<lparr>ls_frames_owed := ls_outputs s\<rparr> in
      if ls_frames_owed s1 = [] then s1
      else (let s2 = (stop_timer (ls_present_deadline s1) s1)\<lparr>ls_present_deadline := None\<rparr>;
                (tok, s3) = timer_after SHIELD_PRESENT_DEADLINE TPresent s2
            in s3\<lparr>ls_present_deadline := Some tok\<rparr>))"

definition note_shield_frame_presented :: "nat \<Rightarrow> lock_session \<Rightarrow> lock_session" where
  "note_shield_frame_presented out s =
     (if out \<notin> set (ls_frames_owed s) then s
      else (let s1 = s\<lparr>ls_frames_owed := removeAll out (ls_frames_owed s)\<rparr> in
            if ls_frames_owed s1 = [] then clear_shield_present_wait s1 else s1))"

section \<open>The view's page and the caps-lock warning\<close>

definition sync_caps_warning :: "lock_session \<Rightarrow> lock_session" where
  "sync_caps_warning s =
     (let warn = (ls_caps_lock s \<and> ud_page (ls_dialog s) = Prompt \<and> asked_for_secret (ls_dialog s))
      in s\<lparr>ls_screen := fst (set_caps_warning warn (ls_monotonic s) (ls_screen s))\<rparr>)"

definition sync_lock_page :: "lock_session \<Rightarrow> lock_session" where
  "sync_lock_page s =
     (if \<not> shield_is_up s then s
      else if ls_greeter s then s\<lparr>ls_screen := set_page True (ls_now s) (ls_screen s)\<rparr>
      else (let prompt = (ud_page (ls_dialog s) = Prompt \<and> \<not> is_dismissible (ls_shield s))
            in s\<lparr>ls_screen := set_page prompt (ls_now s) (ls_screen s)\<rparr>))"

definition sync_lock_page_and_caps :: "lock_session \<Rightarrow> lock_session" where
  "sync_lock_page_and_caps s = sync_caps_warning (sync_lock_page s)"

section \<open>Publishing the shield's effects\<close>

definition arm_fade_timer :: "lock_session \<Rightarrow> lock_session" where
  "arm_fade_timer s =
     (let s1 = (stop_timer (ls_fade_timer s) s)\<lparr>ls_fade_timer := None\<rparr>;
          (tok, s2) = timer_after FADE_TIME TFade s1
      in s2\<lparr>ls_fade_timer := Some tok\<rparr>)"

definition arm_lock_timer_after :: "duration \<Rightarrow> lock_session \<Rightarrow> lock_session" where
  "arm_lock_timer_after delay s =
     (let s1 = (stop_timer (ls_lock_timer s) s)\<lparr>ls_lock_timer := None\<rparr>;
          (tok, s2) = timer_after delay TLock s1
      in s2\<lparr>ls_lock_timer := Some tok\<rparr>)"

definition arm_authenticator_watchdog :: "nat \<Rightarrow> lock_session \<Rightarrow> lock_session" where
  "arm_authenticator_watchdog epoch s = snd (timer_after AUTHENTICATOR_TIMEOUT (TWatchdog epoch) s)"

text \<open>
  \<open>apply_shield_effects\<close> in the order of its statements: the curtain, the request for a
  verifier, and everything after it. The request is answered on the spot when nobody can be
  asked; the answer's own effects (which never carry a request) are published in the middle.
\<close>

definition effects_curtain :: "shield_effects \<Rightarrow> lock_session \<Rightarrow> lock_session" where
  "effects_curtain e s =
     (if active_changed e \<noteq> None
      then (let l = set_shown (shield_is_up s) (ls_now s) (ls_screen s)
            in s\<lparr>ls_screen := (if curtain_instant e then settle l else l)\<rparr>)
      else s)"

definition begin_request_for :: "nat \<Rightarrow> lock_session \<Rightarrow> begin_request" where
  "begin_request_for epoch s =
     \<lparr>br_username = ui_name (ud_user (ls_dialog s)), br_epoch = epoch, br_reader = ls_reader s,
      br_login = ls_greeter s, br_allowed_failures = ls_allowed_failures s,
      br_password_enabled = enable_password (ls_settings s)\<rparr>"

definition ask_verifier :: "nat \<Rightarrow> lock_session \<Rightarrow> lock_session \<times> bool" where
  "ask_verifier epoch s =
     (if ls_gdm s = NoSender then (s, False)
      else (let (s1, asked) = send_gdm (Begin (begin_request_for epoch s)) s
            in (s1\<lparr>ls_verifier_foreground :=
                   Some (foreground_service (enable_password (ls_settings s)) (ls_reader s))\<rparr>, asked)))"

definition effects_dialog :: "shield_effects \<Rightarrow> lock_session \<Rightarrow> lock_session" where
  "effects_dialog e s =
     (let s1 = (if cancel_authenticator e
                then (let s0 = fst (send_gdm CancelRequest s)
                      in s0\<lparr>ls_dialog := fst (show_clock (ls_dialog s0))\<rparr>)
                else s);
          s2 = (if clear_clipboard e then s1\<lparr>ls_clipboard_mime_types := []\<rparr> else s1);
          s3 = s2\<lparr>ls_snapshot_activation := sh_activation_time (ls_shield s2),
                 ls_signals := (if ls_screen_saver_emit s2 \<and> wake_up_screen e
                                then ls_signals s2 @ [WakeUpScreen] else ls_signals s2)\<rparr>;
          s4 = (if locked_changed e \<noteq> None then update_locked_hint s3 else s3)
      in if cancel_dialog e then s4\<lparr>ls_dialog := fst (cancel (ls_dialog s4))\<rparr> else s4)"

definition effects_timers :: "shield_effects \<Rightarrow> lock_session \<Rightarrow> lock_session" where
  "effects_timers e s =
     (let s1 = (if stop_fade e
                then (stop_timer (ls_fade_timer s) s)\<lparr>ls_screen := light_off (ls_screen s), ls_fade_timer := None\<rparr>
                else s);
          s2 = (if start_fade e
                then arm_fade_timer (s1\<lparr>ls_screen := light_on (ls_now s1) (ls_screen s1)\<rparr>) else s1);
          s3 = (if cancel_lock_timer e
                then (stop_timer (ls_lock_timer s2) s2)\<lparr>ls_lock_timer := None\<rparr> else s2);
          s4 = (case arm_lock_timer e of None \<Rightarrow> s3 | Some delay \<Rightarrow> arm_lock_timer_after delay s3)
      in case retry_authenticator_after e of
           None \<Rightarrow> s4
         | Some delay \<Rightarrow> snd (timer_after delay TRetry s4))"

definition effects_settle :: "lock_session \<Rightarrow> lock_session" where
  "effects_settle s =
     sync_sleep_inhibitor (sync_session_mode (publish_shield_active
       (settle_lock_replies (sync_lock_page_and_caps s))))"

definition effects_after_request :: "shield_effects \<Rightarrow> lock_session \<Rightarrow> lock_session" where
  "effects_after_request e s = effects_settle (effects_timers e (effects_dialog e s))"

definition apply_answered_effects :: "shield_effects \<Rightarrow> lock_session \<Rightarrow> lock_session" where
  "apply_answered_effects e s = effects_after_request e (effects_curtain e s)"

definition effects_request :: "shield_effects \<Rightarrow> lock_session \<Rightarrow> lock_session" where
  "effects_request e s =
     (case request_authenticator e of
        None \<Rightarrow> s
      | Some epoch \<Rightarrow>
          (let (s1, asked) = ask_verifier epoch s
           in if asked then arm_authenticator_watchdog epoch s1
              else (let (sh, e1) = authenticator_ready epoch False (ls_shield s1)
                    in apply_answered_effects e1 (s1\<lparr>ls_shield := sh\<rparr>))))"

definition apply_shield_effects :: "shield_effects \<Rightarrow> lock_session \<Rightarrow> lock_session" where
  "apply_shield_effects e s = effects_after_request e (effects_request e (effects_curtain e s))"

text \<open>A method of the shield and the publication of what it returned.\<close>

definition with_shield ::
  "(screen_shield \<Rightarrow> screen_shield \<times> shield_effects) \<Rightarrow> lock_session \<Rightarrow> lock_session" where
  "with_shield f s =
     (let (sh, e) = f (ls_shield s) in apply_shield_effects e (s\<lparr>ls_shield := sh\<rparr>))"

definition with_lock ::
  "(screen_shield \<Rightarrow> screen_shield \<times> (lock_refused + shield_effects)) \<Rightarrow> lock_session \<Rightarrow> lock_session" where
  "with_lock f s =
     (case f (ls_shield s) of
        (sh, Inl LockedDown) \<Rightarrow> s\<lparr>ls_shield := sh\<rparr>
      | (sh, Inr e) \<Rightarrow> apply_shield_effects e (s\<lparr>ls_shield := sh\<rparr>))"

section \<open>Publishing the dialog's effects\<close>

definition arm_unlock_message_timer :: "lock_session \<Rightarrow> lock_session" where
  "arm_unlock_message_timer s =
     (let s1 = (stop_timer (ls_message_timer s) s)\<lparr>ls_message_timer := None\<rparr> in
      case message_deadline (ls_dialog s1) of
        None \<Rightarrow> s1
      | Some deadline \<Rightarrow>
          (let (tok, s2) = timer_at deadline TMessage s1 in s2\<lparr>ls_message_timer := Some tok\<rparr>))"

text \<open>
  \<open>apply_unlock_effects\<close> after the greeter's name has been dealt with. \<open>greeter_ask_user\<close> calls
  it with the prompt's effects, which carry no name.
\<close>

definition unlock_effects_view :: "unlock_effects \<Rightarrow> lock_session \<Rightarrow> lock_session" where
  "unlock_effects_view e s =
     (let s1 = (case ue_request e of None \<Rightarrow> s | Some r \<Rightarrow> fst (send_gdm r s));
          s2 = (if ue_start_fingerprint e then fst (send_gdm StartFingerprint s1) else s1);
          s3 = arm_unlock_message_timer (sync_lock_page_and_caps s2);
          (d, wiggle) = take_wiggle (ls_dialog s3);
          s4 = s3\<lparr>ls_dialog := d\<rparr>
      in if wiggle then s4\<lparr>ls_screen := start_wiggle (ls_now s4) (ls_screen s4)\<rparr> else s4)"

definition apply_verified_effects :: "unlock_effects \<Rightarrow> lock_session \<Rightarrow> lock_session" where
  "apply_verified_effects e s =
     (let s1 = unlock_effects_view e s in
      if ue_unlock e \<and> ls_greeter s1 then s1
      else if ue_unlock e then with_shield deactivate s1
      else s1)"

definition greeter_ask_user :: "user_info \<Rightarrow> bool \<Rightarrow> lock_session \<Rightarrow> lock_session" where
  "greeter_ask_user user listed s =
     (let s1 = s\<lparr>ls_greeter_visit := ls_greeter_visit s + 1,
                ls_login_page := PromptPage (ui_name user) listed,
                ls_dialog := set_user user (ls_dialog s),
                ls_shield := drop_authenticator (ls_shield s)\<rparr>;
          s2 = with_shield retry_authenticator s1;
          (d, e) = show_prompt (ls_now s2) (ls_dialog s2)
      in apply_verified_effects (e\<lparr>ue_start_fingerprint := True\<rparr>) (s2\<lparr>ls_dialog := d\<rparr>))"

definition apply_unlock_effects :: "unlock_effects \<Rightarrow> lock_session \<Rightarrow> lock_session" where
  "apply_unlock_effects e s =
     (case ue_name_entered e of
        None \<Rightarrow> apply_verified_effects e s
      | Some name \<Rightarrow>
          apply_verified_effects (e\<lparr>ue_name_entered := None\<rparr>)
            (greeter_ask_user \<lparr>ui_name = name, ui_real_name = []\<rparr> False s))"

definition with_dialog ::
  "(unlock_dialog \<Rightarrow> unlock_dialog \<times> unlock_effects) \<Rightarrow> lock_session \<Rightarrow> lock_session" where
  "with_dialog f s =
     (let (d, e) = f (ls_dialog s) in apply_unlock_effects e (s\<lparr>ls_dialog := d\<rparr>))"

section \<open>The greeter's pages\<close>

definition greeter_user_list_disabled :: "lock_session \<Rightarrow> bool" where
  "greeter_user_list_disabled s \<longleftrightarrow> ls_disable_user_list s \<or>
     (ls_login_users_loaded s \<and> \<not> shows_grid (length (ls_login_users s)))"

definition greeter_show_start :: "lock_session \<Rightarrow> lock_session" where
  "greeter_show_start s =
     (if greeter_user_list_disabled s
      then with_dialog (ask_username (ls_now s)) (s\<lparr>ls_login_page := NamePage\<rparr>)
      else (with_dialog show_clock s)\<lparr>ls_login_page := Grid\<rparr>)"

definition greeter_back_to_start :: "bool \<Rightarrow> lock_session \<Rightarrow> lock_session" where
  "greeter_back_to_start cancel_it s =
     (let s1 = (if cancel_it then fst (send_gdm CancelRequest s) else s)
      in greeter_show_start (s1\<lparr>ls_shield := drop_authenticator (ls_shield s1),
           ls_greeter_visit := ls_greeter_visit s1 + 1\<rparr>))"

definition sync_greeter_user_list :: "lock_session \<Rightarrow> lock_session" where
  "sync_greeter_user_list s =
     (if \<not> ls_greeter s then s
      else (let on_list = (ls_login_page s = Grid);
                on_name = (ls_login_page s = NamePage);
                disabled = greeter_user_list_disabled s
            in if (on_list \<and> disabled) \<or> (on_name \<and> \<not> disabled) then greeter_show_start s else s))"

text \<open>The accessibility menu is shown or hidden by the popover; \<open>shown\<close> is what it is afterwards.\<close>

definition on_login_grid_action :: "grid_action \<Rightarrow> bool \<Rightarrow> lock_session \<Rightarrow> lock_session" where
  "on_login_grid_action action shown s = (case action of
       Pick i \<Rightarrow>
         (if i < length (ls_login_users s)
          then (let u = ls_login_users s ! i
                in greeter_ask_user \<lparr>ui_name = lu_name u, ui_real_name = lu_real_name u\<rparr> True s)
          else s)
     | A11y \<Rightarrow> s\<lparr>ls_popover_open := shown\<rparr>
     | EnterName \<Rightarrow> with_dialog (ask_username (ls_now s)) (s\<lparr>ls_login_page := NamePage\<rparr>))"

definition arm_login_tile_dwell :: "nat \<Rightarrow> lock_session \<Rightarrow> lock_session" where
  "arm_login_tile_dwell tile s = snd (timer_after LOGIN_TILE_DWELL (TDwell (ls_login_dwell s) tile) s)"

text \<open>Keysyms only the grid looks at.\<close>

abbreviation "K_Up \<equiv> K_Other 0xff52"
abbreviation "K_KP_Up \<equiv> K_Other 0xff97"
abbreviation "K_Down \<equiv> K_Other 0xff54"
abbreviation "K_KP_Down \<equiv> K_Other 0xff99"
abbreviation "K_Tab \<equiv> K_Other 0xff09"
abbreviation "K_ISO_Left_Tab \<equiv> K_Other 0xfe20"
abbreviation "K_space \<equiv> K_Other 0x20"

definition grid_key_of :: "keysym option \<Rightarrow> edit_mods \<Rightarrow> grid_key option" where
  "grid_key_of raw mods =
     (if raw \<in> {Some K_Left, Some K_KP_Left} then Some GLeft
      else if raw \<in> {Some K_Right, Some K_KP_Right} then Some GRight
      else if raw \<in> {Some K_Up, Some K_KP_Up} then Some GUp
      else if raw \<in> {Some K_Down, Some K_KP_Down} then Some GDown
      else if raw = Some K_Tab \<and> m_shift mods then Some GPrev
      else if raw = Some K_ISO_Left_Tab then Some GPrev
      else if raw = Some K_Tab then Some GNext
      else if raw \<in> {Some K_Return, Some K_KP_Enter, Some K_space} then Some GActivate
      else None)"

definition dwell_on_focus :: "bool \<Rightarrow> lock_session \<Rightarrow> lock_session" where
  "dwell_on_focus moved s =
     (if moved
      then (case lg_focused (ls_grid s) of Some (Tile i) \<Rightarrow> arm_login_tile_dwell i s | _ \<Rightarrow> s)
      else s)"

definition on_login_grid_key :: "keysym option \<Rightarrow> edit_mods \<Rightarrow> bool \<Rightarrow> lock_session \<Rightarrow> lock_session" where
  "on_login_grid_key raw mods shown s = (case grid_key_of raw mods of
       None \<Rightarrow> s
     | Some key \<Rightarrow>
         (let (g, action, moved) = grid_key_press key (length (ls_login_users s)) (ls_grid s);
              s1 = dwell_on_focus moved (s\<lparr>ls_login_dwell := ls_login_dwell s + 1, ls_grid := g\<rparr>)
          in case action of None \<Rightarrow> s1 | Some a \<Rightarrow> on_login_grid_action a shown s1))"

definition show_greeter_dialog :: "lock_session \<Rightarrow> lock_session" where
  "show_greeter_dialog s =
     (let s1 = s\<lparr>ls_grid := grid_reset (length (ls_login_users s)) (ls_grid s),
                ls_shield := show_dialog (ls_shield s),
                ls_screen := settle (set_page True (ls_now s) (set_shown True (ls_now s) (ls_screen s)))\<rparr>
      in greeter_show_start (sync_session_mode s1))"

section \<open>Input\<close>

definition shift_like :: "keysym option \<Rightarrow> bool" where
  "shift_like raw \<longleftrightarrow> raw \<in> {Some K_Shift_L, Some K_Shift_R, Some K_Shift_Lock, Some K_Caps_Lock}"

text \<open>The dialog's part of a key: the prompt, Escape, Return, and everything the entry may claim.\<close>

definition shield_key_dialog ::
  "segmentation \<Rightarrow> keysym option \<Rightarrow> uchar option \<Rightarrow> edit_mods \<Rightarrow> key_theme \<Rightarrow> duration
     \<Rightarrow> unlock_dialog \<Rightarrow> (unlock_dialog \<times> unlock_effects) option" where
  "shield_key_dialog u raw text mods theme now d =
     (let was_clock = (ud_page d = Clock) in
      if raw \<in> {Some K_Escape, Some K_Return, Some K_KP_Enter} \<and> was_clock then Some (show_prompt now d)
      else if raw = Some K_Escape then Some (cancel d)
      else if raw \<in> {Some K_Return, Some K_KP_Enter} then Some (submit now d)
      else do {
        (d1, r) \<leftarrow> entry_key u raw text mods theme now d;
        Some (case r of Some e \<Rightarrow> (d1, e) | None \<Rightarrow> show_prompt now d1) })"

definition shield_key_prompt ::
  "segmentation \<Rightarrow> keysym option \<Rightarrow> uchar option \<Rightarrow> edit_mods \<Rightarrow> lock_session \<Rightarrow> lock_session option" where
  "shield_key_prompt u raw text mods s = do {
     (d, e) \<leftarrow> shield_key_dialog u raw text mods (ls_key_theme s) (ls_now s) (ls_dialog s);
     let e1 = (if ud_page (ls_dialog s) = Clock \<and> ud_page d = Prompt
               then e\<lparr>ue_start_fingerprint := True, ue_redraw := True\<rparr> else e);
     Some (apply_unlock_effects e1 (s\<lparr>ls_dialog := d\<rparr>)) }"

definition on_shield_key ::
  "segmentation \<Rightarrow> keysym option \<Rightarrow> uchar option \<Rightarrow> edit_mods \<Rightarrow> bool \<Rightarrow> lock_session \<Rightarrow> lock_session option" where
  "on_shield_key u raw text mods shown s =
     (if \<not> shield_is_up s then Some s
      else if ls_greeter s \<and> ls_login_page s = Grid then Some (on_login_grid_key raw mods shown s)
      else if ls_greeter s \<and> raw = Some K_Escape
      then Some (greeter_back_to_start (is_asking_a_user (ls_login_page s)) s)
      else if is_dismissible (ls_shield s) then Some (with_shield deactivate s)
      else (let s1 = s\<lparr>ls_screen := note_activity (ls_now s) (ls_screen s)\<rparr>
            in if shift_like raw \<and> ud_page (ls_dialog s1) = Clock then Some s1
               else shield_key_prompt u raw text mods s1))"

definition switch_user_visible :: "lock_session \<Rightarrow> bool" where
  "switch_user_visible s \<longleftrightarrow>
     \<not> ls_greeter s \<and> ls_can_switch_user s \<and> ls_multiple_users s \<and>
     user_switch_enabled (sh_settings (ls_shield s)) \<and> \<not> disable_user_switching (sh_settings (ls_shield s))"

definition switch_user :: "lock_session \<Rightarrow> lock_session" where
  "switch_user s =
     (let s1 = with_dialog cancel s
      in goto_login_session (s1\<lparr>ls_screen := note_activity (ls_now s) (ls_screen s1)\<rparr>))"

definition activate_switch_user :: "lock_session \<Rightarrow> lock_session" where
  "activate_switch_user s =
     (let s1 = hold_blank_until_switched s;
          s2 = with_lock (lock_instant (ls_now s1) (password_mode_is_none (ua_password_mode (ls_account s1)))) s1;
          s3 = arm_shield_present_wait (s2\<lparr>ls_switch_user_on_frame := True\<rparr>)
      in if ls_frames_owed s3 = [] then clear_shield_present_wait s3 else s3)"

text \<open>
  A click, with the pointer's position resolved against the geometry: whether an output is under
  it, what of the page it is on, and whether the prompt page has any opacity at that moment.
\<close>

record click =
  ck_output :: bool
  ck_a11y :: bool
  ck_a11y_shown :: bool
  ck_grid :: "grid_hit option"
  ck_prompt_visible :: bool
  ck_switch_user :: bool
  ck_peek :: bool

definition on_shield_click :: "click \<Rightarrow> lock_session \<Rightarrow> lock_session" where
  "on_shield_click c s =
     (if \<not> shield_is_up s then s
      else (let s1 = s\<lparr>ls_login_dwell := ls_login_dwell s + 1\<rparr> in
        if ls_greeter s1 \<and> ck_output c \<and> ck_a11y c then s1\<lparr>ls_popover_open := ck_a11y_shown c\<rparr>
        else if ls_greeter s1 \<and> ls_login_page s1 = Grid then
          (if ck_output c
           then (let (g, action) = grid_click (ck_grid c) (ls_grid s1);
                     s2 = s1\<lparr>ls_grid := g\<rparr>
                 in case action of None \<Rightarrow> s2 | Some a \<Rightarrow> on_login_grid_action a (ck_a11y_shown c) s2)
           else s1)
        else if \<not> is_dismissible (ls_shield s1) then
          (let s2 = s1\<lparr>ls_screen := note_activity (ls_now s1) (ls_screen s1)\<rparr> in
           if switch_user_visible s2 \<and> ck_prompt_visible c \<and> ck_switch_user c then switch_user s2
           else if ud_page (ls_dialog s2) = Prompt \<and> peek (ls_dialog s2) \<noteq> None \<and> ck_peek c
           then with_dialog (toggle_peek (ls_now s2)) s2
           else with_dialog (show_prompt (ls_now s2)) s2)
        else with_shield deactivate s1))"

section \<open>The bus\<close>

datatype login1_msg = SessionLock bool | SessionActive bool | PrepareForSleep bool

definition on_login1_msg :: "login1_msg \<Rightarrow> lock_session \<Rightarrow> lock_session" where
  "on_login1_msg msg s = (case msg of
       SessionLock True \<Rightarrow> with_lock (lock_instant (ls_now s) False) s
     | SessionLock False \<Rightarrow> with_shield deactivate s
     | SessionActive active \<Rightarrow>
         (let s1 = sync_sleep_inhibitor (s\<lparr>ls_session_active := active\<rparr>) in
          if active \<and> ls_greeter s1
          then (let s2 = (if is_asking_a_user (ls_login_page s1) then greeter_back_to_start True s1 else s1)
                in s2\<lparr>ls_screen := fade_dialog True (ls_now s2) (ls_screen s2)\<rparr>)
          else s1)
     | PrepareForSleep about_to_suspend \<Rightarrow>
         (let s1 = (if about_to_suspend
                    then (if \<not> shield_curtain_landed s then arm_shield_present_wait s else s)
                    else clear_shield_present_wait s);
              s2 = with_shield (prepare_for_sleep about_to_suspend (ls_now s) False) s1
          in if about_to_suspend \<and> \<not> sh_active (ls_shield s2) then clear_shield_present_wait s2 else s2))"

text \<open>A caller of \<open>Lock\<close> may wait for the answer: its reply is a name here.\<close>

datatype screen_saver_msg = SaverLock "nat option" | SetActive bool

definition on_screen_saver_msg :: "screen_saver_msg \<Rightarrow> lock_session \<Rightarrow> lock_session" where
  "on_screen_saver_msg msg s = (case msg of
       SaverLock reply \<Rightarrow>
         (case lock (ls_now s) (password_mode_is_none (ua_password_mode (ls_account s))) (ls_shield s) of
            (sh, Inl LockedDown) \<Rightarrow> s\<lparr>ls_shield := sh\<rparr>
          | (sh, Inr e) \<Rightarrow>
              apply_shield_effects e (s\<lparr>ls_shield := sh,
                ls_lock_replies := ls_lock_replies s @ (case reply of None \<Rightarrow> [] | Some r \<Rightarrow> [r])\<rparr>))
     | SetActive True \<Rightarrow> with_shield (activate (ls_now s)) s
     | SetActive False \<Rightarrow> with_shield deactivate s)"

datatype presence_status = Available | Invisible | Busy | Idle | UnknownStatus nat

definition on_presence_msg :: "presence_status \<Rightarrow> lock_session \<Rightarrow> lock_session" where
  "on_presence_msg status s = (case status of
       Idle \<Rightarrow> with_shield (on_session_idle (ls_now s)) s
     | Available \<Rightarrow> with_shield on_user_active s
     | _ \<Rightarrow> s)"

datatype accounts_msg =
    UserChanged user_account
  | MultipleUsers bool
  | CanSwitch bool
  | Users "login_user list"

definition on_accounts_msg :: "accounts_msg \<Rightarrow> lock_session \<Rightarrow> lock_session" where
  "on_accounts_msg msg s = (case msg of
       UserChanged account \<Rightarrow>
         (if ls_account s = account then s
          else s\<lparr>ls_dialog := set_real_name (ua_real_name account) (ls_dialog s), ls_account := account\<rparr>)
     | MultipleUsers multiple \<Rightarrow> s\<lparr>ls_multiple_users := multiple\<rparr>
     | CanSwitch can \<Rightarrow> s\<lparr>ls_can_switch_user := can\<rparr>
     | Users users \<Rightarrow>
         (let first_load = (\<not> ls_login_users_loaded s);
              s1 = s\<lparr>ls_login_users_loaded := True\<rparr>
          in if ls_login_users s1 = users
             then (if first_load then sync_greeter_user_list s1 else s1)
             else (let first = (ls_login_users s1 = []);
                       s2 = s1\<lparr>ls_login_users := users,
                              ls_grid := (if first then grid_reset (length users) (ls_grid s1)
                                          else grid_clamp (length users) (ls_grid s1))\<rparr>
                   in sync_greeter_user_list s2)))"

section \<open>The verifier\<close>

definition verifier_gate :: "verifier_event \<Rightarrow> lock_session \<Rightarrow> lock_session" where
  "verifier_gate ev s = (case ev of
       Ready epoch \<Rightarrow> with_shield (authenticator_ready epoch True) s
     | Unavailable epoch reason \<Rightarrow> with_shield (authenticator_ready epoch False) s
     | Lost \<Rightarrow>
         (if ls_greeter s \<and> \<not> is_asking_a_user (ls_login_page s)
          then s\<lparr>ls_shield := drop_authenticator (ls_shield s)\<rparr>
          else with_shield authenticator_lost s)
     | SessionOpened service \<Rightarrow>
         (if ls_greeter s \<and> ls_nested s then fst (send_gdm (StartSession service) s)
          else if ls_greeter s
          then snd (timer_after DIALOG_FADE_TIME (TStartSession service)
                 (s\<lparr>ls_screen := fade_dialog False (ls_now s) (ls_screen s)\<rparr>))
          else s)
     | Exhausted \<Rightarrow>
         (if ls_greeter s \<and> is_asking_a_user (ls_login_page s)
          then (let read = (case messages_read_at (ls_dialog s) of None \<Rightarrow> ls_now s | Some t \<Rightarrow> t)
                in snd (timer_after (read - ls_now s) (TExhausted (ls_greeter_visit s)) s))
          else s)
     | _ \<Rightarrow> s)"

definition on_verifier_message :: "verifier_event \<Rightarrow> lock_session \<Rightarrow> lock_session" where
  "on_verifier_message ev s =
     (let s1 = verifier_gate ev s in with_dialog (on_verifier_event ev (ls_now s1)) s1)"

definition sync_verifier_foreground :: "lock_session \<Rightarrow> lock_session" where
  "sync_verifier_foreground s = (case ls_verifier_foreground s of
       None \<Rightarrow> s
     | Some began \<Rightarrow>
         (if foreground_service (enable_password (ls_settings s)) (ls_reader s) = began then s
          else (let s1 = s\<lparr>ls_verifier_foreground := None\<rparr> in
            if ls_greeter s1
            then (if is_asking_a_user (ls_login_page s1) then greeter_back_to_start True s1 else s1)
            else if \<not> sh_locked (ls_shield s1) then s1
            else (let s2 = fst (send_gdm CancelRequest s1);
                      s3 = with_shield retry_authenticator
                             (s2\<lparr>ls_shield := drop_authenticator (ls_shield s2)\<rparr>);
                      (d, e) = on_verifier_event Reset (ls_now s3) (ls_dialog s3)
                  in apply_unlock_effects (e\<lparr>ue_start_fingerprint := (ud_page d = Prompt)\<rparr>)
                       (s3\<lparr>ls_dialog := d\<rparr>)))))"

definition on_fingerprint_reader :: "reader_type \<Rightarrow> lock_session \<Rightarrow> lock_session" where
  "on_fingerprint_reader reader s =
     (if ls_reader s = reader then s else sync_verifier_foreground (s\<lparr>ls_reader := reader\<rparr>))"

text \<open>The part of a settings change that concerns the lock.\<close>

definition on_settings_changed ::
  "shield_settings \<Rightarrow> nat \<Rightarrow> bool \<Rightarrow> key_theme \<Rightarrow> lock_session \<Rightarrow> lock_session" where
  "on_settings_changed st allowed_failures disable_user_list theme s =
     (let s1 = s\<lparr>ls_settings := st, ls_allowed_failures := allowed_failures,
                ls_disable_user_list := disable_user_list, ls_key_theme := theme,
                ls_shield := shield_set_settings st (ls_shield s),
                ls_dialog := set_peek_locked_down (disable_show_password st) (ls_dialog s)\<rparr>
      in sync_sleep_inhibitor (sync_verifier_foreground (sync_greeter_user_list s1)))"

section \<open>Frames, ticks and timers\<close>

definition update_render :: "lock_session \<Rightarrow> lock_session" where
  "update_render s =
     publish_shield_active (settle_lock_replies (s\<lparr>ls_screen := settle_curtain (ls_now s) (ls_screen s)\<rparr>))"

definition minute_tick :: "lock_session \<Rightarrow> lock_session" where
  "minute_tick s =
     (if is_waiting_to_escape (ls_dialog s) then with_dialog (tick (ls_now s)) s else s)"

fun run_timer :: "session_timer \<Rightarrow> lock_session \<Rightarrow> lock_session" where
  "run_timer TFade s = with_shield (fade_complete (ls_now s)) (s\<lparr>ls_fade_timer := None\<rparr>)"
| "run_timer TLock s =
     (let s1 = s\<lparr>ls_lock_timer := None\<rparr> in
      if \<not> is_dismissible (ls_shield s1) then s1 else with_lock (lock (ls_now s1) False) s1)"
| "run_timer TMessage s = with_dialog (tick (ls_now s)) (s\<lparr>ls_message_timer := None\<rparr>)"
| "run_timer (TWatchdog epoch) s = with_shield (authenticator_ready epoch False) s"
| "run_timer TRetry s =
     (if ls_greeter s \<and> \<not> is_asking_a_user (ls_login_page s) then s
      else with_shield retry_authenticator s)"
| "run_timer (TStartSession service) s = fst (send_gdm (StartSession service) s)"
| "run_timer (TExhausted visit) s =
     (if ls_greeter_visit s = visit then greeter_back_to_start True s else s)"
| "run_timer (TDwell dwell tile) s =
     (if ls_login_dwell s = dwell \<and> ls_login_page s = Grid \<and>
         lg_focused (ls_grid s) = Some (Tile tile) \<and> \<not> ls_popover_open s
      then on_login_grid_action (Pick tile) False s else s)"
| "run_timer TPresent s = (if ls_frames_owed s \<noteq> [] then clear_shield_present_wait s else s)"
| "run_timer TLeaving s =
     (let s1 = s\<lparr>ls_leaving_for_login := None\<rparr> in
      if ls_blank_parked s1 then s1\<lparr>ls_blank_parked := False, ls_monitors_off := True\<rparr> else s1)"

definition exec_timer ::
  "session_timer \<Rightarrow> lock_session \<Rightarrow> session_timer \<times> lock_session \<times> duration option" where
  "exec_timer k s = (k, run_timer k s, None)"

abbreviation put_timers :: "session_timer timers \<Rightarrow> lock_session \<Rightarrow> lock_session" where
  "put_timers ts s \<equiv> s\<lparr>ls_timers := ts\<rparr>"

text \<open>The clock moves on and the loop's turn dispatches what has come due.\<close>

definition pass_time :: "duration \<Rightarrow> lock_session \<Rightarrow> lock_session" where
  "pass_time dt s =
     (let s1 = s\<lparr>ls_now := ls_now s + dt, ls_monotonic := ls_monotonic s + dt\<rparr>
      in dispatch_from ls_timers put_timers exec_timer (ls_now s1) s1)"

section \<open>A new session\<close>

definition new_session :: "user_info \<Rightarrow> bool \<Rightarrow> bool \<Rightarrow> lock_session" where
  "new_session user nested is_session_instance =
     \<lparr>ls_now = 0, ls_monotonic = 0, ls_timers = no_timers, ls_shield = new_shield default_shield_settings,
      ls_dialog = new_dialog user, ls_screen = new_lock_screen, ls_grid = new_grid, ls_greeter = False,
      ls_nested = nested, ls_login_page = Grid, ls_login_users = [], ls_login_users_loaded = False,
      ls_login_dwell = 0, ls_greeter_visit = 0, ls_popover_open = False, ls_gdm = NoSender, ls_sent = [],
      ls_verifier_foreground = None, ls_reader = NoReader, ls_settings = default_shield_settings,
      ls_allowed_failures = 3, ls_disable_user_list = False, ls_key_theme = DefaultTheme,
      ls_account = \<lparr>ua_real_name = [], ua_icon_file = None, ua_password_mode = Regular\<rparr>,
      ls_multiple_users = False, ls_can_switch_user = False, ls_caps_lock = False,
      ls_lock_state = WlUnlocked, ls_lock_replies = [], ls_answered = [], ls_clipboard_mime_types = [],
      ls_snapshot_activation = None, ls_published_active = False, ls_screen_saver_emit = False,
      ls_signals = [], ls_is_session_instance = is_session_instance, ls_session_path_known = False,
      ls_locked_hint = None, ls_session_active = True, ls_sleep_inhibitor = False,
      ls_can_inhibit = False, ls_outputs = [], ls_frames_owed = [], ls_present_deadline = None,
      ls_switch_user_on_frame = False, ls_accounts_conn = False, ls_goto_login = 0,
      ls_leaving_for_login = None, ls_blank_parked = False, ls_monitors_off = False,
      ls_fade_timer = None, ls_lock_timer = None, ls_message_timer = None, ls_mode = USER\<rparr>"

definition new_greeter :: "user_info \<Rightarrow> bool \<Rightarrow> bool \<Rightarrow> lock_session" where
  "new_greeter user nested is_session_instance =
     show_greeter_dialog ((new_session user nested is_session_instance)\<lparr>ls_greeter := True\<rparr>)"

section \<open>The session as a machine\<close>

text \<open>
  One constructor per handler, and one for each thing the rest of the system can do to the
  state: the channel to gdm, the outputs, the keyboard's caps lock, a composition of the input
  method, a parked blank, and what taking logind's inhibitor would give.
\<close>

datatype session_op =
    SKey "keysym option" "uchar option" edit_mods bool
  | SClick click
  | SLogin1 login1_msg
  | SSaver screen_saver_msg
  | SPresence presence_status
  | SAccounts accounts_msg
  | SVerifier verifier_event
  | SReader reader_type
  | SSettings shield_settings nat bool key_theme
  | SFrame
  | SPresented nat
  | SMinute
  | SPass duration
  | SSwitchUser
  | SPreedit "ustr option"
  | SPaused
  | SChannel gdm_channel
  | SOutputs "nat list"
  | SCaps bool
  | SPopover bool
  | SBus bool bool bool bool
  | SBlank

fun session_step :: "segmentation \<Rightarrow> session_op \<Rightarrow> lock_session \<Rightarrow> (lock_session \<times> unit) option" where
  "session_step u (SKey raw text mods shown) s =
     map_option (\<lambda>s. (s, ())) (on_shield_key u raw text mods shown s)"
| "session_step u (SClick c) s = Some (on_shield_click c s, ())"
| "session_step u (SLogin1 msg) s = Some (on_login1_msg msg s, ())"
| "session_step u (SSaver msg) s = Some (on_screen_saver_msg msg s, ())"
| "session_step u (SPresence st) s = Some (on_presence_msg st s, ())"
| "session_step u (SAccounts msg) s = Some (on_accounts_msg msg s, ())"
| "session_step u (SVerifier ev) s = Some (on_verifier_message ev s, ())"
| "session_step u (SReader r) s = Some (on_fingerprint_reader r s, ())"
| "session_step u (SSettings st af dul theme) s = Some (on_settings_changed st af dul theme s, ())"
| "session_step u SFrame s = Some (update_render s, ())"
| "session_step u (SPresented out) s = Some (note_shield_frame_presented out s, ())"
| "session_step u SMinute s = Some (minute_tick s, ())"
| "session_step u (SPass dt) s = Some (pass_time dt s, ())"
| "session_step u SSwitchUser s = Some (activate_switch_user s, ())"
| "session_step u (SPreedit p) s = Some (s\<lparr>ls_dialog := fst (dialog_set_preedit p (ls_dialog s))\<rparr>, ())"
| "session_step u SPaused s = Some (session_paused s, ())"
| "session_step u (SChannel c) s = Some (s\<lparr>ls_gdm := c\<rparr>, ())"
| "session_step u (SOutputs outs) s = Some (s\<lparr>ls_outputs := outs\<rparr>, ())"
| "session_step u (SCaps b) s = Some (s\<lparr>ls_caps_lock := b\<rparr>, ())"
| "session_step u (SPopover b) s = Some (s\<lparr>ls_popover_open := b\<rparr>, ())"
| "session_step u (SBus saver path accounts inhibit) s =
     Some (s\<lparr>ls_screen_saver_emit := saver, ls_session_path_known := path,
            ls_accounts_conn := accounts, ls_can_inhibit := inhibit\<rparr>, ())"
| "session_step u SBlank s =
     Some (if ls_leaving_for_login s \<noteq> None then s\<lparr>ls_blank_parked := True\<rparr> else s\<lparr>ls_monitors_off := True\<rparr>, ())"

section \<open>Frames\<close>

text \<open>The fields the invariant looks at, in three groups.\<close>

abbreviation same_core :: "lock_session \<Rightarrow> lock_session \<Rightarrow> bool" where
  "same_core s' s \<equiv> ls_shield s' = ls_shield s \<and> ls_dialog s' = ls_dialog s \<and>
     ls_greeter s' = ls_greeter s \<and> ls_now s' = ls_now s \<and> ls_lock_state s' = ls_lock_state s \<and>
     ls_grid s' = ls_grid s \<and> ls_login_users s' = ls_login_users s"

abbreviation same_wheel :: "lock_session \<Rightarrow> lock_session \<Rightarrow> bool" where
  "same_wheel s' s \<equiv> ls_timers s' = ls_timers s \<and> ls_fade_timer s' = ls_fade_timer s \<and>
     ls_lock_timer s' = ls_lock_timer s \<and> ls_message_timer s' = ls_message_timer s \<and>
     ls_present_deadline s' = ls_present_deadline s \<and> ls_leaving_for_login s' = ls_leaving_for_login s"

abbreviation same_view :: "lock_session \<Rightarrow> lock_session \<Rightarrow> bool" where
  "same_view s' s \<equiv> ls_mode s' = ls_mode s \<and> ls_lock_replies s' = ls_lock_replies s"

lemmas wheel_op_defs = timer_at_def timer_after_def stop_timer_def

lemma timer_at_frame [simp]: "same_core (snd (timer_at t k s)) s \<and> same_view (snd (timer_at t k s)) s"
  by (simp add: timer_at_def split_beta)

lemma timer_after_frame [simp]: "same_core (snd (timer_after t k s)) s \<and> same_view (snd (timer_after t k s)) s"
  by (simp add: timer_after_def)

lemma stop_timer_frame [simp]: "same_core (stop_timer t s) s \<and> same_view (stop_timer t s) s"
  by (simp add: stop_timer_def split: option.split)

lemma send_gdm_frame [simp]:
  "same_core (fst (send_gdm r s)) s \<and> same_wheel (fst (send_gdm r s)) s \<and> same_view (fst (send_gdm r s)) s"
  by (simp add: send_gdm_def)

lemma sync_sleep_inhibitor_frame [simp]:
  "same_core (sync_sleep_inhibitor s) s \<and> same_wheel (sync_sleep_inhibitor s) s \<and>
   same_view (sync_sleep_inhibitor s) s"
  by (simp add: sync_sleep_inhibitor_def Let_def)

lemma publish_frame [simp]:
  "same_core (publish_shield_active s) s \<and> same_wheel (publish_shield_active s) s \<and>
   same_view (publish_shield_active s) s"
  by (simp add: publish_shield_active_def Let_def)

lemma settle_lock_replies_frame [simp]:
  "same_core (settle_lock_replies s) s \<and> same_wheel (settle_lock_replies s) s \<and>
   ls_mode (settle_lock_replies s) = ls_mode s"
  by (simp add: settle_lock_replies_def)

lemma update_locked_hint_frame [simp]:
  "same_core (update_locked_hint s) s \<and> same_wheel (update_locked_hint s) s \<and>
   same_view (update_locked_hint s) s"
  by (simp add: update_locked_hint_def Let_def)

lemma sync_session_mode_frame [simp]:
  "same_core (sync_session_mode s) s \<and> same_wheel (sync_session_mode s) s \<and>
   ls_lock_replies (sync_session_mode s) = ls_lock_replies s"
  by (simp add: sync_session_mode_def)

lemma sync_page_frame [simp]:
  "same_core (sync_lock_page_and_caps s) s \<and> same_wheel (sync_lock_page_and_caps s) s \<and>
   same_view (sync_lock_page_and_caps s) s"
  by (simp add: sync_lock_page_and_caps_def sync_caps_warning_def sync_lock_page_def Let_def)

lemma effects_curtain_frame [simp]:
  "same_core (effects_curtain e s) s \<and> same_wheel (effects_curtain e s) s \<and>
   same_view (effects_curtain e s) s"
  by (simp add: effects_curtain_def Let_def)

lemma effects_settle_frame [simp]:
  "same_core (effects_settle s) s \<and> same_wheel (effects_settle s) s"
  by (simp add: effects_settle_def)

text \<open>The operations that touch the wheel.\<close>

lemma arm_frame [simp]:
  "same_core (arm_fade_timer s) s \<and> same_view (arm_fade_timer s) s"
  "same_core (arm_lock_timer_after dl s) s \<and> same_view (arm_lock_timer_after dl s) s"
  "same_core (arm_authenticator_watchdog ep s) s \<and> same_view (arm_authenticator_watchdog ep s) s"
  "same_core (hold_blank_until_switched s) s \<and> same_view (hold_blank_until_switched s) s"
  "same_core (arm_shield_present_wait s) s \<and> same_view (arm_shield_present_wait s) s"
  by (simp_all add: arm_fade_timer_def arm_lock_timer_after_def arm_authenticator_watchdog_def
      hold_blank_until_switched_def arm_shield_present_wait_def Let_def split_beta)

lemma goto_frame [simp]:
  "same_core (goto_login_session s) s \<and> same_view (goto_login_session s) s"
  "same_core (session_paused s) s \<and> same_view (session_paused s) s"
  by (simp_all add: goto_login_session_def session_paused_def Let_def)

lemma present_frame [simp]:
  "same_core (clear_shield_present_wait s) s \<and> same_view (clear_shield_present_wait s) s"
  by (simp add: clear_shield_present_wait_def Let_def)

lemma presented_frame [simp]:
  "same_core (note_shield_frame_presented out s) s \<and> same_view (note_shield_frame_presented out s) s"
  by (simp add: note_shield_frame_presented_def Let_def)

lemma arm_message_frame [simp]:
  "same_core (arm_unlock_message_timer s) s \<and> same_view (arm_unlock_message_timer s) s"
  by (simp add: arm_unlock_message_timer_def Let_def split_beta split: option.split)

lemma unlock_view_frame [simp]:
  "ls_shield (unlock_effects_view e s) = ls_shield s \<and> ls_greeter (unlock_effects_view e s) = ls_greeter s \<and>
   ls_now (unlock_effects_view e s) = ls_now s \<and> ls_lock_state (unlock_effects_view e s) = ls_lock_state s \<and>
   ls_grid (unlock_effects_view e s) = ls_grid s \<and> ls_login_users (unlock_effects_view e s) = ls_login_users s \<and>
   ls_dialog (unlock_effects_view e s) = fst (take_wiggle (ls_dialog s)) \<and>
   same_view (unlock_effects_view e s) s"
  by (simp add: unlock_effects_view_def Let_def split_beta split: option.split)

lemma effects_timers_frame [simp]:
  "same_core (effects_timers e s) s \<and> same_view (effects_timers e s) s"
  by (simp add: effects_timers_def Let_def split: option.split)

lemma effects_dialog_frame [simp]:
  "ls_shield (effects_dialog e s) = ls_shield s \<and> ls_greeter (effects_dialog e s) = ls_greeter s \<and>
   ls_now (effects_dialog e s) = ls_now s \<and> ls_lock_state (effects_dialog e s) = ls_lock_state s \<and>
   ls_grid (effects_dialog e s) = ls_grid s \<and> ls_login_users (effects_dialog e s) = ls_login_users s \<and>
   same_wheel (effects_dialog e s) s \<and> same_view (effects_dialog e s) s"
  by (simp add: effects_dialog_def Let_def)

lemma effects_dialog_ok: "dialog_ok (ls_dialog s) \<Longrightarrow> dialog_ok (ls_dialog (effects_dialog e s))"
  by (simp add: effects_dialog_def Let_def cancel_def dialog_ok_show_clock)

lemma ask_verifier_frame [simp]:
  "same_core (fst (ask_verifier ep s)) s \<and> same_wheel (fst (ask_verifier ep s)) s \<and>
   same_view (fst (ask_verifier ep s)) s"
  by (simp add: ask_verifier_def Let_def split_beta)

lemma effects_after_frame [simp]:
  "ls_shield (effects_after_request e s) = ls_shield s \<and> ls_greeter (effects_after_request e s) = ls_greeter s \<and>
   ls_now (effects_after_request e s) = ls_now s \<and> ls_lock_state (effects_after_request e s) = ls_lock_state s \<and>
   ls_grid (effects_after_request e s) = ls_grid s \<and> ls_login_users (effects_after_request e s) = ls_login_users s"
  by (simp add: effects_after_request_def)

lemma effects_after_ok: "dialog_ok (ls_dialog s) \<Longrightarrow> dialog_ok (ls_dialog (effects_after_request e s))"
  by (simp add: effects_after_request_def effects_dialog_ok)

lemma dwell_frame [simp]:
  "same_core (arm_login_tile_dwell i s) s \<and> same_view (arm_login_tile_dwell i s) s"
  "same_core (dwell_on_focus moved s) s \<and> same_view (dwell_on_focus moved s) s"
  by (simp_all add: arm_login_tile_dwell_def dwell_on_focus_def split: option.split grid_hit.split)

end
