(* ===== verification/Lock_Invariants.thy ===== *)
theory Lock_Invariants
  imports Lock_Session
begin

text \<open>
  The invariants of the lock session and the properties that rest on them. The shield inside the
  session moves only by its own operations (a simulation by the machine of \<open>Screen_Shield\<close>),
  the wheel is used only through its interface, the handles kept for cancelling name timers of
  their own kind, and every request for a verifier that is still open has a watchdog.
\<close>

section \<open>The shield is driven by its operations\<close>

definition moves :: "(shield_op \<Rightarrow> bool) \<Rightarrow> lock_session \<Rightarrow> lock_session \<Rightarrow> bool" where
  "moves P s s' \<longleftrightarrow> (\<exists>xs. (\<forall>x \<in> set xs. P x) \<and> ls_shield s' = run shield_step xs (ls_shield s))"

lemma moves_refl: "ls_shield s' = ls_shield s \<Longrightarrow> moves P s s'"
  unfolding moves_def by (rule exI [of _ "[]"]) simp

lemma moves_step: "P x \<Longrightarrow> ls_shield s' = shield_step x (ls_shield s) \<Longrightarrow> moves P s s'"
  unfolding moves_def by (rule exI [of _ "[x]"]) simp

lemma moves_trans: "moves P s1 s2 \<Longrightarrow> moves P s2 s3 \<Longrightarrow> moves P s1 s3"
proof -
  assume "moves P s1 s2" "moves P s2 s3"
  then obtain xs ys where "\<forall>x \<in> set xs. P x" "ls_shield s2 = run shield_step xs (ls_shield s1)"
    "\<forall>x \<in> set ys. P x" "ls_shield s3 = run shield_step ys (ls_shield s2)"
    unfolding moves_def by blast
  then show ?thesis unfolding moves_def by (intro exI [of _ "xs @ ys"]) auto
qed

lemma moves_mono: "moves P s s' \<Longrightarrow> (\<And>x. P x \<Longrightarrow> Q x) \<Longrightarrow> moves Q s s'"
  unfolding moves_def by blast

lemma moves_ok: "moves P s s' \<Longrightarrow> shield_ok (ls_shield s) \<Longrightarrow> shield_ok (ls_shield s')"
  unfolding moves_def using shield.run_inv by auto

definition quiet :: "shield_op \<Rightarrow> bool" where
  "quiet x \<longleftrightarrow> x \<noteq> OpDeactivate"

lemma quiet_run_locked:
  "(\<forall>x \<in> set xs. quiet x) \<Longrightarrow> sh_locked sh \<Longrightarrow> sh_locked (run shield_step xs sh)"
proof (induction xs arbitrary: sh)
  case (Cons x xs)
  then have "sh_locked (shield_step x sh)" using shield_step_unlocks [of sh x] by (auto simp: quiet_def)
  with Cons show ?case by simp
qed simp

lemma quiet_locked: "moves quiet s s' \<Longrightarrow> sh_locked (ls_shield s) \<Longrightarrow> sh_locked (ls_shield s')"
  unfolding moves_def using quiet_run_locked by auto

lemma run_greeter: "sh_greeter sh \<Longrightarrow> sh_greeter (run shield_step xs sh)"
  by (induction xs arbitrary: sh) (auto intro: shield_step_greeter)

lemma quiet_simps [simp]:
  "quiet (OpReady ep r)" "quiet OpRetry" "quiet OpDrop" "quiet OpLost" "quiet (OpSettings st)"
  "quiet (OpLock t pm)" "quiet (OpLockInstant t pm)" "quiet (OpActivate t)" "quiet (OpIdle t)"
  "quiet (OpFadeComplete t)" "quiet OpUserActive" "quiet (OpSleep b t pm)" "quiet OpWake"
  "quiet OpShowDialog" "\<not> quiet OpDeactivate"
  by (simp_all add: quiet_def)

lemma apply_answered_shield [simp]: "ls_shield (apply_answered_effects e s) = ls_shield s"
  by (simp add: apply_answered_effects_def)

lemma effects_request_moves: "moves quiet s (effects_request e s)"
proof (cases "request_authenticator e")
  case (Some ep)
  obtain s1 asked where a: "ask_verifier ep s = (s1, asked)" by (cases "ask_verifier ep s")
  then have sh: "ls_shield s1 = ls_shield s" using ask_verifier_frame [of ep s] by simp
  show ?thesis
  proof (cases asked)
    case True
    with Some a sh show ?thesis by (simp add: effects_request_def moves_refl)
  next
    case False
    with Some a sh show ?thesis
      by (intro moves_step [of quiet "OpReady ep False"])
         (simp_all add: effects_request_def split_beta)
  qed
qed (simp add: effects_request_def moves_refl)

lemma apply_shield_moves: "moves quiet s (apply_shield_effects e s)"
  using effects_request_moves [of "effects_curtain e s" e]
  by (simp add: apply_shield_effects_def moves_def)

lemma with_shield_moves:
  assumes "\<And>sh. fst (f sh) = shield_step x sh" "P x" "\<And>x. quiet x \<Longrightarrow> P x"
  shows "moves P s (with_shield f s)"
proof -
  obtain sh e where f: "f (ls_shield s) = (sh, e)" by (cases "f (ls_shield s)")
  with assms(1) [of "ls_shield s"] have "moves P s (s\<lparr>ls_shield := sh\<rparr>)"
    using assms(2) by (intro moves_step [of P x]) simp_all
  moreover have "moves P (s\<lparr>ls_shield := sh\<rparr>) (apply_shield_effects e (s\<lparr>ls_shield := sh\<rparr>))"
    using apply_shield_moves assms(3) by (rule moves_mono)
  ultimately show ?thesis using f by (simp add: with_shield_def moves_trans)
qed

lemma with_lock_moves:
  assumes "\<And>sh. fst (f sh) = shield_step x sh" "quiet x"
  shows "moves quiet s (with_lock f s)"
proof -
  obtain sh r where f: "f (ls_shield s) = (sh, r)" by (cases "f (ls_shield s)")
  with assms(1) [of "ls_shield s"] have 1: "moves quiet s (s\<lparr>ls_shield := sh\<rparr>)"
    using assms(2) by (intro moves_step [of quiet x]) simp_all
  show ?thesis
  proof (cases r)
    case (Inl x)
    with f 1 show ?thesis by (cases x) (simp add: with_lock_def)
  next
    case (Inr e)
    from moves_trans [OF 1 apply_shield_moves [of _ e]] f Inr show ?thesis by (simp add: with_lock_def)
  qed
qed

lemmas with_shield_quiet = with_shield_moves [where P = quiet]

lemma with_shield_any: "(\<And>sh. fst (f sh) = shield_step x sh) \<Longrightarrow> moves (\<lambda>_. True) s (with_shield f s)"
  by (rule with_shield_moves [of f x]) simp_all

lemma with_shield_greeter [simp]: "ls_greeter (with_shield f s) = ls_greeter s"
  by (simp add: with_shield_def apply_shield_effects_def effects_request_def apply_answered_effects_def
      Let_def split_beta split: option.split)

text \<open>An unlocking effect of the dialog is the one that raises the shield, and not on the greeter.\<close>

definition covers :: "(shield_op \<Rightarrow> bool) \<Rightarrow> unlock_effects \<Rightarrow> bool" where
  "covers P e \<longleftrightarrow> (\<forall>x. quiet x \<longrightarrow> P x) \<and> (ue_unlock e \<longrightarrow> P OpDeactivate)"

lemma covers_quiet: "\<not> ue_unlock e \<Longrightarrow> covers quiet e"
  by (simp add: covers_def)

lemma covers_all: "covers (\<lambda>_. True) e"
  by (simp add: covers_def)

lemma apply_verified_moves:
  assumes "covers P e"
  shows "moves P s (apply_verified_effects e s)"
proof -
  have "moves P s' (with_shield deactivate s')" if "ue_unlock e" for s'
    using assms that by (intro with_shield_moves [of _ OpDeactivate]) (auto simp: covers_def)
  moreover have "moves P s (unlock_effects_view e s)" by (simp add: moves_refl)
  ultimately show ?thesis by (auto simp: apply_verified_effects_def Let_def intro: moves_trans)
qed

lemma greeter_ask_user_moves: "moves quiet s (greeter_ask_user user listed s)"
proof -
  define s1 where "s1 = s\<lparr>ls_greeter_visit := ls_greeter_visit s + 1,
    ls_login_page := PromptPage (ui_name user) listed, ls_dialog := set_user user (ls_dialog s),
    ls_shield := drop_authenticator (ls_shield s)\<rparr>"
  define s2 where "s2 = with_shield retry_authenticator s1"
  obtain d e where pr: "show_prompt (ls_now s2) (ls_dialog s2) = (d, e)"
    by (cases "show_prompt (ls_now s2) (ls_dialog s2)")
  have g: "greeter_ask_user user listed s
      = apply_verified_effects (e\<lparr>ue_start_fingerprint := True\<rparr>) (s2\<lparr>ls_dialog := d\<rparr>)"
    using pr by (simp add: greeter_ask_user_def Let_def s1_def s2_def)
  have "moves quiet s s1" by (rule moves_step [of quiet OpDrop]) (simp_all add: s1_def)
  moreover have "moves quiet s1 s2" unfolding s2_def by (rule with_shield_quiet [of _ OpRetry]) auto
  moreover have "moves quiet s2 (s2\<lparr>ls_dialog := d\<rparr>)" by (simp add: moves_refl)
  moreover have "moves quiet (s2\<lparr>ls_dialog := d\<rparr>) (greeter_ask_user user listed s)"
    unfolding g using show_prompt_pair [OF pr] by (intro apply_verified_moves covers_quiet) simp
  ultimately show ?thesis by (meson moves_trans)
qed

lemma apply_unlock_moves:
  assumes "covers P e"
  shows "moves P s (apply_unlock_effects e s)"
proof (cases "ue_name_entered e")
  case None
  with assms show ?thesis by (simp add: apply_unlock_effects_def apply_verified_moves)
next
  case (Some name)
  have "moves P s (greeter_ask_user \<lparr>ui_name = name, ui_real_name = []\<rparr> False s)"
    using assms by (intro moves_mono [OF greeter_ask_user_moves]) (simp add: covers_def)
  moreover have "covers P (e\<lparr>ue_name_entered := None\<rparr>)" using assms by (simp add: covers_def)
  ultimately show ?thesis
    using Some by (simp add: apply_unlock_effects_def) (blast intro: moves_trans apply_verified_moves)
qed

lemma apply_unlock_via:
  assumes "covers P e"
  shows "moves P s (apply_unlock_effects e (s\<lparr>ls_dialog := d\<rparr>))"
proof -
  have "moves P (s\<lparr>ls_dialog := d\<rparr>) (apply_unlock_effects e (s\<lparr>ls_dialog := d\<rparr>))"
    using assms by (rule apply_unlock_moves)
  then show ?thesis by (simp add: moves_def)
qed

lemma with_dialog_moves: "covers P (snd (f (ls_dialog s))) \<Longrightarrow> moves P s (with_dialog f s)"
  unfolding with_dialog_def split_beta Let_def by (rule apply_unlock_via)

lemma with_dialog_quiet: "\<not> ue_unlock (snd (f (ls_dialog s))) \<Longrightarrow> moves quiet s (with_dialog f s)"
  by (rule with_dialog_moves) (rule covers_quiet)

lemma ask_username_effects [simp]: "\<not> ue_unlock (snd (ask_username now d))"
  by (simp add: ask_username_def redraw_def no_unlock_def Let_def)

lemma cancel_effects [simp]: "\<not> ue_unlock (snd (cancel d))"
  by (simp add: cancel_def)

lemma toggle_peek_effects [simp]: "\<not> ue_unlock (snd (toggle_peek now d))"
  by (simp add: toggle_peek_def redraw_def no_unlock_def Let_def)

lemma submit_effects [simp]: "\<not> ue_unlock (snd (submit now d))"
  by (simp add: submit_def redraw_def no_unlock_def Let_def)

text \<open>A change to other fields before a move.\<close>

lemma moves_via: "ls_shield s1 = ls_shield s \<Longrightarrow> moves P s1 s' \<Longrightarrow> moves P s s'"
  by (simp add: moves_def)

lemma moves_then: "moves P s s1 \<Longrightarrow> ls_shield s' = ls_shield s1 \<Longrightarrow> moves P s s'"
  by (simp add: moves_def)

lemma greeter_show_start_moves: "moves quiet s (greeter_show_start s)"
proof (cases "greeter_user_list_disabled s")
  case True
  have "moves quiet (s\<lparr>ls_login_page := NamePage\<rparr>)
      (with_dialog (ask_username (ls_now s)) (s\<lparr>ls_login_page := NamePage\<rparr>))"
    by (rule with_dialog_quiet) simp
  with True show ?thesis by (simp add: greeter_show_start_def moves_def)
next
  case False
  have "moves quiet s (with_dialog show_clock s)" by (rule with_dialog_quiet) simp
  with False show ?thesis by (simp add: greeter_show_start_def moves_def)
qed

lemma greeter_back_moves: "moves quiet s (greeter_back_to_start c s)"
proof -
  define s1 where "s1 = (if c then fst (send_gdm CancelRequest s) else s)"
  define s2 where "s2 = s1\<lparr>ls_shield := drop_authenticator (ls_shield s1),
    ls_greeter_visit := ls_greeter_visit s1 + 1\<rparr>"
  have "ls_shield s1 = ls_shield s" by (simp add: s1_def)
  then have "moves quiet s s2" by (intro moves_step [of quiet OpDrop]) (simp_all add: s2_def)
  then have "moves quiet s (greeter_show_start s2)" using greeter_show_start_moves by (rule moves_trans)
  moreover have "greeter_back_to_start c s = greeter_show_start s2"
    unfolding greeter_back_to_start_def Let_def s2_def s1_def ..
  ultimately show ?thesis by simp
qed

lemma sync_list_moves: "moves quiet s (sync_greeter_user_list s)"
  by (simp add: sync_greeter_user_list_def Let_def greeter_show_start_moves moves_refl)

lemma grid_action_moves: "moves quiet s (on_login_grid_action a shown s)"
proof (cases a)
  case (Pick i)
  then show ?thesis by (simp add: on_login_grid_action_def Let_def greeter_ask_user_moves moves_refl)
next
  case EnterName
  have "moves quiet (s\<lparr>ls_login_page := NamePage\<rparr>)
      (with_dialog (ask_username (ls_now s)) (s\<lparr>ls_login_page := NamePage\<rparr>))"
    by (rule with_dialog_quiet) simp
  with EnterName show ?thesis by (simp add: on_login_grid_action_def moves_def)
qed (simp add: on_login_grid_action_def moves_refl)

lemma grid_key_moves: "moves quiet s (on_login_grid_key raw mods shown s)"
proof (cases "grid_key_of raw mods")
  case (Some key)
  obtain g action moved where k: "grid_key_press key (length (ls_login_users s)) (ls_grid s) = (g, action, moved)"
    by (cases "grid_key_press key (length (ls_login_users s)) (ls_grid s)")
  let ?s = "dwell_on_focus moved (s\<lparr>ls_login_dwell := ls_login_dwell s + 1, ls_grid := g\<rparr>)"
  have sh: "ls_shield ?s = ls_shield s" by simp
  from Some k show ?thesis
    using moves_refl [OF sh] moves_via [OF sh grid_action_moves]
    by (cases action) (simp_all add: on_login_grid_key_def Let_def)
qed (simp add: on_login_grid_key_def moves_refl)

lemma show_greeter_dialog_moves: "moves quiet s (show_greeter_dialog s)"
proof -
  define s1 where "s1 = s\<lparr>ls_grid := grid_reset (length (ls_login_users s)) (ls_grid s),
    ls_shield := show_dialog (ls_shield s),
    ls_screen := settle (set_page True (ls_now s) (set_shown True (ls_now s) (ls_screen s)))\<rparr>"
  have "moves quiet s (sync_session_mode s1)"
    by (rule moves_step [of quiet OpShowDialog]) (simp_all add: s1_def)
  moreover have "show_greeter_dialog s = greeter_show_start (sync_session_mode s1)"
    unfolding show_greeter_dialog_def Let_def s1_def ..
  ultimately show ?thesis using moves_trans greeter_show_start_moves by metis
qed

section \<open>What each handler does to the shield\<close>

text \<open>Either nothing that could unlock it, or it raises a shield nobody has to unlock.\<close>

definition raises :: "lock_session \<Rightarrow> lock_session \<Rightarrow> bool" where
  "raises s s' \<longleftrightarrow> moves quiet s s' \<or> is_dismissible (ls_shield s) \<and> moves (\<lambda>_. True) s s'"

lemma raises_quiet: "moves quiet s s' \<Longrightarrow> raises s s'"
  by (simp add: raises_def)

lemma raises_any: "raises s s' \<Longrightarrow> moves (\<lambda>_. True) s s'"
  by (auto simp: raises_def intro: moves_mono)

lemma raises_locked: "raises s s' \<Longrightarrow> sh_locked (ls_shield s) \<Longrightarrow> sh_locked (ls_shield s')"
  by (auto simp: raises_def is_dismissible_def is_challenging_def intro: quiet_locked)

lemma deactivate_any: "moves (\<lambda>_. True) s (with_shield deactivate s)"
  by (rule with_shield_any [of _ OpDeactivate]) simp

lemma raises_via: "ls_shield s1 = ls_shield s \<Longrightarrow> raises s1 s' \<Longrightarrow> raises s s'"
  by (simp add: raises_def moves_def)

lemma shield_key_dialog_cases:
  assumes "shield_key_dialog u raw text mods theme now d = Some (d', e)"
  obtains "(d', e) = show_prompt now d" | "(d', e) = cancel d" | "(d', e) = submit now d"
    | d1 where "entry_key u raw text mods theme now d = Some (d1, Some e)" "d' = d1"
    | d1 where "entry_key u raw text mods theme now d = Some (d1, None)" "(d', e) = show_prompt now d1"
proof (cases "raw \<in> {Some K_Escape, Some K_Return, Some K_KP_Enter}")
  case True
  with assms have "(d', e) \<in> {show_prompt now d, cancel d, submit now d}"
    by (simp add: shield_key_dialog_def Let_def split: if_splits)
  with that(1-3) show ?thesis by blast
next
  case False
  with assms have "entry_key u raw text mods theme now d \<bind>
      (\<lambda>(d1, r). Some (case r of Some e \<Rightarrow> (d1, e) | None \<Rightarrow> show_prompt now d1)) = Some (d', e)"
    by (simp add: shield_key_dialog_def Let_def)
  then obtain d1 r where k: "entry_key u raw text mods theme now d = Some (d1, r)"
    and r: "(case r of Some e \<Rightarrow> (d1, e) | None \<Rightarrow> show_prompt now d1) = (d', e)"
    by (cases "entry_key u raw text mods theme now d") auto
  show ?thesis
  proof (cases r)
    case None
    with that(5) k r show ?thesis by simp
  next
    case (Some x)
    with that(4) k r show ?thesis by simp
  qed
qed

lemma shield_key_dialog_effects:
  assumes "shield_key_dialog u raw text mods theme now d = Some (d', e)"
  shows "\<not> ue_unlock e"
  using assms
proof (cases rule: shield_key_dialog_cases)
  case 1
  then show ?thesis using show_prompt_effects(1) [of now d] by (metis snd_conv)
next
  case 2
  then show ?thesis using cancel_effects [of d] by (metis snd_conv)
next
  case 3
  then show ?thesis using submit_effects [of now d] by (metis snd_conv)
next
  case (4 d1)
  then show ?thesis using entry_key_effects(1) by blast
next
  case (5 d1)
  then show ?thesis using show_prompt_effects(1) [of now d1] by (metis snd_conv)
qed

lemma shield_key_prompt_moves:
  assumes "shield_key_prompt u raw text mods s = Some s'"
  shows "moves quiet s s'"
proof -
  obtain p where p: "shield_key_dialog u raw text mods (ls_key_theme s) (ls_now s) (ls_dialog s) = Some p"
    using assms
    by (cases "shield_key_dialog u raw text mods (ls_key_theme s) (ls_now s) (ls_dialog s)")
       (simp_all add: shield_key_prompt_def)
  obtain d e where k: "shield_key_dialog u raw text mods (ls_key_theme s) (ls_now s) (ls_dialog s) = Some (d, e)"
    using p by (cases p) simp
  define e1 where "e1 = (if ud_page (ls_dialog s) = Clock \<and> ud_page d = Prompt
               then e\<lparr>ue_start_fingerprint := True, ue_redraw := True\<rparr> else e)"
  from assms k have s': "s' = apply_unlock_effects e1 (s\<lparr>ls_dialog := d\<rparr>)"
    by (simp add: shield_key_prompt_def Let_def e1_def)
  have "covers quiet e1"
    using shield_key_dialog_effects [OF k] by (intro covers_quiet) (simp add: e1_def)
  then show ?thesis unfolding s' by (rule apply_unlock_via)
qed

lemma on_shield_key_raises:
  assumes "on_shield_key u raw text mods shown s = Some s'"
  shows "raises s s'"
proof -
  let ?s1 = "s\<lparr>ls_screen := note_activity (ls_now s) (ls_screen s)\<rparr>"
  have "raises s ?s1" by (simp add: raises_quiet moves_refl)
  moreover have "raises s s'" if "shield_key_prompt u raw text mods ?s1 = Some s'"
    by (rule raises_via [OF _ raises_quiet [OF shield_key_prompt_moves [OF that]]]) simp
  moreover have "raises s (with_shield deactivate s)" if "is_dismissible (ls_shield s)"
    using that by (simp add: raises_def deactivate_any)
  moreover have "raises s s" "raises s (on_login_grid_key raw mods shown s)"
    "raises s (greeter_back_to_start c s)" for c
    by (simp_all add: raises_quiet moves_refl grid_key_moves greeter_back_moves)
  ultimately show ?thesis
    using assms unfolding on_shield_key_def Let_def by (auto split: if_splits)
qed

lemma switch_user_moves: "moves quiet s (switch_user s)"
proof -
  have "moves quiet s (with_dialog cancel s)" by (rule with_dialog_quiet) simp
  then show ?thesis by (rule moves_then) (simp add: switch_user_def Let_def)
qed

lemma activate_switch_user_moves: "moves quiet s (activate_switch_user s)"
proof -
  define s1 where "s1 = hold_blank_until_switched s"
  define s2 where "s2 = with_lock (lock_instant (ls_now s1)
    (password_mode_is_none (ua_password_mode (ls_account s1)))) s1"
  have "moves quiet s1 s2" unfolding s2_def
    by (rule with_lock_moves [of _ "OpLockInstant (ls_now s1) (password_mode_is_none (ua_password_mode (ls_account s1)))"])
       simp_all
  then have "moves quiet s s2" by (rule moves_via [rotated]) (simp add: s1_def)
  moreover have "ls_shield (activate_switch_user s) = ls_shield s2"
    unfolding activate_switch_user_def Let_def s1_def [symmetric] s2_def [symmetric] by simp
  ultimately show ?thesis by (rule moves_then)
qed

lemma on_shield_click_raises: "raises s (on_shield_click c s)"
proof -
  define s1 where "s1 = s\<lparr>ls_login_dwell := ls_login_dwell s + 1\<rparr>"
  define s2 where "s2 = s1\<lparr>ls_screen := note_activity (ls_now s1) (ls_screen s1)\<rparr>"
  define g where "g = grid_click (ck_grid c) (ls_grid s1)"
  define s3 where "s3 = s1\<lparr>ls_grid := fst g\<rparr>"
  have sh: "ls_shield s1 = ls_shield s" "ls_shield s2 = ls_shield s" "ls_shield s3 = ls_shield s"
    by (simp_all add: s1_def s2_def s3_def)
  have "raises s (with_shield deactivate s1)" if "is_dismissible (ls_shield s1)"
    using that by (intro raises_via [OF sh(1)]) (simp add: raises_def deactivate_any)
  moreover have "raises s (with_dialog (toggle_peek (ls_now s2)) s2)"
    "raises s (with_dialog (show_prompt (ls_now s2)) s2)"
    by (intro raises_via [OF sh(2)] raises_quiet with_dialog_quiet; simp)+
  moreover have "raises s (switch_user s2)"
    by (rule raises_via [OF sh(2) raises_quiet [OF switch_user_moves]])
  moreover have "raises s (on_login_grid_action a b s3)" for a b
    by (rule raises_via [OF sh(3) raises_quiet [OF grid_action_moves]])
  moreover have "raises s s" "raises s s1" "raises s s3" "raises s (s1\<lparr>ls_popover_open := b\<rparr>)" for b
    using sh by (simp_all add: raises_quiet moves_refl)
  ultimately show ?thesis
    unfolding on_shield_click_def Let_def s1_def [symmetric] s2_def [symmetric] g_def [symmetric]
      split_beta s3_def [symmetric]
    by (simp split: option.split)
qed

lemma login1_quiet:
  assumes "msg \<noteq> SessionLock False"
  shows "moves quiet s (on_login1_msg msg s)"
proof (cases msg)
  case (SessionLock b)
  with assms have "b" by (cases b) auto
  with SessionLock show ?thesis
    using with_lock_moves [of "lock_instant (ls_now s) False" "OpLockInstant (ls_now s) False"]
    by (simp add: on_login1_msg_def)
next
  case (SessionActive active)
  define s1 where "s1 = sync_sleep_inhibitor (s\<lparr>ls_session_active := active\<rparr>)"
  define s2 where "s2 = (if is_asking_a_user (ls_login_page s1) then greeter_back_to_start True s1 else s1)"
  have "ls_shield s1 = ls_shield s" by (simp add: s1_def)
  moreover have "moves quiet s1 s2" by (simp add: s2_def greeter_back_moves moves_refl)
  ultimately have "moves quiet s s1" "moves quiet s s2" by (auto intro: moves_refl moves_via)
  then show ?thesis
    unfolding SessionActive on_login1_msg_def Let_def login1_msg.case s1_def [symmetric] s2_def [symmetric]
    by (simp add: moves_def)
next
  case (PrepareForSleep b)
  define s1 where "s1 = (if b then (if \<not> shield_curtain_landed s then arm_shield_present_wait s else s)
    else clear_shield_present_wait s)"
  define s2 where "s2 = with_shield (prepare_for_sleep b (ls_now s) False) s1"
  have "moves quiet s1 s2"
    unfolding s2_def by (rule with_shield_quiet [of _ "OpSleep b (ls_now s) False"]) simp_all
  then have "moves quiet s s2" by (rule moves_via [rotated]) (simp add: s1_def)
  then show ?thesis
    unfolding PrepareForSleep on_login1_msg_def Let_def login1_msg.case s1_def [symmetric] s2_def [symmetric]
    by (simp add: moves_def)
qed

lemma saver_quiet:
  assumes "msg \<noteq> SetActive False"
  shows "moves quiet s (on_screen_saver_msg msg s)"
proof (cases msg)
  case (SaverLock reply)
  obtain sh r where l: "lock (ls_now s) (password_mode_is_none (ua_password_mode (ls_account s))) (ls_shield s) = (sh, r)"
    by (cases "lock (ls_now s) (password_mode_is_none (ua_password_mode (ls_account s))) (ls_shield s)")
  have sh: "moves quiet s s1" if "ls_shield s1 = sh" for s1
    using l that
    by (intro moves_step [of quiet "OpLock (ls_now s) (password_mode_is_none (ua_password_mode (ls_account s)))"])
       simp_all
  show ?thesis
  proof (cases r)
    case (Inl x)
    with l SaverLock sh show ?thesis by (cases x) (simp add: on_screen_saver_msg_def)
  next
    case (Inr e)
    let ?s1 = "s\<lparr>ls_shield := sh, ls_lock_replies := ls_lock_replies s @ (case reply of None \<Rightarrow> [] | Some r \<Rightarrow> [r])\<rparr>"
    have "moves quiet s (apply_shield_effects e ?s1)"
      by (rule moves_trans [OF sh apply_shield_moves]) simp
    with Inr l SaverLock show ?thesis by (simp add: on_screen_saver_msg_def)
  qed
next
  case (SetActive b)
  with assms have b by (cases b) auto
  with SetActive show ?thesis
    using with_shield_quiet [of "activate (ls_now s)" "OpActivate (ls_now s)" s]
    by (simp add: on_screen_saver_msg_def)
qed

lemma presence_quiet: "moves quiet s (on_presence_msg st s)"
  using with_shield_quiet [of "on_session_idle (ls_now s)" "OpIdle (ls_now s)" s]
    with_shield_quiet [of on_user_active OpUserActive s]
  by (cases st) (simp_all add: on_presence_msg_def moves_refl)

lemma accounts_quiet: "moves quiet s (on_accounts_msg msg s)"
proof (cases msg)
  case (Users us)
  have "moves quiet s (sync_greeter_user_list s1)" if "ls_shield s1 = ls_shield s" for s1
    by (rule moves_via [OF that sync_list_moves])
  with Users show ?thesis by (simp add: on_accounts_msg_def Let_def moves_refl)
qed (simp_all add: on_accounts_msg_def moves_refl)

lemma verifier_gate_quiet: "moves quiet s (verifier_gate ev s)"
proof (cases ev)
  case (Ready ep)
  then show ?thesis using with_shield_quiet [of "authenticator_ready ep True" "OpReady ep True" s]
    by (simp add: verifier_gate_def)
next
  case (Unavailable ep reason)
  then show ?thesis using with_shield_quiet [of "authenticator_ready ep False" "OpReady ep False" s]
    by (simp add: verifier_gate_def)
next
  case Lost
  have "moves quiet s (s\<lparr>ls_shield := drop_authenticator (ls_shield s)\<rparr>)"
    by (rule moves_step [of quiet OpDrop]) simp_all
  with Lost show ?thesis using with_shield_quiet [of authenticator_lost OpLost s]
    by (simp add: verifier_gate_def)
qed (simp_all add: verifier_gate_def moves_refl Let_def)

lemma on_verifier_message_moves:
  assumes "covers P (snd (on_verifier_event ev (ls_now (verifier_gate ev s)) (ls_dialog (verifier_gate ev s))))"
  shows "moves P s (on_verifier_message ev s)"
proof -
  have "moves P s (verifier_gate ev s)"
    by (rule moves_mono [OF verifier_gate_quiet]) (use assms in \<open>simp add: covers_def\<close>)
  moreover from assms have "moves P (verifier_gate ev s) (on_verifier_message ev s)"
    unfolding on_verifier_message_def Let_def by (rule with_dialog_moves)
  ultimately show ?thesis by (rule moves_trans)
qed

lemma verifier_quiet: "ev \<noteq> Complete \<Longrightarrow> moves quiet s (on_verifier_message ev s)"
  using event_effects(2) by (intro on_verifier_message_moves covers_quiet) simp

lemma sync_foreground_quiet: "moves quiet s (sync_verifier_foreground s)"
proof (cases "ls_verifier_foreground s")
  case (Some began)
  define s1 where "s1 = s\<lparr>ls_verifier_foreground := None\<rparr>"
  define s2 where "s2 = fst (send_gdm CancelRequest s1)"
  define s3 where "s3 = with_shield retry_authenticator (s2\<lparr>ls_shield := drop_authenticator (ls_shield s2)\<rparr>)"
  define r where "r = on_verifier_event Reset (ls_now s3) (ls_dialog s3)"
  define s4 where "s4 = apply_unlock_effects ((snd r)\<lparr>ue_start_fingerprint := (ud_page (fst r) = Prompt)\<rparr>)
    (s3\<lparr>ls_dialog := fst r\<rparr>)"
  have sh: "ls_shield s1 = ls_shield s" "ls_shield s2 = ls_shield s" by (simp_all add: s1_def s2_def)
  have "moves quiet s (s2\<lparr>ls_shield := drop_authenticator (ls_shield s2)\<rparr>)"
    using sh by (intro moves_step [of quiet OpDrop]) simp_all
  moreover have "moves quiet (s2\<lparr>ls_shield := drop_authenticator (ls_shield s2)\<rparr>) s3"
    unfolding s3_def by (rule with_shield_quiet [of _ OpRetry]) simp_all
  moreover have "moves quiet s3 s4"
    unfolding s4_def by (rule apply_unlock_via, rule covers_quiet) (simp add: r_def Let_def redraw_def no_unlock_def)
  ultimately have "moves quiet s s4" by (meson moves_trans)
  moreover have "moves quiet s (greeter_back_to_start True s1)"
    by (rule moves_via [OF sh(1) greeter_back_moves])
  moreover have "moves quiet s s1" "moves quiet s s" using sh by (simp_all add: moves_refl)
  ultimately show ?thesis
    unfolding sync_verifier_foreground_def Some option.case Let_def s1_def [symmetric] s2_def [symmetric]
      s3_def [symmetric] r_def [symmetric] split_beta s4_def [symmetric]
    by simp
qed (simp add: sync_verifier_foreground_def moves_refl)

lemma reader_quiet: "moves quiet s (on_fingerprint_reader r s)"
proof -
  have "moves quiet (s\<lparr>ls_reader := r\<rparr>) (sync_verifier_foreground (s\<lparr>ls_reader := r\<rparr>))"
    by (rule sync_foreground_quiet)
  then show ?thesis by (simp add: on_fingerprint_reader_def moves_def) (metis run.simps(1) list.set(1) empty_iff)
qed

lemma settings_quiet: "moves quiet s (on_settings_changed st af dul theme s)"
proof -
  define s1 where "s1 = s\<lparr>ls_settings := st, ls_allowed_failures := af,
                ls_disable_user_list := dul, ls_key_theme := theme,
                ls_shield := shield_set_settings st (ls_shield s),
                ls_dialog := set_peek_locked_down (disable_show_password st) (ls_dialog s)\<rparr>"
  have "moves quiet s s1" by (rule moves_step [of quiet "OpSettings st"]) (simp_all add: s1_def)
  then have "moves quiet s (sync_verifier_foreground (sync_greeter_user_list s1))"
    using sync_list_moves sync_foreground_quiet by (meson moves_trans)
  then show ?thesis
    unfolding on_settings_changed_def Let_def s1_def [symmetric] by (rule moves_then) simp
qed

lemma minute_quiet: "moves quiet s (minute_tick s)"
  by (simp add: minute_tick_def with_dialog_quiet moves_refl)

lemma run_timer_quiet: "moves quiet s (run_timer k s)"
proof (cases k)
  case TFade
  have "moves quiet (s\<lparr>ls_fade_timer := None\<rparr>) (run_timer TFade s)"
    unfolding run_timer.simps by (rule with_shield_quiet [of _ "OpFadeComplete (ls_now s)"]) simp_all
  with TFade show ?thesis by (simp add: moves_def)
next
  case TLock
  have "moves quiet (s\<lparr>ls_lock_timer := None\<rparr>) (with_lock (lock (ls_now s) False) (s\<lparr>ls_lock_timer := None\<rparr>))"
    by (rule with_lock_moves [of _ "OpLock (ls_now s) False"]) simp_all
  with TLock show ?thesis by (simp add: Let_def moves_def) (metis run.simps(1) list.set(1) empty_iff)
next
  case TMessage
  have "moves quiet (s\<lparr>ls_message_timer := None\<rparr>) (run_timer TMessage s)"
    unfolding run_timer.simps by (rule with_dialog_quiet) simp
  with TMessage show ?thesis by (simp add: moves_def)
next
  case (TWatchdog ep)
  then show ?thesis using with_shield_quiet [of "authenticator_ready ep False" "OpReady ep False" s] by simp
next
  case TRetry
  then show ?thesis using with_shield_quiet [of retry_authenticator OpRetry s] by (simp add: moves_refl)
qed (simp_all add: moves_refl greeter_back_moves grid_action_moves Let_def)

lemma pass_time_quiet: "moves quiet s (pass_time dt s)"
proof -
  define s1 where "s1 = s\<lparr>ls_now := ls_now s + dt, ls_monotonic := ls_monotonic s + dt\<rparr>"
  have "moves quiet s1 (dispatch_due ls_timers put_timers exec_timer now due s1)" for now due
  proof (rule dispatch_due_preserves)
    show "moves quiet s1 s1" by (simp add: moves_refl)
    fix e d assume "moves quiet s1 d" "e \<in> set (tms_entries (ls_timers d))"
    moreover have "moves quiet (put_timers ts d) (run_timer k (put_timers ts d))" for ts k
      by (rule run_timer_quiet)
    ultimately show "moves quiet s1 (fire ls_timers put_timers exec_timer now e d)"
      unfolding fire_def exec_timer_def Let_def split_conv
      by (auto simp: moves_def) (metis Un_iff run_append set_append)
  qed
  then show ?thesis
    unfolding pass_time_def Let_def s1_def [symmetric] dispatch_from_def by (simp add: moves_def s1_def)
qed

definition unlocking :: "session_op \<Rightarrow> bool" where
  "unlocking x \<longleftrightarrow> x \<in> {SVerifier Complete, SSaver (SetActive False), SLogin1 (SessionLock False)}"

lemma update_render_frame [simp]: "ls_shield (update_render s) = ls_shield s"
  by (simp add: update_render_def)

lemma session_step_raises:
  assumes "session_step u x s = Some (s', t)" "\<not> unlocking x"
  shows "raises s s'"
proof (cases x)
  case (SKey raw ch mods shown)
  with assms show ?thesis using on_shield_key_raises by auto
next
  case (SClick c)
  with assms show ?thesis using on_shield_click_raises by auto
next
  case (SLogin1 msg)
  with assms show ?thesis by (auto simp: unlocking_def intro!: raises_quiet login1_quiet)
next
  case (SSaver msg)
  with assms show ?thesis by (auto simp: unlocking_def intro!: raises_quiet saver_quiet)
next
  case (SPresence st)
  with assms show ?thesis by (auto intro!: raises_quiet presence_quiet)
next
  case (SAccounts msg)
  with assms show ?thesis by (auto intro!: raises_quiet accounts_quiet)
next
  case (SVerifier ev)
  with assms show ?thesis by (auto simp: unlocking_def intro!: raises_quiet verifier_quiet)
next
  case (SReader r)
  with assms show ?thesis by (auto intro!: raises_quiet reader_quiet)
next
  case (SSettings st af dul theme)
  with assms show ?thesis by (auto intro!: raises_quiet settings_quiet)
next
  case SMinute
  with assms show ?thesis by (auto intro!: raises_quiet minute_quiet)
next
  case (SPass dt)
  with assms show ?thesis by (auto intro!: raises_quiet pass_time_quiet)
next
  case SSwitchUser
  with assms show ?thesis by (auto intro!: raises_quiet activate_switch_user_moves)
qed (use assms in \<open>auto intro!: raises_quiet moves_refl\<close>)

lemma session_step_any:
  assumes "session_step u x s = Some (s', t)"
  shows "moves (\<lambda>_. True) s s'"
proof (cases "unlocking x")
  case False
  with session_step_raises [OF assms] show ?thesis by (simp add: raises_any)
next
  case True
  then consider "x = SVerifier Complete" | "x = SSaver (SetActive False)" | "x = SLogin1 (SessionLock False)"
    by (auto simp: unlocking_def)
  then show ?thesis
  proof cases
    case 1
    with assms show ?thesis by (auto intro!: on_verifier_message_moves covers_all)
  next
    case 2
    with assms show ?thesis by (auto simp: on_screen_saver_msg_def intro!: deactivate_any)
  next
    case 3
    with assms show ?thesis by (auto simp: on_login1_msg_def intro!: deactivate_any)
  qed
qed

abbreviation session_run ::
  "segmentation \<Rightarrow> session_op list \<Rightarrow> lock_session \<Rightarrow> (lock_session \<times> unit list) option" where
  "session_run u \<equiv> prun (session_step u)"

lemma session_run_Cons:
  assumes "session_run u (x # xs) s = Some (s', ts)"
  obtains s1 t ts' where "session_step u x s = Some (s1, t)" "session_run u xs s1 = Some (s', ts')"
  using assms by (auto split: option.splits)

lemma session_run_any: "session_run u xs s = Some (s', ts) \<Longrightarrow> moves (\<lambda>_. True) s s'"
proof (induction xs arbitrary: s ts)
  case (Cons x xs)
  from Cons.prems show ?case
    by (rule session_run_Cons) (blast intro: moves_trans session_step_any Cons.IH)
qed (simp add: moves_refl)

lemma session_run_locked:
  "session_run u xs s = Some (s', ts) \<Longrightarrow> \<forall>x \<in> set xs. \<not> unlocking x \<Longrightarrow> sh_locked (ls_shield s)
     \<Longrightarrow> sh_locked (ls_shield s')"
proof (induction xs arbitrary: s ts)
  case (Cons x xs)
  from Cons.prems(1) obtain s1 t ts' where st: "session_step u x s = Some (s1, t)"
    and rest: "session_run u xs s1 = Some (s', ts')" by (rule session_run_Cons)
  have "sh_locked (ls_shield s1)"
    using Cons.prems by (intro raises_locked [OF session_step_raises [OF st]]) auto
  with Cons.IH [OF rest] Cons.prems(2) show ?case by simp
qed simp

section \<open>Properties of the lock\<close>

text \<open>
  C17. The lock holds. Take a session whose shield is locked and let anything happen to it, in
  any order: keys, clicks, frames, timers, presence, settings, suspend and resume, readers,
  accounts, a lost or silent gdm. If its shield is unlocked at the end, then one of the events
  was gdm's \<open>Complete\<close>, a \<open>SetActive(false)\<close> on the session bus, or logind's \<open>Unlock\<close>; and the
  greeter's shield is never unlocked, not even by those.
\<close>

theorem session_lock_holds:
  assumes "session_run u xs s = Some (s', ts)" and "sh_locked (ls_shield s)"
    and "\<not> sh_locked (ls_shield s')" and "shield_ok (ls_shield s)"
  shows "(SVerifier Complete \<in> set xs \<or> SSaver (SetActive False) \<in> set xs \<or>
      SLogin1 (SessionLock False) \<in> set xs) \<and> \<not> sh_greeter (ls_shield s)"
proof
  have "\<exists>x \<in> set xs. unlocking x" using session_run_locked [OF assms(1)] assms(2,3) by blast
  then show "SVerifier Complete \<in> set xs \<or> SSaver (SetActive False) \<in> set xs \<or>
      SLogin1 (SessionLock False) \<in> set xs"
    by (auto simp: unlocking_def)
  show "\<not> sh_greeter (ls_shield s)"
  proof
    assume g: "sh_greeter (ls_shield s)"
    from session_run_any [OF assms(1)] have "sh_greeter (ls_shield s')" "shield_ok (ls_shield s')"
      using run_greeter [OF g] assms(4) by (auto simp: moves_def intro: shield.run_inv)
    with assms(3) show False by (simp add: shield_ok_def)
  qed
qed

definition locked_session :: lock_session where
  "locked_session = (new_session default_user False True)\<lparr>ls_shield :=
     run shield_step [OpLock 0 False, OpReady 1 True] (new_shield default_shield_settings)\<rparr>"

theorem session_lock_holds_witness:
  "\<exists>s' ts. session_run char_segmentation [SSaver (SetActive False)] locked_session = Some (s', ts) \<and>
     sh_locked (ls_shield locked_session) \<and> \<not> sh_locked (ls_shield s') \<and>
     (SVerifier Complete \<in> set [SSaver (SetActive False)] \<or>
      SSaver (SetActive False) \<in> set [SSaver (SetActive False)] \<or>
      SLogin1 (SessionLock False) \<in> set [SSaver (SetActive False)]) \<and>
     \<not> sh_greeter (ls_shield locked_session)"
proof -
  have run: "session_run char_segmentation [SSaver (SetActive False)] locked_session
      = Some (with_shield deactivate locked_session, [()])"
    by (simp add: on_screen_saver_msg_def)
  have locked: "sh_locked (ls_shield locked_session)"
    by (simp add: locked_session_def step_defs inv_defs new_shield_def default_shield_settings_def)
  have ok: "shield_ok (ls_shield locked_session)"
    unfolding locked_session_def by (simp add: shield_reachable_ok del: run.simps)
  have free: "\<not> sh_locked (ls_shield (with_shield deactivate locked_session))"
    by (simp add: with_shield_def apply_shield_effects_def effects_request_def locked_session_def
        step_defs inv_defs new_shield_def default_shield_settings_def no_effects_def)
  from session_lock_holds [OF run locked free ok] run locked free show ?thesis by blast
qed



end
