(* ===== verification/Lock_Watch.thy ===== *)
theory Lock_Watch
  imports Lock_Invariants
begin

text \<open>
  The timers of the lock session. Every handler uses the wheel through its interface; the handles
  kept for cancelling (fade, lock, message, presentation, leaving) name timers of their own kind;
  and a request for a verifier that is still open has a watchdog that comes due within the
  authenticator's timeout. The session is an instance of the timers' interface, and with the
  dialog's and the shield's invariants no event makes it panic.
\<close>

section \<open>Handles and watchdogs on a wheel\<close>

definition own :: "session_timer \<Rightarrow> token option \<Rightarrow> session_timer timers \<Rightarrow> bool" where
  "own k tok ts = (case tok of None \<Rightarrow> True
     | Some t \<Rightarrow> t < tms_next_token ts \<and> (\<forall>e \<in> set (tms_entries ts). tm_token e = t \<longrightarrow> tm_callback e = k))"

definition watching :: "nat \<Rightarrow> duration \<Rightarrow> session_timer timers \<Rightarrow> bool" where
  "watching ep limit ts \<longleftrightarrow>
     (\<exists>e \<in> set (tms_entries ts). tm_callback e = TWatchdog ep \<and> tm_deadline e \<le> limit)"

lemma own_None [simp]: "own k None ts"
  by (simp add: own_def)

lemma own_insert [simp]: "own k tok ts \<Longrightarrow> own k tok (snd (insert_at dl c ts))"
  by (auto simp: own_def split: option.splits)

lemma own_cancel [simp]: "own k tok ts \<Longrightarrow> own k tok (cancel_timer t ts)"
  by (auto simp: own_def split: option.splits)

lemma own_new [simp]: "timers_ok ts \<Longrightarrow> own k (Some (tms_next_token ts)) (snd (insert_at dl k ts))"
  by (auto simp: own_def timers_ok_def)

lemma insert_at_fst [simp]: "fst (insert_at dl c ts) = tms_next_token ts"
  by (simp add: insert_at_def Let_def)

fun is_watchdog :: "session_timer \<Rightarrow> bool" where
  "is_watchdog (TWatchdog ep) = True"
| "is_watchdog _ = False"

definition watchdogs :: "session_timer timers \<Rightarrow> session_timer timer_entry set" where
  "watchdogs ts = {e \<in> set (tms_entries ts). is_watchdog (tm_callback e)}"

lemma watchdogs_insert [simp]: "e \<in> watchdogs ts \<Longrightarrow> e \<in> watchdogs (snd (insert_at dl c ts))"
  by (auto simp: watchdogs_def)

lemma watchdogs_watching:
  "watchdogs ts \<subseteq> watchdogs ts' \<Longrightarrow> watching ep limit ts \<Longrightarrow> watching ep limit ts'"
  by (fastforce simp: watchdogs_def watching_def)

lemma watching_new [simp]: "dl \<le> limit \<Longrightarrow> watching ep limit (snd (insert_at dl (TWatchdog ep) ts))"
  by (auto simp: watching_def)

lemma watchdogs_cancel:
  "own k (Some t) ts \<Longrightarrow> \<not> is_watchdog k \<Longrightarrow> watchdogs ts \<subseteq> watchdogs (cancel_timer t ts)"
  by (auto simp: own_def watchdogs_def)

section \<open>Tending the wheel\<close>

definition wheel_ok :: "lock_session \<Rightarrow> bool" where
  "wheel_ok s \<longleftrightarrow> timers_ok (ls_timers s) \<and> own TFade (ls_fade_timer s) (ls_timers s) \<and>
     own TLock (ls_lock_timer s) (ls_timers s) \<and> own TMessage (ls_message_timer s) (ls_timers s) \<and>
     own TPresent (ls_present_deadline s) (ls_timers s) \<and> own TLeaving (ls_leaving_for_login s) (ls_timers s)"

definition watches :: "nat \<Rightarrow> lock_session \<Rightarrow> bool" where
  "watches ep s \<longleftrightarrow> watching ep (ls_now s + AUTHENTICATOR_TIMEOUT) (ls_timers s)"

definition tends :: "lock_session \<Rightarrow> lock_session \<Rightarrow> bool" where
  "tends s s' \<longleftrightarrow> ls_now s' = ls_now s \<and> wheel_use (ls_timers s) (ls_timers s') \<and>
     (wheel_ok s \<longrightarrow> wheel_ok s' \<and> watchdogs (ls_timers s) \<subseteq> watchdogs (ls_timers s'))"

lemma tends_watches: "tends s s' \<Longrightarrow> wheel_ok s \<Longrightarrow> watches ep s \<Longrightarrow> watches ep s'"
  using watchdogs_watching by (auto simp: tends_def watches_def)

lemma tends_refl: "ls_now s' = ls_now s \<Longrightarrow> same_wheel s' s \<Longrightarrow> tends s s'"
  by (simp add: tends_def wheel_ok_def use_refl)

lemma tends_trans: "tends a b \<Longrightarrow> tends b c \<Longrightarrow> tends a c"
  by (auto simp: tends_def intro: wheel_use_trans)

lemma tends_via: "ls_now s1 = ls_now s \<Longrightarrow> same_wheel s1 s \<Longrightarrow> tends s1 s' \<Longrightarrow> tends s s'"
  by (rule tends_trans [OF tends_refl])

lemma tends_then: "tends s s1 \<Longrightarrow> ls_now s' = ls_now s1 \<Longrightarrow> same_wheel s' s1 \<Longrightarrow> tends s s'"
  by (erule tends_trans [OF _ tends_refl])

lemma tends_timer: "tends s (snd (timer_at t k s))" "tends s (snd (timer_after t k s))"
  by (simp_all add: tends_def wheel_op_defs split_beta wheel_ok_def subset_iff wheel_use_insert)

text \<open>A handle is given up with its timer, and a new one is taken for a timer of its kind.\<close>

lemma stop_timers: "ls_timers (stop_timer tok s)
    = (case tok of None \<Rightarrow> ls_timers s | Some t \<Rightarrow> cancel_timer t (ls_timers s))"
  by (simp add: stop_timer_def split: option.split)

lemma stop_timer_handles [simp]:
  "ls_fade_timer (stop_timer tok s) = ls_fade_timer s" "ls_lock_timer (stop_timer tok s) = ls_lock_timer s"
  "ls_message_timer (stop_timer tok s) = ls_message_timer s"
  "ls_present_deadline (stop_timer tok s) = ls_present_deadline s"
  "ls_leaving_for_login (stop_timer tok s) = ls_leaving_for_login s"
  by (simp_all add: stop_timer_def split: option.split)

lemma stop_use: "wheel_use (ls_timers s) (ls_timers (stop_timer tok s))"
  by (simp add: stop_timers wheel_use_cancel use_refl split: option.split)

lemma stop_watchdogs:
  "own k tok (ls_timers s) \<Longrightarrow> \<not> is_watchdog k \<Longrightarrow> watchdogs (ls_timers s) \<subseteq> watchdogs (ls_timers (stop_timer tok s))"
  using watchdogs_cancel by (auto simp: stop_timers split: option.split)

lemma stop_own: "own k h (ls_timers s) \<Longrightarrow> own k h (ls_timers (stop_timer tok s))"
  by (simp add: stop_timers split: option.split)

lemma stop_timers_ok: "timers_ok (ls_timers s) \<Longrightarrow> timers_ok (ls_timers (stop_timer tok s))"
  by (simp add: stop_timers split: option.split)

lemmas stop_rules = stop_use stop_own stop_timers_ok

lemma tends_stop:
  "tends s ((stop_timer (ls_fade_timer s) s)\<lparr>ls_fade_timer := None\<rparr>)"
  "tends s ((stop_timer (ls_lock_timer s) s)\<lparr>ls_lock_timer := None\<rparr>)"
  "tends s ((stop_timer (ls_message_timer s) s)\<lparr>ls_message_timer := None\<rparr>)"
  "tends s ((stop_timer (ls_present_deadline s) s)\<lparr>ls_present_deadline := None\<rparr>)"
  "tends s ((stop_timer (ls_leaving_for_login s) s)\<lparr>ls_leaving_for_login := None\<rparr>)"
  using stop_watchdogs [of TFade "ls_fade_timer s" s] stop_watchdogs [of TLock "ls_lock_timer s" s]
    stop_watchdogs [of TMessage "ls_message_timer s" s] stop_watchdogs [of TPresent "ls_present_deadline s" s]
    stop_watchdogs [of TLeaving "ls_leaving_for_login s" s]
  by (simp_all add: tends_def wheel_ok_def stop_rules)

lemma timer_at_parts:
  "fst (timer_at t k s) = tms_next_token (ls_timers s)"
  "ls_timers (snd (timer_at t k s)) = snd (insert_at t k (ls_timers s))"
  "ls_fade_timer (snd (timer_at t k s)) = ls_fade_timer s" "ls_lock_timer (snd (timer_at t k s)) = ls_lock_timer s"
  "ls_message_timer (snd (timer_at t k s)) = ls_message_timer s"
  "ls_present_deadline (snd (timer_at t k s)) = ls_present_deadline s"
  "ls_leaving_for_login (snd (timer_at t k s)) = ls_leaving_for_login s"
  by (simp_all add: timer_at_def split_beta)

lemma tends_take:
  "tends s ((snd (timer_at t TFade s))\<lparr>ls_fade_timer := Some (fst (timer_at t TFade s))\<rparr>)"
  "tends s ((snd (timer_at t TLock s))\<lparr>ls_lock_timer := Some (fst (timer_at t TLock s))\<rparr>)"
  "tends s ((snd (timer_at t TMessage s))\<lparr>ls_message_timer := Some (fst (timer_at t TMessage s))\<rparr>)"
  "tends s ((snd (timer_at t TPresent s))\<lparr>ls_present_deadline := Some (fst (timer_at t TPresent s))\<rparr>)"
  "tends s ((snd (timer_at t TLeaving s))\<lparr>ls_leaving_for_login := Some (fst (timer_at t TLeaving s))\<rparr>)"
  by (simp_all add: tends_def wheel_ok_def subset_iff timer_at_parts wheel_use_insert)

lemma tends_arm:
  "tends s (arm_fade_timer s)" "tends s (arm_lock_timer_after dl s)" "tends s (hold_blank_until_switched s)"
  unfolding arm_fade_timer_def arm_lock_timer_after_def hold_blank_until_switched_def Let_def split_beta timer_after_def
  by (rule tends_trans [OF tends_stop(1) tends_take(1)], rule tends_trans [OF tends_stop(2) tends_take(2)],
      rule tends_trans [OF tends_stop(5) tends_take(5)])

lemma tends_watchdog: "tends s (arm_authenticator_watchdog ep s)" "watches ep (arm_authenticator_watchdog ep s)"
  by (simp_all add: arm_authenticator_watchdog_def tends_timer watches_def)
     (simp add: timer_after_def timer_at_parts)

lemma tends_goto: "tends s (goto_login_session s)" "tends s (session_paused s)"
proof -
  show "tends s (goto_login_session s)"
    unfolding goto_login_session_def Let_def by (rule tends_then [OF tends_arm(3)]) simp_all
  show "tends s (session_paused s)"
    unfolding session_paused_def by (rule tends_then [OF tends_stop(5)]) simp_all
qed

lemma tends_present:
  "tends s (arm_shield_present_wait s)" "tends s (clear_shield_present_wait s)"
proof -
  define s1 where "s1 = s\<lparr>ls_frames_owed := ls_outputs s\<rparr>"
  have s1: "tends s s1" by (rule tends_refl) (simp_all add: s1_def)
  have "tends s1 (snd (timer_at t TPresent ((stop_timer (ls_present_deadline s1) s1)\<lparr>ls_present_deadline := None\<rparr>))
      \<lparr>ls_present_deadline := Some (fst (timer_at t TPresent ((stop_timer (ls_present_deadline s1) s1)\<lparr>ls_present_deadline := None\<rparr>)))\<rparr>)" for t
    by (rule tends_trans [OF tends_stop(4) tends_take(4)])
  from tends_trans [OF s1 this] s1 show "tends s (arm_shield_present_wait s)"
    unfolding arm_shield_present_wait_def Let_def split_beta timer_after_def s1_def [symmetric] by simp
  define r1 where "r1 = s\<lparr>ls_frames_owed := []\<rparr>"
  define r2 where "r2 = (stop_timer (ls_present_deadline r1) r1)\<lparr>ls_present_deadline := None\<rparr>"
  define r3 where "r3 = sync_sleep_inhibitor r2"
  define r4 where "r4 = r3\<lparr>ls_switch_user_on_frame := False\<rparr>"
  have "tends s r1" by (rule tends_refl) (simp_all add: r1_def)
  moreover have "tends r1 r2" unfolding r2_def by (rule tends_stop(4))
  moreover have "tends r2 r3" by (rule tends_refl) (simp_all add: r3_def)
  ultimately have r3: "tends s r3" by (meson tends_trans)
  have "tends s r4" by (rule tends_then [OF r3]) (simp_all add: r4_def)
  then have "tends s (goto_login_session r4)" using tends_goto(1) by (rule tends_trans)
  with r3 show "tends s (clear_shield_present_wait s)"
    unfolding clear_shield_present_wait_def Let_def r1_def [symmetric] r2_def [symmetric] r3_def [symmetric]
      r4_def [symmetric]
    by simp
qed

lemma tends_presented: "tends s (note_shield_frame_presented out s)"
proof -
  define s1 where "s1 = s\<lparr>ls_frames_owed := removeAll out (ls_frames_owed s)\<rparr>"
  have 1: "tends s s1" by (rule tends_refl) (simp_all add: s1_def)
  with tends_trans [OF 1 tends_present(2)] show ?thesis
    unfolding note_shield_frame_presented_def Let_def s1_def [symmetric] by (simp add: tends_refl)
qed

lemma tends_message: "tends s (arm_unlock_message_timer s)"
proof -
  define s1 where "s1 = (stop_timer (ls_message_timer s) s)\<lparr>ls_message_timer := None\<rparr>"
  have s1: "tends s s1" unfolding s1_def by (rule tends_stop(3))
  from tends_trans [OF s1 tends_take(3)] s1 show ?thesis
    unfolding arm_unlock_message_timer_def Let_def split_beta s1_def [symmetric] by (simp split: option.split)
qed

lemma tends_dwell: "tends s (arm_login_tile_dwell i s)" "tends s (dwell_on_focus moved s)"
proof -
  show "tends s (arm_login_tile_dwell i s)" for i by (simp add: arm_login_tile_dwell_def tends_timer)
  then show "tends s (dwell_on_focus moved s)"
    by (simp add: dwell_on_focus_def tends_refl split: option.split grid_hit.split)
qed

lemma tends_effects_timers: "tends s (effects_timers e s)"
proof -
  define s1 where "s1 = (if stop_fade e
    then (stop_timer (ls_fade_timer s) s)\<lparr>ls_screen := light_off (ls_screen s), ls_fade_timer := None\<rparr> else s)"
  define s2 where "s2 = (if start_fade e
    then arm_fade_timer (s1\<lparr>ls_screen := light_on (ls_now s1) (ls_screen s1)\<rparr>) else s1)"
  define s3 where "s3 = (if cancel_lock_timer e
    then (stop_timer (ls_lock_timer s2) s2)\<lparr>ls_lock_timer := None\<rparr> else s2)"
  define s4 where "s4 = (case arm_lock_timer e of None \<Rightarrow> s3 | Some delay \<Rightarrow> arm_lock_timer_after delay s3)"
  have "tends s ((stop_timer (ls_fade_timer s) s)\<lparr>ls_screen := light_off (ls_screen s), ls_fade_timer := None\<rparr>)"
    by (rule tends_then [OF tends_stop(1)]) simp_all
  then have "tends s s1" by (simp add: s1_def tends_refl)
  moreover have "tends s1 (arm_fade_timer (s1\<lparr>ls_screen := light_on (ls_now s1) (ls_screen s1)\<rparr>))"
    by (rule tends_via [OF _ _ tends_arm(1)]) simp_all
  then have "tends s1 s2" by (simp add: s2_def tends_refl)
  moreover have "tends s2 s3" by (simp add: s3_def tends_stop tends_refl)
  moreover have "tends s3 s4" by (simp add: s4_def tends_arm tends_refl split: option.split)
  moreover have "tends s4 (effects_timers e s)"
    unfolding effects_timers_def Let_def s1_def [symmetric] s2_def [symmetric] s3_def [symmetric] s4_def [symmetric]
    by (simp add: tends_timer tends_refl split: option.split)
  ultimately show ?thesis by (meson tends_trans)
qed

lemma tends_after_request: "tends s (effects_after_request e s)"
proof -
  have "tends s (effects_dialog e s)" by (rule tends_refl) simp_all
  then have "tends s (effects_timers e (effects_dialog e s))" using tends_effects_timers by (rule tends_trans)
  then show ?thesis unfolding effects_after_request_def by (rule tends_then) simp_all
qed

lemma tends_answered: "tends s (apply_answered_effects e s)"
  unfolding apply_answered_effects_def by (rule tends_via [OF _ _ tends_after_request]) simp_all

lemma tends_request: "tends s (effects_request e s)"
proof (cases "request_authenticator e")
  case (Some ep)
  define s1 where "s1 = fst (ask_verifier ep s)"
  have "tends s s1" by (rule tends_refl) (simp_all add: s1_def)
  moreover have "tends s1 (arm_authenticator_watchdog ep s1)" by (rule tends_watchdog)
  moreover have "tends s1 (apply_answered_effects e1 (s1\<lparr>ls_shield := sh\<rparr>))" for e1 sh
    by (rule tends_via [OF _ _ tends_answered]) simp_all
  ultimately show ?thesis
    unfolding effects_request_def Some option.case Let_def split_beta s1_def [symmetric]
    by (auto intro: tends_trans)
qed (simp add: effects_request_def tends_refl)

lemma tends_apply_shield: "tends s (apply_shield_effects e s)"
  unfolding apply_shield_effects_def
  by (rule tends_trans [OF _ tends_after_request], rule tends_via [OF _ _ tends_request]) simp_all

lemma tends_unlock_view: "tends s (unlock_effects_view e s)"
proof -
  define s1 where "s1 = (case ue_request e of None \<Rightarrow> s | Some r \<Rightarrow> fst (send_gdm r s))"
  define s2 where "s2 = (if ue_start_fingerprint e then fst (send_gdm StartFingerprint s1) else s1)"
  define s3 where "s3 = arm_unlock_message_timer (sync_lock_page_and_caps s2)"
  have "tends s s1" by (rule tends_refl) (simp_all add: s1_def split: option.split)
  moreover have "tends s1 s2" by (rule tends_refl) (simp_all add: s2_def)
  moreover have "tends s2 s3" unfolding s3_def by (rule tends_via [OF _ _ tends_message]) simp_all
  moreover have "tends s3 (unlock_effects_view e s)"
    unfolding unlock_effects_view_def Let_def split_beta s1_def [symmetric] s2_def [symmetric] s3_def [symmetric]
    by (rule tends_refl) simp_all
  ultimately show ?thesis by (meson tends_trans)
qed

section \<open>The invariant of the session\<close>

text \<open>
  The shield's, the wheel's and the dialog's invariants, and that the session mode everything
  else looks at is the one the shield, the greeter and the lock client call for.
\<close>

definition session_ok :: "lock_session \<Rightarrow> bool" where
  "session_ok s \<longleftrightarrow> shield_ok (ls_shield s) \<and> wheel_ok s \<and> dialog_ok (ls_dialog s) \<and>
     ls_mode s = session_mode_of s"

text \<open>
  A step that keeps it, tends the wheel, and leaves no new request for a verifier unwatched.
\<close>

definition goes :: "lock_session \<Rightarrow> lock_session \<Rightarrow> bool" where
  "goes s s' \<longleftrightarrow> tends s s' \<and> ls_greeter s' = ls_greeter s \<and> sh_epoch (ls_shield s) \<le> sh_epoch (ls_shield s') \<and>
     (session_ok s \<longrightarrow> session_ok s' \<and>
       (\<forall>ep. sh_awaiting (ls_shield s') = Some ep
          \<longrightarrow> sh_awaiting (ls_shield s) = Some ep \<or> sh_epoch (ls_shield s) < ep \<and> watches ep s'))"

lemma goes_trans: "goes a b \<Longrightarrow> goes b c \<Longrightarrow> goes a c"
proof -
  assume ab: "goes a b" and bc: "goes b c"
  then have t: "tends a c" "ls_greeter c = ls_greeter a" "sh_epoch (ls_shield a) \<le> sh_epoch (ls_shield c)"
    by (auto simp: goes_def intro: tends_trans)
  show "goes a c"
  proof (cases "session_ok a")
    case True
    with ab have b: "session_ok b" "\<forall>ep. sh_awaiting (ls_shield b) = Some ep
        \<longrightarrow> sh_awaiting (ls_shield a) = Some ep \<or> sh_epoch (ls_shield a) < ep \<and> watches ep b"
      and e: "sh_epoch (ls_shield a) \<le> sh_epoch (ls_shield b)" by (auto simp: goes_def)
    with bc have c: "session_ok c" "\<forall>ep. sh_awaiting (ls_shield c) = Some ep
        \<longrightarrow> sh_awaiting (ls_shield b) = Some ep \<or> sh_epoch (ls_shield b) < ep \<and> watches ep c"
      by (auto simp: goes_def)
    have "watches ep b \<Longrightarrow> watches ep c" for ep
      using bc b(1) tends_watches by (auto simp: goes_def session_ok_def)
    with b(2) c e t show ?thesis by (fastforce simp: goes_def)
  qed (simp add: goes_def t)
qed

lemma mode_of_frame:
  "ls_greeter s' = ls_greeter s \<Longrightarrow> sh_active (ls_shield s') = sh_active (ls_shield s) \<Longrightarrow>
   ls_lock_state s' = ls_lock_state s \<Longrightarrow> session_mode_of s' = session_mode_of s"
  by (simp add: session_mode_of_def screen_is_covered_def wl_is_locked_def)

lemma goes_tends:
  assumes "tends s s'" "ls_shield s' = ls_shield s" "ls_greeter s' = ls_greeter s"
    "ls_lock_state s' = ls_lock_state s" "ls_mode s' = ls_mode s"
    "dialog_ok (ls_dialog s) \<Longrightarrow> dialog_ok (ls_dialog s')"
  shows "goes s s'"
  using assms mode_of_frame [of s' s] by (auto simp: goes_def session_ok_def tends_def)

lemma goes_set:
  assumes "same_wheel s' s" "ls_now s' = ls_now s" "ls_shield s' = ls_shield s" "ls_greeter s' = ls_greeter s"
    "ls_lock_state s' = ls_lock_state s" "ls_mode s' = ls_mode s"
    "dialog_ok (ls_dialog s) \<Longrightarrow> dialog_ok (ls_dialog s')"
  shows "goes s s'"
  using assms by (intro goes_tends tends_refl) auto

text \<open>A step of the shield that asks for nothing and publishes nothing.\<close>

lemma goes_shield:
  assumes "same_wheel s' s" "ls_now s' = ls_now s" "ls_shield s' = shield_step x (ls_shield s)"
    "ls_greeter s' = ls_greeter s" "ls_lock_state s' = ls_lock_state s" "ls_mode s' = ls_mode s"
    "dialog_ok (ls_dialog s) \<Longrightarrow> dialog_ok (ls_dialog s')"
    and "x = OpDrop \<or> (\<exists>st. x = OpSettings st)"
  shows "goes s s'"
proof -
  have t: "tends s s'" using assms by (intro tends_refl) auto
  have a: "sh_active (ls_shield s') = sh_active (ls_shield s)"
    "sh_awaiting (ls_shield s') = Some ep \<Longrightarrow> sh_awaiting (ls_shield s) = Some ep" for ep
    using assms(3,8) by (auto simp: step_defs)
  have "sh_epoch (ls_shield s) \<le> sh_epoch (ls_shield s')" using assms(3) shield_step_epoch by simp
  with mode_of_frame [of s' s] a assms show ?thesis
    by (auto simp: goes_def t session_ok_def shield_step_ok wheel_ok_def)
qed

lemma effects_settle_mode [simp]: "ls_mode (effects_settle s) = session_mode_of (effects_settle s)"
proof -
  have "ls_mode (sync_session_mode r) = session_mode_of (sync_session_mode r)" for r
    using mode_of_frame [of "sync_session_mode r" r] by (simp add: sync_session_mode_def)
  then show ?thesis unfolding effects_settle_def
    by (subst mode_of_frame [of "sync_sleep_inhibitor _"]) simp_all
qed

lemma apply_shield_mode [simp]: "ls_mode (apply_shield_effects e s) = session_mode_of (apply_shield_effects e s)"
  by (simp add: apply_shield_effects_def effects_after_request_def)

lemma ready_answers: "shield_ok sh \<Longrightarrow> sh_awaiting (fst (authenticator_ready ep r sh)) \<noteq> Some ep"
  by (auto simp: authenticator_ready_def shield_ok_def set_locked_def Let_def)

lemma ready_awaits:
  "sh_awaiting (fst (authenticator_ready ep r sh)) = Some ep' \<Longrightarrow> sh_awaiting sh = Some ep'"
  by (auto simp: authenticator_ready_def set_locked_def Let_def split: if_splits)

lemma request_watches:
  assumes "shield_ok (ls_shield s)" "sh_awaiting (ls_shield (effects_request e s)) = Some ep"
  shows "sh_awaiting (ls_shield s) = Some ep \<and> (request_authenticator e = Some ep \<longrightarrow> watches ep (effects_request e s))"
proof (cases "request_authenticator e")
  case None
  with assms show ?thesis by (simp add: effects_request_def)
next
  case (Some ep')
  define s1 where "s1 = fst (ask_verifier ep' s)"
  have sh: "ls_shield s1 = ls_shield s" by (simp add: s1_def)
  have r: "effects_request e s = (if snd (ask_verifier ep' s) then arm_authenticator_watchdog ep' s1
      else apply_answered_effects (snd (authenticator_ready ep' False (ls_shield s1)))
             (s1\<lparr>ls_shield := fst (authenticator_ready ep' False (ls_shield s1))\<rparr>))"
    unfolding effects_request_def Some option.case Let_def split_beta s1_def ..
  show ?thesis
  proof (cases "snd (ask_verifier ep' s)")
    case True
    then have r: "effects_request e s = arm_authenticator_watchdog ep' s1" by (simp add: r)
    from assms(2) sh show ?thesis unfolding r Some by (simp add: tends_watchdog)
  next
    case False
    then have "ls_shield (effects_request e s) = fst (authenticator_ready ep' False (ls_shield s))"
      by (simp add: r sh)
    with assms(2) have a: "sh_awaiting (fst (authenticator_ready ep' False (ls_shield s))) = Some ep" by simp
    then have "ep' \<noteq> ep" using ready_answers [OF assms(1)] by blast
    with Some ready_awaits [OF a] show ?thesis by simp
  qed
qed

lemma request_dialog [simp]: "dialog_ok (ls_dialog s) \<Longrightarrow> dialog_ok (ls_dialog (effects_request e s))"
  by (simp add: effects_request_def apply_answered_effects_def effects_after_ok Let_def split_beta
      split: option.split)

text \<open>Publishing the effects of a step of the shield.\<close>

lemma apply_shield_goes:
  assumes "shield_ok (ls_shield s)" "wheel_ok s" "dialog_ok (ls_dialog s)"
  shows "session_ok (apply_shield_effects e s)"
    and "sh_awaiting (ls_shield (apply_shield_effects e s)) = Some ep \<Longrightarrow> sh_awaiting (ls_shield s) = Some ep \<and>
      (request_authenticator e = Some ep \<longrightarrow> watches ep (apply_shield_effects e s))"
proof -
  define s1 where "s1 = effects_request e (effects_curtain e s)"
  have a: "apply_shield_effects e s = effects_after_request e s1"
    by (simp add: apply_shield_effects_def s1_def)
  have w: "tends s (apply_shield_effects e s)" by (rule tends_apply_shield)
  have d: "dialog_ok (ls_dialog s1)" using assms(3) by (simp add: s1_def)
  show "session_ok (apply_shield_effects e s)"
    using assms moves_ok [OF apply_shield_moves [of s e]] w effects_after_ok [OF d, of e]
    by (simp add: session_ok_def tends_def) (simp add: a)
  show "sh_awaiting (ls_shield s) = Some ep \<and> (request_authenticator e = Some ep \<longrightarrow> watches ep (apply_shield_effects e s))"
    if "sh_awaiting (ls_shield (apply_shield_effects e s)) = Some ep"
  proof -
    have "sh_awaiting (ls_shield s1) = Some ep" using that by (simp add: a)
    then have r: "sh_awaiting (ls_shield s) = Some ep" "request_authenticator e = Some ep \<longrightarrow> watches ep s1"
      using request_watches [of "effects_curtain e s" e ep] assms(1) by (simp_all add: s1_def)
    have "tends (effects_curtain e s) s1" unfolding s1_def by (rule tends_request)
    then have "wheel_ok s1" using assms(2) by (simp add: tends_def wheel_ok_def)
    then have "watches ep s1 \<longrightarrow> watches ep (effects_after_request e s1)"
      using tends_watches [OF tends_after_request] by blast
    with r show ?thesis unfolding a by blast
  qed
qed

definition awaits ::
  "(screen_shield \<Rightarrow> screen_shield \<times> shield_effects) \<Rightarrow> shield_op \<Rightarrow> bool" where
  "awaits f x \<longleftrightarrow> (\<forall>sh. fst (f sh) = shield_step x sh \<and> (\<forall>ep. sh_awaiting (fst (f sh)) = Some ep
     \<longrightarrow> sh_awaiting sh = Some ep \<or> sh_epoch sh < ep \<and> request_authenticator (snd (f sh)) = Some ep))"

lemma set_shield_ok:
  assumes "session_ok s"
  shows "shield_ok (ls_shield (s\<lparr>ls_shield := shield_step x (ls_shield s)\<rparr>))"
    "wheel_ok (s\<lparr>ls_shield := shield_step x (ls_shield s)\<rparr>)"
    "dialog_ok (ls_dialog (s\<lparr>ls_shield := shield_step x (ls_shield s)\<rparr>))"
  using assms by (simp_all add: session_ok_def shield_step_ok wheel_ok_def)

lemma set_shield_epoch:
  "moves P (s\<lparr>ls_shield := shield_step x (ls_shield s)\<rparr>) s' \<Longrightarrow> sh_epoch (ls_shield s) \<le> sh_epoch (ls_shield s')"
  using shield_run_epoch [of "shield_step x (ls_shield s)"] shield_step_epoch [of "ls_shield s" x]
  by (auto simp: moves_def intro: order_trans)

lemma with_shield_goes:
  assumes "awaits f x"
  shows "goes s (with_shield f s)"
proof -
  obtain sh e where f: "f (ls_shield s) = (sh, e)" by (cases "f (ls_shield s)")
  then have sh: "sh = shield_step x (ls_shield s)"
    and aw: "sh_awaiting sh = Some ep \<Longrightarrow> sh_awaiting (ls_shield s) = Some ep \<or>
      sh_epoch (ls_shield s) < ep \<and> request_authenticator e = Some ep" for ep
    using assms by (auto simp: awaits_def dest: spec [of _ "ls_shield s"])
  have w: "with_shield f s = apply_shield_effects e (s\<lparr>ls_shield := sh\<rparr>)" using f by (simp add: with_shield_def)
  have "tends s (with_shield f s)" unfolding w by (rule tends_via [OF _ _ tends_apply_shield]) simp_all
  moreover have "sh_epoch (ls_shield s) \<le> sh_epoch (ls_shield (with_shield f s))"
    using set_shield_epoch [of quiet x s, OF apply_shield_moves] unfolding w sh .
  moreover have "session_ok (with_shield f s) \<and> (\<forall>ep. sh_awaiting (ls_shield (with_shield f s)) = Some ep
      \<longrightarrow> sh_awaiting (ls_shield s) = Some ep \<or> sh_epoch (ls_shield s) < ep \<and> watches ep (with_shield f s))" if "session_ok s"
    using apply_shield_goes [OF set_shield_ok [OF that]] aw unfolding w sh by fastforce
  moreover have "ls_greeter (with_shield f s) = ls_greeter s" by simp
  ultimately show ?thesis by (simp add: goes_def)
qed

lemma with_lock_goes:
  assumes "\<And>sh. fst (f sh) = shield_step x sh"
    and "\<And>sh e ep. snd (f sh) = Inr e \<Longrightarrow> sh_awaiting (fst (f sh)) = Some ep
      \<Longrightarrow> sh_awaiting sh = Some ep \<or> sh_epoch sh < ep \<and> request_authenticator e = Some ep"
    and "\<And>sh r. snd (f sh) = Inl r \<Longrightarrow> fst (f sh) = sh"
  shows "goes s (with_lock f s)"
proof (cases "snd (f (ls_shield s))")
  case (Inl r)
  then have "f (ls_shield s) = (ls_shield s, Inl LockedDown)" using assms(3) by (cases r) (auto simp: prod_eq_iff)
  then show ?thesis by (simp add: with_lock_def goes_set)
next
  case (Inr e)
  then have f: "f (ls_shield s) = (shield_step x (ls_shield s), Inr e)" using assms(1) by (auto simp: prod_eq_iff)
  have w: "with_lock f s = apply_shield_effects e (s\<lparr>ls_shield := shield_step x (ls_shield s)\<rparr>)"
    using f by (simp add: with_lock_def)
  have "tends s (with_lock f s)" unfolding w by (rule tends_via [OF _ _ tends_apply_shield]) simp_all
  moreover have "sh_epoch (ls_shield s) \<le> sh_epoch (ls_shield (with_lock f s))"
    using set_shield_epoch [of quiet x s, OF apply_shield_moves] unfolding w .
  moreover have "session_ok (with_lock f s) \<and> (\<forall>ep. sh_awaiting (ls_shield (with_lock f s)) = Some ep
      \<longrightarrow> sh_awaiting (ls_shield s) = Some ep \<or> sh_epoch (ls_shield s) < ep \<and> watches ep (with_lock f s))" if "session_ok s"
    using apply_shield_goes [OF set_shield_ok [OF that]] assms(2) [OF Inr] f unfolding w by fastforce
  moreover have "ls_greeter (with_lock f s) = ls_greeter s"
    using with_shield_greeter [of "\<lambda>sh. (shield_step x sh, e)" s] by (simp add: w with_shield_def)
  ultimately show ?thesis by (simp add: goes_def)
qed

lemma awaits_ops:
  "awaits deactivate OpDeactivate" "awaits retry_authenticator OpRetry" "awaits authenticator_lost OpLost"
  "awaits (activate now) (OpActivate now)" "awaits (on_session_idle now) (OpIdle now)"
  "awaits on_user_active OpUserActive" "awaits (authenticator_ready ep r) (OpReady ep r)"
  "awaits (fade_complete now) (OpFadeComplete now)" "awaits (prepare_for_sleep b now pm) (OpSleep b now pm)"
  by (auto simp: awaits_def step_defs inv_defs Let_def split: if_splits option.splits sum.splits prod.splits)

lemma lock_goes: "goes s (with_lock (lock now pm) s)" "goes s (with_lock (lock_instant now pm) s)"
  by (rule with_lock_goes [of _ "OpLock now pm"] with_lock_goes [of _ "OpLockInstant now pm"];
      auto simp: step_defs inv_defs Let_def split: if_splits option.splits sum.splits prod.splits)+

section \<open>Every handler keeps the invariant\<close>

lemma take_wiggle_ok [simp]: "dialog_ok (fst (take_wiggle d)) \<longleftrightarrow> dialog_ok d"
  by (simp add: take_wiggle_def dialog_ok_def is_entry_live_def)

lemma set_user_ok [simp]: "dialog_ok d \<Longrightarrow> dialog_ok (set_user user d)"
  by (simp add: set_user_def dialog_ok_def is_entry_live_def)

lemma dialog_set_ok [simp]:
  "dialog_ok d \<Longrightarrow> dialog_ok (set_real_name n d)" "dialog_ok d \<Longrightarrow> dialog_ok (set_peek_locked_down b d)"
  by (simp_all add: set_real_name_def set_peek_locked_down_def Let_def dialog_ok_def is_entry_live_def)

lemma cancel_ok: "dialog_ok d \<Longrightarrow> dialog_ok (fst (cancel d))"
  by (simp add: cancel_def dialog_ok_show_clock)

lemma unlock_view_goes: "goes s (unlock_effects_view e s)"
  by (rule goes_tends [OF tends_unlock_view]) simp_all

lemma apply_verified_goes: "goes s (apply_verified_effects e s)"
proof -
  define s1 where "s1 = unlock_effects_view e s"
  have "goes s s1" unfolding s1_def by (rule unlock_view_goes)
  moreover have "goes s1 (with_shield deactivate s1)" by (rule with_shield_goes [OF awaits_ops(1)])
  ultimately show ?thesis
    unfolding apply_verified_effects_def Let_def s1_def [symmetric] by (auto intro: goes_trans)
qed

lemma goes_dialog: "(dialog_ok (ls_dialog s) \<Longrightarrow> dialog_ok d) \<Longrightarrow> goes s (s\<lparr>ls_dialog := d\<rparr>)"
  by (rule goes_set) simp_all

lemma greeter_ask_user_goes: "goes s (greeter_ask_user user listed s)"
proof -
  define s1 where "s1 = s\<lparr>ls_greeter_visit := ls_greeter_visit s + 1,
    ls_login_page := PromptPage (ui_name user) listed, ls_dialog := set_user user (ls_dialog s),
    ls_shield := drop_authenticator (ls_shield s)\<rparr>"
  define s2 where "s2 = with_shield retry_authenticator s1"
  define r where "r = show_prompt (ls_now s2) (ls_dialog s2)"
  have "goes s s1" by (rule goes_shield [of _ _ OpDrop]) (simp_all add: s1_def)
  moreover have "goes s1 s2" unfolding s2_def by (rule with_shield_goes [OF awaits_ops(2)])
  moreover have "goes s2 (s2\<lparr>ls_dialog := fst r\<rparr>)"
    by (rule goes_dialog) (simp add: r_def dialog_ok_show_prompt)
  moreover have "goes (s2\<lparr>ls_dialog := fst r\<rparr>) (greeter_ask_user user listed s)"
    unfolding greeter_ask_user_def Let_def s1_def [symmetric] s2_def [symmetric] split_beta r_def [symmetric]
    by (rule apply_verified_goes)
  ultimately show ?thesis by (meson goes_trans)
qed

lemma apply_unlock_goes: "goes s (apply_unlock_effects e s)"
proof (cases "ue_name_entered e")
  case None
  then show ?thesis by (simp add: apply_unlock_effects_def apply_verified_goes)
next
  case (Some name)
  from goes_trans [OF greeter_ask_user_goes apply_verified_goes] Some show ?thesis
    by (simp add: apply_unlock_effects_def)
qed

lemma with_dialog_goes:
  "(dialog_ok (ls_dialog s) \<Longrightarrow> dialog_ok (fst (f (ls_dialog s)))) \<Longrightarrow> goes s (with_dialog f s)"
  unfolding with_dialog_def split_beta Let_def by (rule goes_trans [OF goes_dialog apply_unlock_goes])

lemma goes_via_set:
  assumes "goes s1 s'" "same_wheel s1 s" "ls_now s1 = ls_now s" "ls_shield s1 = ls_shield s" "ls_greeter s1 = ls_greeter s"
    "ls_lock_state s1 = ls_lock_state s" "ls_mode s1 = ls_mode s" "dialog_ok (ls_dialog s) \<Longrightarrow> dialog_ok (ls_dialog s1)"
  shows "goes s s'"
  by (rule goes_trans [OF goes_set assms(1)]) (use assms in simp_all)

lemma goes_then_set:
  assumes "goes s s1" "same_wheel s' s1" "ls_now s' = ls_now s1" "ls_shield s' = ls_shield s1" "ls_greeter s' = ls_greeter s1"
    "ls_lock_state s' = ls_lock_state s1" "ls_mode s' = ls_mode s1" "dialog_ok (ls_dialog s1) \<Longrightarrow> dialog_ok (ls_dialog s')"
  shows "goes s s'"
  by (rule goes_trans [OF assms(1) goes_set]) (use assms in simp_all)

lemma name_page_goes: "goes s (with_dialog (ask_username (ls_now s)) (s\<lparr>ls_login_page := NamePage\<rparr>))"
  by (rule goes_via_set [OF with_dialog_goes]) (simp_all add: dialog_ok_ask_username)

lemma greeter_show_start_goes: "goes s (greeter_show_start s)"
proof -
  have "goes s ((with_dialog show_clock s)\<lparr>ls_login_page := Grid\<rparr>)"
    by (rule goes_then_set [OF with_dialog_goes]) (simp_all add: dialog_ok_show_clock)
  then show ?thesis by (simp add: greeter_show_start_def name_page_goes)
qed

lemma greeter_back_goes: "goes s (greeter_back_to_start c s)"
proof -
  define s1 where "s1 = (if c then fst (send_gdm CancelRequest s) else s)"
  define s2 where "s2 = s1\<lparr>ls_shield := drop_authenticator (ls_shield s1),
    ls_greeter_visit := ls_greeter_visit s1 + 1\<rparr>"
  have "goes s s1" by (rule goes_set) (simp_all add: s1_def)
  moreover have "goes s1 s2" by (rule goes_shield [of _ _ OpDrop]) (simp_all add: s2_def)
  moreover have "goes s2 (greeter_back_to_start c s)"
    unfolding greeter_back_to_start_def Let_def s1_def [symmetric] s2_def [symmetric]
    by (rule greeter_show_start_goes)
  ultimately show ?thesis by (meson goes_trans)
qed

lemma goes_refl: "goes s s"
  by (rule goes_set) simp_all

lemma sync_list_goes: "goes s (sync_greeter_user_list s)"
  by (simp add: sync_greeter_user_list_def Let_def greeter_show_start_goes goes_refl)

lemma grid_action_goes: "goes s (on_login_grid_action a shown s)"
proof (cases a)
  case (Pick i)
  then show ?thesis by (simp add: on_login_grid_action_def Let_def greeter_ask_user_goes goes_refl)
qed (simp_all add: on_login_grid_action_def name_page_goes goes_set)

lemma grid_key_goes: "goes s (on_login_grid_key raw mods shown s)"
proof (cases "grid_key_of raw mods")
  case (Some key)
  define r where "r = grid_key_press key (length (ls_login_users s)) (ls_grid s)"
  define s1 where "s1 = s\<lparr>ls_login_dwell := ls_login_dwell s + 1, ls_grid := fst r\<rparr>"
  define s2 where "s2 = dwell_on_focus (snd (snd r)) s1"
  have "goes s s1" by (rule goes_set) (simp_all add: s1_def)
  moreover have "goes s1 s2" by (rule goes_tends) (simp_all add: s2_def tends_dwell)
  ultimately have g: "goes s s2" by (rule goes_trans)
  from g goes_trans [OF g grid_action_goes] show ?thesis
    unfolding on_login_grid_key_def Some option.case Let_def split_beta r_def [symmetric] s1_def [symmetric]
      s2_def [symmetric]
    by (simp split: option.split)
qed (simp add: on_login_grid_key_def goes_refl)

text \<open>A key, which never panics.\<close>

lemma shield_key_dialog_ok:
  assumes "segmentation_ok u" "dialog_ok d"
  shows "\<exists>d' e. shield_key_dialog u raw ch mods theme now d = Some (d', e) \<and> dialog_ok d'"
proof -
  obtain d1 r where k: "entry_key u raw ch mods theme now d = Some (d1, r)" "dialog_ok d1"
    using dialog_ok_entry_key [OF assms] by blast
  have "\<exists>d' e. Some p = Some (d', e) \<and> dialog_ok d'" if "dialog_ok (fst p)" for p :: "unlock_dialog \<times> unlock_effects"
    using that by (cases p) simp
  note lift = this
  show ?thesis
  proof (cases "raw \<in> {Some K_Escape, Some K_Return, Some K_KP_Enter}")
    case True
    then show ?thesis
      using lift [OF dialog_ok_show_prompt [OF assms(2), of now]] lift [OF cancel_ok [OF assms(2)]]
        lift [OF dialog_ok_submit [OF assms(2), of now]]
      unfolding shield_key_dialog_def Let_def by simp blast
  next
    case False
    with k lift [of "show_prompt now d1"] dialog_ok_show_prompt [OF k(2)] show ?thesis
      by (cases r) (simp_all add: shield_key_dialog_def Let_def)
  qed
qed

lemma shield_key_prompt_goes:
  assumes "segmentation_ok u" "dialog_ok (ls_dialog s)"
  shows "\<exists>s'. shield_key_prompt u raw ch mods s = Some s' \<and> goes s s'"
proof -
  obtain d e where k: "shield_key_dialog u raw ch mods (ls_key_theme s) (ls_now s) (ls_dialog s) = Some (d, e)"
    and d: "dialog_ok d" using shield_key_dialog_ok [OF assms] by blast
  define e1 where "e1 = (if ud_page (ls_dialog s) = Clock \<and> ud_page d = Prompt
               then e\<lparr>ue_start_fingerprint := True, ue_redraw := True\<rparr> else e)"
  have "shield_key_prompt u raw ch mods s = Some (apply_unlock_effects e1 (s\<lparr>ls_dialog := d\<rparr>))"
    by (simp add: shield_key_prompt_def k Let_def e1_def)
  moreover have "goes s (s\<lparr>ls_dialog := d\<rparr>)" using d by (intro goes_dialog)
  ultimately show ?thesis using apply_unlock_goes goes_trans by blast
qed

lemma note_activity_goes: "goes s (s\<lparr>ls_screen := x\<rparr>)"
  by (rule goes_set) simp_all

lemma on_shield_key_goes:
  assumes "segmentation_ok u" "dialog_ok (ls_dialog s)"
  shows "\<exists>s'. on_shield_key u raw ch mods shown s = Some s' \<and> goes s s'"
proof -
  define s1 where "s1 = s\<lparr>ls_screen := note_activity (ls_now s) (ls_screen s)\<rparr>"
  have s1: "goes s s1" "dialog_ok (ls_dialog s1)" using assms(2) by (simp_all add: s1_def note_activity_goes)
  obtain s2 where s2: "shield_key_prompt u raw ch mods s1 = Some s2" "goes s1 s2"
    using shield_key_prompt_goes [OF assms(1) s1(2)] by blast
  have "goes s (with_shield deactivate s)" by (rule with_shield_goes [OF awaits_ops(1)])
  then show ?thesis
    unfolding on_shield_key_def Let_def s1_def [symmetric] s2(1)
    using s1(1) goes_trans [OF s1(1) s2(2)] grid_key_goes [of s] greeter_back_goes [of s] goes_refl [of s]
    by simp
qed

lemma switch_user_goes: "goes s (switch_user s)"
proof -
  define s1 where "s1 = with_dialog cancel s"
  define s2 where "s2 = s1\<lparr>ls_screen := note_activity (ls_now s) (ls_screen s1)\<rparr>"
  have "goes s s1" unfolding s1_def by (rule with_dialog_goes) (rule cancel_ok)
  moreover have "goes s1 s2" by (simp add: s2_def note_activity_goes)
  moreover have "goes s2 (goto_login_session s2)" by (rule goes_tends [OF tends_goto(1)]) simp_all
  ultimately show ?thesis
    unfolding switch_user_def Let_def s1_def [symmetric] s2_def [symmetric] by (meson goes_trans)
qed

lemma present_goes:
  "goes s (arm_shield_present_wait s)" "goes s (clear_shield_present_wait s)"
  "goes s (note_shield_frame_presented out s)" "goes s (hold_blank_until_switched s)" "goes s (session_paused s)"
  by (rule goes_tends; simp add: tends_present tends_presented tends_arm tends_goto)+

lemma activate_switch_user_goes: "goes s (activate_switch_user s)"
proof -
  define s1 where "s1 = hold_blank_until_switched s"
  define s2 where "s2 = with_lock (lock_instant (ls_now s1)
    (password_mode_is_none (ua_password_mode (ls_account s1)))) s1"
  define s3 where "s3 = s2\<lparr>ls_switch_user_on_frame := True\<rparr>"
  define s4 where "s4 = arm_shield_present_wait s3"
  have "goes s s1" "goes s1 s2" "goes s3 s4"
    by (simp_all add: s1_def s2_def s4_def present_goes lock_goes)
  moreover have "goes s2 s3" by (rule goes_set) (simp_all add: s3_def)
  ultimately have g: "goes s s4" by (meson goes_trans)
  from g goes_trans [OF g present_goes(2)] show ?thesis
    unfolding activate_switch_user_def Let_def s1_def [symmetric] s2_def [symmetric] s3_def [symmetric]
      s4_def [symmetric]
    by simp
qed

lemma on_shield_click_goes: "goes s (on_shield_click c s)"
proof -
  define s1 where "s1 = s\<lparr>ls_login_dwell := ls_login_dwell s + 1\<rparr>"
  define s2 where "s2 = s1\<lparr>ls_screen := note_activity (ls_now s1) (ls_screen s1)\<rparr>"
  define g where "g = grid_click (ck_grid c) (ls_grid s1)"
  define s3 where "s3 = s1\<lparr>ls_grid := fst g\<rparr>"
  have s1: "goes s s1" by (rule goes_set) (simp_all add: s1_def)
  have "goes s1 s2" "goes s1 s3" by (rule goes_set; simp add: s2_def s3_def)+
  with s1 have s2: "goes s s2" and s3: "goes s s3" by (blast intro: goes_trans)+
  have "goes s (with_shield deactivate s1)" by (rule goes_trans [OF s1 with_shield_goes [OF awaits_ops(1)]])
  moreover have "goes s (with_dialog (toggle_peek (ls_now s2)) s2)"
    by (rule goes_trans [OF s2 with_dialog_goes]) (rule dialog_ok_toggle_peek)
  moreover have "goes s (with_dialog (show_prompt (ls_now s2)) s2)"
    by (rule goes_trans [OF s2 with_dialog_goes]) (rule dialog_ok_show_prompt)
  moreover have "goes s (switch_user s2)" by (rule goes_trans [OF s2 switch_user_goes])
  moreover have "goes s (on_login_grid_action a b s3)" for a b by (rule goes_trans [OF s3 grid_action_goes])
  moreover have "goes s (s1\<lparr>ls_popover_open := b\<rparr>)" for b
    by (rule goes_trans [OF s1 goes_set]) simp_all
  ultimately show ?thesis
    unfolding on_shield_click_def Let_def s1_def [symmetric] s2_def [symmetric] g_def [symmetric]
      split_beta s3_def [symmetric]
    using s1 s3 by (simp add: goes_refl split: option.split)
qed

lemma login1_goes: "goes s (on_login1_msg msg s)"
proof (cases msg)
  case (SessionLock b)
  then show ?thesis
    by (cases b) (simp_all add: on_login1_msg_def lock_goes with_shield_goes [OF awaits_ops(1)])
next
  case (SessionActive active)
  define s1 where "s1 = sync_sleep_inhibitor (s\<lparr>ls_session_active := active\<rparr>)"
  define s2 where "s2 = (if is_asking_a_user (ls_login_page s1) then greeter_back_to_start True s1 else s1)"
  have s1: "goes s s1" by (rule goes_set) (simp_all add: s1_def)
  moreover have "goes s1 s2" by (simp add: s2_def greeter_back_goes goes_refl)
  moreover have "goes s2 (s2\<lparr>ls_screen := x\<rparr>)" for x by (rule note_activity_goes)
  ultimately have "goes s (s2\<lparr>ls_screen := x\<rparr>)" for x by (meson goes_trans)
  with s1 show ?thesis
    unfolding SessionActive on_login1_msg_def Let_def login1_msg.case s1_def [symmetric] s2_def [symmetric]
    by simp
next
  case (PrepareForSleep b)
  define s1 where "s1 = (if b then (if \<not> shield_curtain_landed s then arm_shield_present_wait s else s)
    else clear_shield_present_wait s)"
  define s2 where "s2 = with_shield (prepare_for_sleep b (ls_now s) False) s1"
  have "goes s s1" by (simp add: s1_def present_goes goes_refl)
  moreover have "goes s1 s2" unfolding s2_def by (rule with_shield_goes [OF awaits_ops(9)])
  ultimately have g: "goes s s2" by (rule goes_trans)
  from g goes_trans [OF g present_goes(2)] show ?thesis
    unfolding PrepareForSleep on_login1_msg_def Let_def login1_msg.case s1_def [symmetric] s2_def [symmetric]
    by simp
qed

lemma saver_goes: "goes s (on_screen_saver_msg msg s)"
proof (cases msg)
  case (SaverLock reply)
  define s1 where "s1 = s\<lparr>ls_lock_replies := ls_lock_replies s @ (case reply of None \<Rightarrow> [] | Some r \<Rightarrow> [r])\<rparr>"
  define pm where "pm = password_mode_is_none (ua_password_mode (ls_account s))"
  have "goes s s1" by (rule goes_set) (simp_all add: s1_def)
  then have 1: "goes s (with_lock (lock (ls_now s) pm) s1)" using lock_goes(1) by (rule goes_trans)
  obtain sh r where l: "lock (ls_now s) pm (ls_shield s) = (sh, r)" by (cases "lock (ls_now s) pm (ls_shield s)")
  show ?thesis
  proof (cases r)
    case (Inl x)
    with l have "sh = ls_shield s" by (auto simp: lock_def Let_def split: if_splits prod.splits)
    with l Inl SaverLock show ?thesis by (cases x) (simp add: on_screen_saver_msg_def pm_def goes_set)
  next
    case (Inr e)
    have swap: "s\<lparr>ls_shield := sh, ls_lock_replies := ls_lock_replies s @ (case reply of None \<Rightarrow> [] | Some r \<Rightarrow> [r])\<rparr>
        = s1\<lparr>ls_shield := sh\<rparr>" by (simp add: s1_def)
    have "ls_shield s1 = ls_shield s" by (simp add: s1_def)
    with 1 l Inr have "goes s (apply_shield_effects e (s1\<lparr>ls_shield := sh\<rparr>))" by (simp add: with_lock_def)
    then show ?thesis
      unfolding SaverLock on_screen_saver_msg_def pm_def [symmetric] screen_saver_msg.case l Inr prod.case sum.case swap .
  qed
next
  case (SetActive b)
  then show ?thesis
    by (cases b) (simp_all add: on_screen_saver_msg_def with_shield_goes [OF awaits_ops(4)] with_shield_goes [OF awaits_ops(1)])
qed

lemma presence_goes: "goes s (on_presence_msg st s)"
  using with_shield_goes [OF awaits_ops(5)] with_shield_goes [OF awaits_ops(6)]
  by (cases st) (simp_all add: on_presence_msg_def goes_refl)

lemma accounts_goes: "goes s (on_accounts_msg msg s)"
proof (cases msg)
  case (Users us)
  define s1 where "s1 = s\<lparr>ls_login_users_loaded := True\<rparr>"
  define s2 where "s2 = s1\<lparr>ls_login_users := us,
    ls_grid := (if ls_login_users s1 = [] then grid_reset (length us) (ls_grid s1)
                else grid_clamp (length us) (ls_grid s1))\<rparr>"
  have "goes s s1" "goes s1 s2" by (rule goes_set; simp add: s1_def s2_def)+
  then have "goes s s1" "goes s (sync_greeter_user_list s1)" "goes s (sync_greeter_user_list s2)"
    using sync_list_goes by (blast intro: goes_trans)+
  with Users show ?thesis
    unfolding on_accounts_msg_def Let_def Users accounts_msg.case s1_def [symmetric] s2_def [symmetric] by simp
qed (simp_all add: on_accounts_msg_def goes_set)

lemma goes_timer: "goes s (snd (timer_after t k s))"
  by (rule goes_tends [OF tends_timer(2)]) simp_all

lemma verifier_gate_goes: "goes s (verifier_gate ev s)"
proof (cases ev)
  case Lost
  have "goes s (s\<lparr>ls_shield := drop_authenticator (ls_shield s)\<rparr>)"
    by (rule goes_shield [of _ _ OpDrop]) simp_all
  with Lost show ?thesis using with_shield_goes [OF awaits_ops(3), of s]
    by (simp add: verifier_gate_def)
next
  case (SessionOpened service)
  have "goes s (fst (send_gdm r s))" for r by (rule goes_set) simp_all
  moreover have "goes s (snd (timer_after t k (s\<lparr>ls_screen := x\<rparr>)))" for t k x
    by (rule goes_trans [OF note_activity_goes goes_timer])
  ultimately show ?thesis using SessionOpened by (simp add: verifier_gate_def goes_refl)
qed (simp_all add: verifier_gate_def goes_refl Let_def goes_timer with_shield_goes [OF awaits_ops(7)])

lemma on_verifier_message_goes: "goes s (on_verifier_message ev s)"
  unfolding on_verifier_message_def Let_def
  by (rule goes_trans [OF verifier_gate_goes with_dialog_goes]) (rule dialog_ok_event)

lemma sync_foreground_goes: "goes s (sync_verifier_foreground s)"
proof (cases "ls_verifier_foreground s")
  case (Some began)
  define s1 where "s1 = s\<lparr>ls_verifier_foreground := None\<rparr>"
  define s2 where "s2 = fst (send_gdm CancelRequest s1)"
  define s2' where "s2' = s2\<lparr>ls_shield := drop_authenticator (ls_shield s2)\<rparr>"
  define s3 where "s3 = with_shield retry_authenticator s2'"
  define r where "r = on_verifier_event Reset (ls_now s3) (ls_dialog s3)"
  define s4 where "s4 = apply_unlock_effects ((snd r)\<lparr>ue_start_fingerprint := (ud_page (fst r) = Prompt)\<rparr>)
    (s3\<lparr>ls_dialog := fst r\<rparr>)"
  have s1: "goes s s1" by (rule goes_set) (simp_all add: s1_def)
  moreover have "goes s1 s2" by (rule goes_set) (simp_all add: s2_def)
  moreover have "goes s2 s2'" by (rule goes_shield [of _ _ OpDrop]) (simp_all add: s2'_def)
  moreover have "goes s2' s3" unfolding s3_def by (rule with_shield_goes [OF awaits_ops(2)])
  moreover have "goes s3 s4"
    unfolding s4_def r_def by (rule goes_trans [OF goes_dialog apply_unlock_goes]) (rule dialog_ok_event)
  ultimately have "goes s s4" by (meson goes_trans)
  moreover have "goes s (greeter_back_to_start True s1)" by (rule goes_trans [OF s1 greeter_back_goes])
  ultimately show ?thesis
    unfolding sync_verifier_foreground_def Some option.case Let_def s1_def [symmetric] s2_def [symmetric]
      s2'_def [symmetric] s3_def [symmetric] r_def [symmetric] split_beta s4_def [symmetric]
    using s1 by (simp add: goes_refl)
qed (simp add: sync_verifier_foreground_def goes_refl)

lemma reader_goes: "goes s (on_fingerprint_reader r s)"
proof -
  have "goes s (sync_verifier_foreground (s\<lparr>ls_reader := r\<rparr>))"
    by (rule goes_trans [OF goes_set sync_foreground_goes]) simp_all
  then show ?thesis by (simp add: on_fingerprint_reader_def goes_refl)
qed

lemma settings_goes: "goes s (on_settings_changed st af dul theme s)"
proof -
  define s1 where "s1 = s\<lparr>ls_settings := st, ls_allowed_failures := af,
                ls_disable_user_list := dul, ls_key_theme := theme,
                ls_shield := shield_set_settings st (ls_shield s),
                ls_dialog := set_peek_locked_down (disable_show_password st) (ls_dialog s)\<rparr>"
  define s2 where "s2 = sync_verifier_foreground (sync_greeter_user_list s1)"
  have "goes s s1" by (rule goes_shield [of _ _ "OpSettings st"]) (simp_all add: s1_def)
  moreover have "goes s1 s2" unfolding s2_def by (rule goes_trans [OF sync_list_goes sync_foreground_goes])
  moreover have "goes s2 (sync_sleep_inhibitor s2)" by (rule goes_set) simp_all
  ultimately show ?thesis
    unfolding on_settings_changed_def Let_def s1_def [symmetric] s2_def [symmetric] by (meson goes_trans)
qed

lemma minute_goes: "goes s (minute_tick s)"
  by (simp add: minute_tick_def with_dialog_goes dialog_ok_tick goes_refl)

lemma update_render_goes: "goes s (update_render s)"
  by (rule goes_set) (simp_all add: update_render_def)

section \<open>The timers\<close>

text \<open>A callback forgets its own handle: the timer it names is gone.\<close>

lemma tends_forget:
  "tends s (s\<lparr>ls_fade_timer := None\<rparr>)" "tends s (s\<lparr>ls_lock_timer := None\<rparr>)"
  "tends s (s\<lparr>ls_message_timer := None\<rparr>)" "tends s (s\<lparr>ls_leaving_for_login := None\<rparr>)"
  by (simp_all add: tends_def wheel_ok_def use_refl)

lemma goes_forget:
  "goes s (s\<lparr>ls_fade_timer := None\<rparr>)" "goes s (s\<lparr>ls_lock_timer := None\<rparr>)"
  "goes s (s\<lparr>ls_message_timer := None\<rparr>)" "goes s (s\<lparr>ls_leaving_for_login := None\<rparr>)"
  by (rule goes_tends; simp add: tends_forget)+

lemma run_timer_goes: "goes s (run_timer k s)"
proof (cases k)
  case TFade
  then show ?thesis
    using goes_trans [OF goes_forget(1) with_shield_goes [OF awaits_ops(8)]] by simp
next
  case TLock
  then show ?thesis
    using goes_trans [OF goes_forget(2) lock_goes(1)] goes_forget(2) by (simp add: Let_def)
next
  case TMessage
  have "goes (s\<lparr>ls_message_timer := None\<rparr>) (with_dialog (tick (ls_now s)) (s\<lparr>ls_message_timer := None\<rparr>))"
    by (rule with_dialog_goes) (rule dialog_ok_tick)
  with TMessage show ?thesis using goes_trans [OF goes_forget(3)] by simp
next
  case (TStartSession service)
  have "goes s (fst (send_gdm r s))" for r by (rule goes_set) simp_all
  with TStartSession show ?thesis by simp
next
  case TLeaving
  define s1 where "s1 = s\<lparr>ls_leaving_for_login := None\<rparr>"
  have s1: "goes s s1" unfolding s1_def by (rule goes_forget)
  have "goes s (s1\<lparr>ls_blank_parked := False, ls_monitors_off := True\<rparr>)"
    by (rule goes_then_set [OF s1]) simp_all
  with s1 TLeaving show ?thesis unfolding TLeaving run_timer.simps Let_def s1_def [symmetric] by simp
qed (simp_all add: goes_refl greeter_back_goes grid_action_goes present_goes
      with_shield_goes [OF awaits_ops(7)] with_shield_goes [OF awaits_ops(2)])

text \<open>The session is a client of the timers, and none of its callbacks repeats.\<close>

interpretation session_timers: one_shot_client ls_timers put_timers exec_timer
proof
  show "exec_timer c d = (c', d', again) \<Longrightarrow> wheel_use (ls_timers d) (ls_timers d')" for c d c' d' again
    using run_timer_goes [of d c] by (auto simp: exec_timer_def goes_def tends_def)
qed (simp_all add: exec_timer_def)

text \<open>Every open request for a verifier has its watchdog.\<close>

definition watched :: "lock_session \<Rightarrow> bool" where
  "watched s \<longleftrightarrow> (\<forall>ep. sh_awaiting (ls_shield s) = Some ep \<longrightarrow> watches ep s)"

lemma goes_watched: "goes s s' \<Longrightarrow> session_ok s \<Longrightarrow> watched s \<Longrightarrow> session_ok s' \<and> watched s'"
  using tends_watches [of s s'] by (auto simp: goes_def watched_def session_ok_def)

text \<open>
  The watchdog of a request among the first \<open>n\<close> timers. A handler keeps it, and the callback it
  runs answers the request, so a dispatch cannot lose it and leave the request open.
\<close>

definition watched_since :: "nat \<Rightarrow> nat \<Rightarrow> lock_session \<Rightarrow> bool" where
  "watched_since n ep s \<longleftrightarrow> (sh_awaiting (ls_shield s) = Some ep \<longrightarrow>
     (\<exists>e \<in> set (tms_entries (ls_timers s)). tm_callback e = TWatchdog ep \<and> tm_token e < n \<and>
        tm_deadline e \<le> ls_now s + AUTHENTICATOR_TIMEOUT))"

lemma goes_since:
  assumes "goes s s'" "session_ok s" "watched_since n ep s" "ep \<le> sh_epoch (ls_shield s)"
  shows "watched_since n ep s'"
proof -
  have "watchdogs (ls_timers s) \<subseteq> watchdogs (ls_timers s')" "ls_now s' = ls_now s"
    using assms(1,2) by (auto simp: goes_def tends_def session_ok_def)
  moreover have "sh_awaiting (ls_shield s') = Some ep \<longrightarrow> sh_awaiting (ls_shield s) = Some ep"
    using assms by (auto simp: goes_def)
  ultimately show ?thesis using assms(3) by (fastforce simp: watched_since_def watchdogs_def)
qed

lemma watchdog_answers:
  assumes "session_ok s"
  shows "sh_awaiting (ls_shield (run_timer (TWatchdog ep) s)) \<noteq> Some ep"
proof
  assume a: "sh_awaiting (ls_shield (run_timer (TWatchdog ep) s)) = Some ep"
  let ?r = "authenticator_ready ep False (ls_shield s)"
  have r: "fst ?r = shield_step (OpReady ep False) (ls_shield s)" by simp
  have w: "run_timer (TWatchdog ep) s = apply_shield_effects (snd ?r) (s\<lparr>ls_shield := fst ?r\<rparr>)"
    by (simp add: with_shield_def split_beta)
  from apply_shield_goes(2) [OF set_shield_ok [OF assms], of "snd ?r" "OpReady ep False" ep] a
  have "sh_awaiting (fst ?r) = Some ep" unfolding w r by simp
  moreover have "shield_ok (ls_shield s)" using assms by (simp add: session_ok_def)
  ultimately show False using ready_answers by blast
qed

lemma lift_out_own: "own k tok ts \<Longrightarrow> own k tok (lift_out t ts)"
  using lift_out_subset [of t ts] by (auto simp: own_def split: option.splits)

lemma lifted_ok: "session_ok s \<Longrightarrow> session_ok (put_timers (lift_out t (ls_timers s)) s)"
  by (simp add: session_ok_def wheel_ok_def timers_ok_lift_out lift_out_own)
     (simp add: session_mode_of_def screen_is_covered_def wl_is_locked_def)

lemma put_back_once [simp]:
  "tms_entries (put_back now e c None ts) = tms_entries ts"
  "tms_next_token (put_back now e c None ts) = tms_next_token ts"
  by (simp_all add: put_back_def Let_def)

lemma put_back_ok: "session_ok (put_timers (put_back now e c None (ls_timers s)) s) \<longleftrightarrow> session_ok s"
  by (simp add: session_ok_def wheel_ok_def timers_ok_def own_def session_mode_of_def screen_is_covered_def
      wl_is_locked_def split: option.split)

lemma fire_session: "fire ls_timers put_timers exec_timer now e s =
   (let s1 = run_timer (tm_callback e) (put_timers (lift_out (tm_token e) (ls_timers s)) s)
    in put_timers (put_back now e (tm_callback e) None (ls_timers s1)) s1)"
  by (simp add: fire_def exec_timer_def Let_def)

lemma fire_keeps:
  fixes now :: duration
  assumes "session_ok s" "e \<in> set (tms_entries (ls_timers s))"
  defines "s' \<equiv> fire ls_timers put_timers exec_timer now e s"
  shows "session_ok s'" "ls_now s' = ls_now s" "sh_epoch (ls_shield s) \<le> sh_epoch (ls_shield s')"
    "ls_greeter s' = ls_greeter s"
    and "sh_awaiting (ls_shield s') = Some ep \<Longrightarrow> (sh_epoch (ls_shield s) < ep \<and> watches ep s') \<or>
      (sh_awaiting (ls_shield s) = Some ep \<and> tm_callback e \<noteq> TWatchdog ep \<and>
       watchdogs (ls_timers s) - {e} \<subseteq> watchdogs (ls_timers s'))"
proof -
  define s0 where "s0 = put_timers (lift_out (tm_token e) (ls_timers s)) s"
  define s1 where "s1 = run_timer (tm_callback e) s0"
  have s': "s' = put_timers (put_back now e (tm_callback e) None (ls_timers s1)) s1"
    by (simp add: s'_def fire_session Let_def s0_def s1_def)
  have ok: "session_ok s0" using assms(1) by (simp add: s0_def lifted_ok)
  have g: "goes s0 s1" unfolding s1_def by (rule run_timer_goes)
  show "session_ok s'" using g ok by (simp add: s' put_back_ok goes_def)
  show "ls_now s' = ls_now s" "sh_epoch (ls_shield s) \<le> sh_epoch (ls_shield s')" "ls_greeter s' = ls_greeter s"
    using g by (simp_all add: s' s0_def goes_def tends_def)
  assume "sh_awaiting (ls_shield s') = Some ep"
  then have a: "sh_awaiting (ls_shield s1) = Some ep" by (simp add: s')
  with g ok have "sh_awaiting (ls_shield s) = Some ep \<or> sh_epoch (ls_shield s) < ep \<and> watches ep s1"
    by (auto simp: goes_def s0_def)
  moreover have "watches ep s1 \<longleftrightarrow> watches ep s'" by (simp add: s' watches_def watching_def)
  moreover have "tm_callback e \<noteq> TWatchdog ep"
    using a watchdog_answers [OF ok] by (auto simp: s1_def)
  moreover have "watchdogs (ls_timers s) - {e} \<subseteq> watchdogs (ls_timers s0)"
  proof -
    have "timers_ok (ls_timers s)" using assms(1) by (simp add: session_ok_def wheel_ok_def)
    then show ?thesis
      using assms(2) by (auto simp: s0_def watchdogs_def lift_out_entries timers_ok_def dest: inj_onD simp: distinct_map)
  qed
  moreover have "watchdogs (ls_timers s0) \<subseteq> watchdogs (ls_timers s')"
    using g ok by (simp add: goes_def tends_def session_ok_def s' watchdogs_def)
  ultimately show "(sh_epoch (ls_shield s) < ep \<and> watches ep s') \<or>
      (sh_awaiting (ls_shield s) = Some ep \<and> tm_callback e \<noteq> TWatchdog ep \<and>
       watchdogs (ls_timers s) - {e} \<subseteq> watchdogs (ls_timers s'))"
    by blast
qed

lemma fire_watched:
  assumes "session_ok s" "e \<in> set (tms_entries (ls_timers s))" "watched s"
  shows "watched (fire ls_timers put_timers exec_timer now e s)"
  unfolding watched_def
proof (intro allI impI)
  fix ep
  assume "sh_awaiting (ls_shield (fire ls_timers put_timers exec_timer now e s)) = Some ep"
  from fire_keeps(5) [OF assms(1,2) this] fire_keeps(2) [OF assms(1,2), of now] assms(3)
  show "watches ep (fire ls_timers put_timers exec_timer now e s)"
    by (fastforce simp: watched_def watches_def watching_def watchdogs_def)
qed

lemma fire_since:
  assumes "session_ok s" "e \<in> set (tms_entries (ls_timers s))" "watched_since n ep s" "ep \<le> sh_epoch (ls_shield s)"
  shows "watched_since n ep (fire ls_timers put_timers exec_timer now e s)"
proof -
  have "sh_awaiting (ls_shield (fire ls_timers put_timers exec_timer now e s)) = Some ep \<Longrightarrow>
      sh_awaiting (ls_shield s) = Some ep \<and> tm_callback e \<noteq> TWatchdog ep \<and>
      watchdogs (ls_timers s) - {e} \<subseteq> watchdogs (ls_timers (fire ls_timers put_timers exec_timer now e s))"
    using fire_keeps(5) [OF assms(1,2), of now ep] assms(4) by auto
  with fire_keeps(2) [OF assms(1,2), of now] assms(3) show ?thesis
    by (fastforce simp: watched_since_def watchdogs_def)
qed

text \<open>A turn of the loop.\<close>

lemma clock_ok:
  "session_ok (s\<lparr>ls_now := t, ls_monotonic := m\<rparr>) \<longleftrightarrow> session_ok s"
  by (simp add: session_ok_def wheel_ok_def session_mode_of_def screen_is_covered_def wl_is_locked_def)

lemma clock_watched:
  "watched s \<Longrightarrow> ls_now s \<le> t \<Longrightarrow> watched (s\<lparr>ls_now := t, ls_monotonic := m\<rparr>)"
  by (fastforce simp: watched_def watches_def watching_def)

lemma pass_time_ok:
  assumes "session_ok s" "watched s"
  shows "session_ok (pass_time dt s) \<and> watched (pass_time dt s) \<and> ls_greeter (pass_time dt s) = ls_greeter s"
proof -
  define s1 where "s1 = s\<lparr>ls_now := ls_now s + dt, ls_monotonic := ls_monotonic s + dt\<rparr>"
  define P where "P = (\<lambda>r. session_ok r \<and> watched r \<and> ls_greeter r = ls_greeter s)"
  have "P s1" using assms by (simp add: P_def s1_def clock_ok clock_watched)
  then have "P (dispatch_due ls_timers put_timers exec_timer now due s1)" for now due
    by (intro dispatch_due_preserves [where P = P]) (auto simp: P_def fire_keeps fire_watched)
  then show ?thesis unfolding pass_time_def Let_def s1_def [symmetric] dispatch_from_def P_def .
qed

lemma pass_time_answers:
  assumes "session_ok s" "watched s" "sh_awaiting (ls_shield s) = Some ep" "AUTHENTICATOR_TIMEOUT \<le> dt"
  shows "sh_awaiting (ls_shield (pass_time dt s)) \<noteq> Some ep"
proof
  assume aw: "sh_awaiting (ls_shield (pass_time dt s)) = Some ep"
  define s1 where "s1 = s\<lparr>ls_now := ls_now s + dt, ls_monotonic := ls_monotonic s + dt\<rparr>"
  define n where "n = tms_next_token (ls_timers s)"
  define P where "P = (\<lambda>s'. session_ok s' \<and> ls_now s' = ls_now s + dt \<and> ep \<le> sh_epoch (ls_shield s') \<and>
    (sh_awaiting (ls_shield s') = Some ep \<longrightarrow> (\<exists>e \<in> set (tms_entries (ls_timers s')). tm_callback e = TWatchdog ep \<and>
       tm_token e < n \<and> tm_deadline e \<le> ls_now s + dt)))"
  have s1: "P s1"
    using assms unfolding P_def s1_def n_def clock_ok
    by (fastforce simp: session_ok_def shield_ok_def watched_def watches_def watching_def wheel_ok_def timers_ok_def)
  have p: "P (pass_time dt s)"
    unfolding pass_time_def Let_def s1_def [symmetric] dispatch_from_def
  proof (rule dispatch_due_preserves [where P = P])
    show "P s1" by (rule s1)
    fix e d
    assume d: "P d" "e \<in> set (tms_entries (ls_timers d))"
    then have ok: "session_ok d" by (simp add: P_def)
    note k = fire_keeps [OF ok d(2), of "ls_now s1"]
    from d k(1-3) k(5) [of ep] show "P (fire ls_timers put_timers exec_timer (ls_now s1) e d)"
      unfolding P_def by (fastforce simp: watchdogs_def)
  qed
  with aw obtain e where e: "e \<in> set (tms_entries (ls_timers (pass_time dt s)))" "tm_token e < n"
    "tm_deadline e \<le> ls_now s + dt" by (auto simp: P_def)
  have "timers_ok (ls_timers s1)" using s1 by (simp add: P_def session_ok_def wheel_ok_def)
  from session_timers.dispatch_clears_due [OF this, of e "ls_now s1"] e show False
    by (simp add: pass_time_def Let_def s1_def n_def)
qed

lemma session_step_ok:
  assumes "segmentation_ok u" "session_ok s" "watched s"
  shows "\<exists>s' t. session_step u x s = Some (s', t) \<and> session_ok s' \<and> watched s' \<and> ls_greeter s' = ls_greeter s"
proof -
  have lift: "goes s r \<Longrightarrow> session_ok r \<and> watched r \<and> ls_greeter r = ls_greeter s" for r
    using goes_watched [OF _ assms(2,3)] by (auto simp: goes_def)
  then have step: "goes s r \<Longrightarrow> \<exists>s' t. Some (r, ()) = Some (s', t) \<and> session_ok s' \<and> watched s' \<and>
      ls_greeter s' = ls_greeter s" for r by simp
  show ?thesis
  proof (cases x)
    case (SKey raw ch mods shown)
    have "dialog_ok (ls_dialog s)" using assms(2) by (simp add: session_ok_def)
    then obtain s' where "on_shield_key u raw ch mods shown s = Some s'" "goes s s'"
      using on_shield_key_goes [OF assms(1)] by blast
    with lift [of s'] SKey show ?thesis by simp
  next
    case (SPass dt)
    with pass_time_ok [OF assms(2,3)] show ?thesis by simp
  next
    case (SPreedit p)
    have "goes s (s\<lparr>ls_dialog := fst (dialog_set_preedit p (ls_dialog s))\<rparr>)"
      by (rule goes_dialog) (simp add: dialog_set_preedit_def Let_def split_beta dialog_ok_def is_entry_live_def)
    with lift SPreedit show ?thesis by simp
  qed (simp only: session_step.simps, rule step,
       simp add: on_shield_click_goes login1_goes saver_goes presence_goes accounts_goes
         on_verifier_message_goes reader_goes settings_goes update_render_goes present_goes minute_goes
         activate_switch_user_goes goes_set)+
qed

interpretation session: total_machine "session_step u"
  "\<lambda>s. segmentation_ok u \<and> session_ok s \<and> watched s \<and> ls_greeter s = g" for u g
  by unfold_locales (use session_step_ok in blast)

lemma session_ok_new: "session_ok (new_session user nested inst)" "watched (new_session user nested inst)"
  by (simp_all add: session_ok_def new_session_def shield_ok_new wheel_ok_def watched_def session_mode_of_def
      screen_is_covered_def wl_is_locked_def current_mode_def)
     (simp_all add: new_shield_def)

lemma session_ok_greeter: "session_ok (new_greeter user nested inst)" "watched (new_greeter user nested inst)"
proof -
  define s where "s = (new_session user nested inst)\<lparr>ls_greeter := True\<rparr>"
  define s1 where "s1 = s\<lparr>ls_grid := grid_reset (length (ls_login_users s)) (ls_grid s),
    ls_shield := show_dialog (ls_shield s),
    ls_screen := settle (set_page True (ls_now s) (set_shown True (ls_now s) (ls_screen s)))\<rparr>"
  have sh: "ls_shield s1 = shield_step OpShowDialog (new_shield default_shield_settings)"
    by (simp add: s1_def s_def new_session_def)
  have "session_ok (sync_session_mode s1)"
    using shield_step_ok [OF shield_ok_new, of OpShowDialog default_shield_settings]
    by (simp add: session_ok_def wheel_ok_def sh)
       (simp add: s1_def s_def new_session_def sync_session_mode_def session_mode_of_def screen_is_covered_def
         wl_is_locked_def)
  moreover have "watched (sync_session_mode s1)" by (simp add: watched_def sh show_dialog_def new_shield_def)
  moreover have "new_greeter user nested inst = greeter_show_start (sync_session_mode s1)"
    unfolding new_greeter_def show_greeter_dialog_def Let_def s_def s1_def ..
  ultimately show "session_ok (new_greeter user nested inst)" "watched (new_greeter user nested inst)"
    using goes_watched [OF greeter_show_start_goes] by auto
qed

section \<open>Properties of the session\<close>



text \<open>
  C20. A silent gdm cannot hold the shield. In any reachable state of a session with a request
  for a verifier still open, letting the authenticator's timeout pass closes that request: the
  shield is no longer waiting for it, whatever else came due meanwhile, and a lock that was
  there still holds.
\<close>

theorem session_request_times_out:
  assumes "segmentation_ok u" and "session_run u xs (new_session user nested inst) = Some (s, ts)"
    and "sh_awaiting (ls_shield s) = Some ep" and "AUTHENTICATOR_TIMEOUT \<le> dt"
  shows "\<exists>s'. session_step u (SPass dt) s = Some (s', ()) \<and> sh_awaiting (ls_shield s') \<noteq> Some ep \<and>
     (sh_locked (ls_shield s) \<longrightarrow> sh_locked (ls_shield s'))"
proof -
  have "session_ok s" "watched s"
    using session.prun_inv [OF _ assms(2), of "ls_greeter (new_session user nested inst)"] assms(1) session_ok_new
    by auto
  from pass_time_answers [OF this assms(3,4)] quiet_locked [OF pass_time_quiet]
  show ?thesis by simp
qed

text \<open>A session that was asked to lock, with a gdm that took the request and never answers.\<close>

lemma asked_shield:
  assumes "request_authenticator e = Some ep" "ls_gdm s = OpenSender"
  shows "ls_shield (apply_shield_effects e s) = ls_shield s"
proof -
  have "ls_gdm (effects_curtain e s) = OpenSender" using assms(2) by (simp add: effects_curtain_def Let_def)
  then have "snd (ask_verifier ep (effects_curtain e s))" by (simp add: ask_verifier_def send_gdm_def Let_def)
  with assms(1) show ?thesis by (simp add: apply_shield_effects_def effects_request_def split_beta)
qed

lemma asked_session:
  "\<exists>s ts. session_run char_segmentation [SChannel OpenSender, SSaver (SaverLock None)]
     (new_session default_user False True) = Some (s, ts) \<and> sh_awaiting (ls_shield s) = Some 1"
proof -
  define s0 where "s0 = (new_session default_user False True)\<lparr>ls_gdm := OpenSender\<rparr>"
  have s0: "ls_gdm s0 = OpenSender" "ls_shield s0 = new_shield default_shield_settings"
    "password_mode_is_none (ua_password_mode (ls_account s0)) = False"
    by (simp_all add: s0_def new_session_def password_mode_is_none_def)
  obtain sh e where l: "lock (ls_now s0) False (new_shield default_shield_settings) = (sh, Inr e)"
    "request_authenticator e = Some 1" "sh_awaiting sh = Some 1"
    by (simp add: lock_def activate_def set_active_def new_shield_def default_shield_settings_def Let_def)
  have "sh_awaiting (ls_shield (on_screen_saver_msg (SaverLock None) s0)) = Some 1"
    unfolding on_screen_saver_msg_def screen_saver_msg.case s0 l prod.case sum.case
    using l s0 by (subst asked_shield) simp_all
  then show ?thesis by (simp add: s0_def)
qed

theorem session_request_times_out_witness:
  "\<exists>s ts s'. session_run char_segmentation [SChannel OpenSender, SSaver (SaverLock None)]
       (new_session default_user False True) = Some (s, ts) \<and>
     session_step char_segmentation (SPass AUTHENTICATOR_TIMEOUT) s = Some (s', ()) \<and>
     sh_awaiting (ls_shield s) = Some 1 \<and> sh_awaiting (ls_shield s') \<noteq> Some 1"
proof -
  obtain s ts where r: "session_run char_segmentation [SChannel OpenSender, SSaver (SaverLock None)]
     (new_session default_user False True) = Some (s, ts)" and a: "sh_awaiting (ls_shield s) = Some 1"
    using asked_session by blast
  from session_request_times_out [OF char_segmentation_ok r a order_refl] r a show ?thesis by blast
qed

text \<open>
  C21. The timers of the session. When the loop dispatches a reachable session's timers at a
  time \<open>now\<close>, the callbacks that run are those of distinct due timers, in the order of their
  deadlines (the earlier armed first among equals), each at most once; and afterwards a timer
  that is still due was armed during the dispatch: none that was due before is left behind.
\<close>

definition deadline_of :: "session_timer timers \<Rightarrow> token \<Rightarrow> duration \<times> token" where
  "deadline_of ts t = (case find (\<lambda>e. tm_token e = t) (tms_entries ts) of None \<Rightarrow> (0, t) | Some e \<Rightarrow> (tm_deadline e, t))"

lemma find_unique:
  "distinct (map tm_token es) \<Longrightarrow> e \<in> set es \<Longrightarrow> find (\<lambda>x. tm_token x = tm_token e) es = Some e"
  by (induction es) (auto simp: image_iff)

lemma due_tokens_sorted: "timers_ok ts \<Longrightarrow> sorted (map (deadline_of ts) (due_tokens now ts))"
proof -
  assume ok: "timers_ok ts"
  let ?ps = "sort (map (\<lambda>e. (tm_deadline e, tm_token e)) (filter (\<lambda>e. tm_deadline e \<le> now) (tms_entries ts)))"
  have "deadline_of ts (snd p) = p" if p: "p \<in> set ?ps" for p
  proof -
    from p obtain e where "e \<in> set (tms_entries ts)" "p = (tm_deadline e, tm_token e)" by auto
    then show ?thesis using ok find_unique [of "tms_entries ts" e] by (simp add: deadline_of_def timers_ok_def)
  qed
  then have "map (deadline_of ts) (map snd ?ps) = ?ps" unfolding map_map by (intro map_idI) simp
  then have "map (deadline_of ts) (due_tokens now ts) = ?ps" by (simp only: due_tokens_def)
  then show ?thesis by (simp only: sorted_sort)
qed

lemma subseq_facts:
  "subseq xs ys \<Longrightarrow> set xs \<subseteq> set ys \<and> (distinct ys \<longrightarrow> distinct xs) \<and> (sorted (map f ys) \<longrightarrow> sorted (map f xs))"
  by (induction rule: list_emb.induct) auto



lemma new_greeter_is: "sh_greeter (ls_shield (new_greeter user nested inst)) \<and> ls_greeter (new_greeter user nested inst)"
proof -
  define s where "s = (new_session user nested inst)\<lparr>ls_greeter := True\<rparr>"
  define s1 where "s1 = s\<lparr>ls_grid := grid_reset (length (ls_login_users s)) (ls_grid s),
    ls_shield := show_dialog (ls_shield s),
    ls_screen := settle (set_page True (ls_now s) (set_shown True (ls_now s) (ls_screen s)))\<rparr>"
  have n: "new_greeter user nested inst = greeter_show_start (sync_session_mode s1)"
    unfolding new_greeter_def show_greeter_dialog_def Let_def s_def s1_def ..
  have "sh_greeter (ls_shield (sync_session_mode s1))" "ls_greeter (sync_session_mode s1)"
    by (simp_all add: s1_def s_def show_dialog_def)
  moreover obtain ops where "ls_shield (greeter_show_start (sync_session_mode s1))
      = run shield_step ops (ls_shield (sync_session_mode s1))"
    using greeter_show_start_moves [of "sync_session_mode s1"] unfolding moves_def by blast
  ultimately show ?thesis
    using greeter_show_start_goes [of "sync_session_mode s1"] unfolding n goes_def by (simp only: run_greeter)
qed

text \<open>
  C22. The greeter is never open. Whatever happens to a greeter, its shield is locked, up and
  not dismissible, and the mode the shell runs in is the greeter's: no settings, no launcher, no
  application indicators.
\<close>

theorem greeter_always_locked:
  assumes "segmentation_ok u"
  shows "\<exists>s ts. session_run u xs (new_greeter user nested inst) = Some (s, ts) \<and>
    sh_locked (ls_shield s) \<and> is_up (ls_shield s) \<and> \<not> is_dismissible (ls_shield s) \<and> ls_mode s = GDM \<and>
    \<not> allow_settings (ls_mode s) \<and> \<not> shows_panel_role ''activities'' (ls_mode s) \<and>
    \<not> shows_panel_role ''appIndicators'' (ls_mode s)"
proof -
  obtain s ts where run: "session_run u xs (new_greeter user nested inst) = Some (s, ts)"
    and ok: "session_ok s" and g: "ls_greeter s = ls_greeter (new_greeter user nested inst)"
    using session.prun_total [of u "new_greeter user nested inst" "ls_greeter (new_greeter user nested inst)" xs]
      assms session_ok_greeter [of user nested inst] by blast
  obtain ops where "ls_shield s = run shield_step ops (ls_shield (new_greeter user nested inst))"
    using session_run_any [OF run] unfolding moves_def by blast
  then have "sh_greeter (ls_shield s)" "ls_greeter s"
    using g new_greeter_is [of user nested inst] by (simp_all only: run_greeter)
  then have "sh_locked (ls_shield s) \<and> is_up (ls_shield s) \<and> \<not> is_dismissible (ls_shield s)" "ls_mode s = GDM"
    using ok by (simp_all add: session_ok_def session_mode_of_def current_mode_def inv_defs)
  moreover have "\<not> allow_settings GDM" "\<not> shows_panel_role ''activities'' GDM" "\<not> shows_panel_role ''appIndicators'' GDM"
    by (simp_all add: mode_defs shows_panel_role_def)
  ultimately show ?thesis by (intro exI [of _ s] exI [of _ ts]) (simp add: run)
qed

theorem greeter_always_locked_witness:
  "\<exists>s ts. session_run char_segmentation [SSaver (SetActive False), SVerifier Complete] (new_greeter default_user True False)
      = Some (s, ts) \<and>
    sh_locked (ls_shield s) \<and> is_up (ls_shield s) \<and> \<not> is_dismissible (ls_shield s) \<and> ls_mode s = GDM \<and>
    \<not> allow_settings (ls_mode s) \<and> \<not> shows_panel_role ''activities'' (ls_mode s) \<and>
    \<not> shows_panel_role ''appIndicators'' (ls_mode s)"
  by (rule greeter_always_locked) simp

end
