(* ===== verification/Session_Store.thy ===== *)
theory Session_Store
  imports Rust_Str "HOL-Library.Finite_Map" "HOL-Library.List_Lexorder" "HOL-Library.Product_Lexorder"
    "HOL-Library.Multiset"
begin

text \<open>
  The persistent store behind session restore, \<open>src/src/session_state.rs\<close>, and the identity of
  a display, \<open>src/src/output_identity.rs\<close>. A \<open>HashMap\<close> is a finite map; where the code sorts
  what it iterates over, so does the model, and nothing else depends on the order. Serialisation
  is \<open>serde_json\<close>'s: a pair of functions the operations take. The bytes are of any type. The
  writer thread is a step relation over its channel and the file, so that sends interleave with
  its loop, and one write is a sequence of file-system calls that may stop anywhere.
\<close>

section \<open>Displays\<close>

record output_identity =
  oi_connector :: ustr
  oi_vendor :: "ustr option"
  oi_product :: "ustr option"
  oi_serial :: "ustr option"

definition from_connector :: "ustr \<Rightarrow> output_identity" where
  "from_connector c = \<lparr>oi_connector = c, oi_vendor = None, oi_product = None, oi_serial = None\<rparr>"

fun agrees :: "ustr option \<Rightarrow> ustr option \<Rightarrow> bool" where
  "agrees (Some a) (Some b) = eq_ignore_ascii_case a b"
| "agrees _ _ = True"

definition identity_matches :: "output_identity \<Rightarrow> output_identity \<Rightarrow> bool" where
  "identity_matches a b =
     (if \<not> eq_ignore_ascii_case (oi_connector a) (oi_connector b) then False
      else agrees (oi_vendor a) (oi_vendor b) \<and> agrees (oi_product a) (oi_product b) \<and>
           agrees (oi_serial a) (oi_serial b))"

definition identity_is_empty :: "output_identity \<Rightarrow> bool" where
  "identity_is_empty i \<longleftrightarrow> oi_connector i = []"

lemma agrees_sym: "agrees a b = agrees b a"
  by (cases "(a, b)" rule: agrees.cases) (auto simp: eq_ignore_ascii_case_def)

lemma agrees_refl [simp]: "agrees a a"
  by (cases a) (simp_all add: eq_ignore_ascii_case_def)

lemma identity_matches_refl [simp]: "identity_matches a a"
  by (simp add: identity_matches_def eq_ignore_ascii_case_def)

lemma identity_matches_sym: "identity_matches a b = identity_matches b a"
  by (auto simp: identity_matches_def agrees_sym eq_ignore_ascii_case_def)

section \<open>Records\<close>

datatype window_state = Floating | Maximized | TiledLeft | TiledRight | Fullscreen

fun from_raw :: "nat \<Rightarrow> window_state option" where
  "from_raw raw =
     (if raw = 1 then Some Floating else if raw = 2 then Some Maximized
      else if raw = 3 then Some TiledLeft else if raw = 4 then Some TiledRight
      else if raw = 5 then Some Fullscreen else None)"

fun as_raw :: "window_state \<Rightarrow> nat" where
  "as_raw Floating = 1" | "as_raw Maximized = 2" | "as_raw TiledLeft = 3"
| "as_raw TiledRight = 4" | "as_raw Fullscreen = 5"

type_synonym rect = "int \<times> int \<times> int \<times> int"

record toplevel_record =
  tr_state :: "nat option"
  tr_floating_rect :: "rect option"
  tr_tiled_rect :: "rect option"
  tr_displaced_rect :: "rect option"
  tr_auto_maximized :: bool
  tr_is_minimized :: bool
  tr_workspace :: "nat option"
  tr_workspace_name :: "ustr option"
  tr_output :: "output_identity option"

definition saved_rect_is_live :: "window_state \<Rightarrow> bool" where
  "saved_rect_is_live w \<longleftrightarrow> w \<noteq> Floating"

definition saved_rect :: "window_state \<Rightarrow> toplevel_record \<Rightarrow> rect option" where
  "saved_rect w r = (case w of Floating \<Rightarrow> tr_floating_rect r | _ \<Rightarrow> tr_tiled_rect r)"

definition sanitize_legacy :: "toplevel_record \<Rightarrow> toplevel_record" where
  "sanitize_legacy r = r\<lparr>tr_floating_rect := None, tr_tiled_rect := None, tr_workspace := None,
     tr_workspace_name := None, tr_output := None\<rparr>"

definition restorable_state :: "toplevel_record \<Rightarrow> window_state option" where
  "restorable_state r = Option.bind (tr_state r) from_raw"

lemma from_as_raw [simp]: "from_raw (as_raw w) = Some w"
  by (cases w) simp_all

lemma as_from_raw: "from_raw n = Some w \<Longrightarrow> as_raw w = n"
  by (auto split: if_splits)

record session_record =
  sr_last_used :: nat
  sr_toplevels :: "(ustr, toplevel_record) fmap"

definition default_session :: session_record where
  "default_session = \<lparr>sr_last_used = 0, sr_toplevels = fmempty\<rparr>"

type_synonym sessions = "(ustr, session_record) fmap"

record store_file =
  sf_version :: nat
  sf_sessions :: sessions

section \<open>The store\<close>

definition VERSION :: nat where
  "VERSION = 2"

definition MAX_SESSIONS :: nat where
  "MAX_SESSIONS = 1000"

record 'b json_codec =
  to_vec :: "store_file \<Rightarrow> 'b option"
  from_slice :: "'b \<Rightarrow> store_file option"

text \<open>What the store relies on of \<open>serde_json\<close>: what it serialises, it reads back.\<close>

definition codec_ok :: "'b json_codec \<Rightarrow> bool" where
  "codec_ok j \<longleftrightarrow> (\<forall>f. \<exists>b. to_vec j f = Some b \<and> from_slice j b = Some f)"

definition identity_codec :: "store_file json_codec" where
  "identity_codec = \<lparr>to_vec = Some, from_slice = Some\<rparr>"

lemma identity_codec_ok [simp]: "codec_ok identity_codec"
  by (simp add: codec_ok_def identity_codec_def)

datatype load_error = TooNew nat | ParseError | IoError

datatype 'b file_read = ReadOk 'b | NotFound | ReadFailed

record 'b session_store =
  st_path :: "ustr option"
  st_sessions :: sessions
  st_dirty :: bool
  st_writer :: "'b list option"

definition in_memory :: "'b session_store" where
  "in_memory = \<lparr>st_path = None, st_sessions = fmempty, st_dirty = False, st_writer = None\<rparr>"

definition sanitize_session :: "session_record \<Rightarrow> session_record" where
  "sanitize_session r = r\<lparr>sr_toplevels := fmmap sanitize_legacy (sr_toplevels r)\<rparr>"

definition parse_store :: "'b json_codec \<Rightarrow> 'b \<Rightarrow> load_error + sessions" where
  "parse_store j contents = (case from_slice j contents of
       None \<Rightarrow> Inl ParseError
     | Some f \<Rightarrow>
         if VERSION < sf_version f then Inl (TooNew (sf_version f))
         else if sf_version f < VERSION then Inr (fmmap sanitize_session (sf_sessions f))
         else Inr (sf_sessions f))"

text \<open>\<open>sort_unstable_by\<close> with the order reversed, on pairs that are all distinct.\<close>

definition by_recency :: "sessions \<Rightarrow> (nat \<times> ustr) list" where
  "by_recency ss = rev (sort (map (\<lambda>(sid, r). (sr_last_used r, sid)) (sorted_list_of_fmap ss)))"

definition evict_to_cap :: "sessions \<Rightarrow> sessions" where
  "evict_to_cap ss =
     (if fcard (fmdom ss) \<le> MAX_SESSIONS then ss
      else fold (\<lambda>(_, sid) m. fmdrop sid m) (drop MAX_SESSIONS (by_recency ss)) ss)"

definition load_store :: "'b json_codec \<Rightarrow> ustr \<Rightarrow> 'b file_read \<Rightarrow> 'b session_store \<times> load_error option" where
  "load_store j path r =
     (let store = in_memory\<lparr>st_path := Some path\<rparr> in
      case r of
        NotFound \<Rightarrow> (store, None)
      | ReadFailed \<Rightarrow> (store, Some IoError)
      | ReadOk contents \<Rightarrow>
          (case parse_store j contents of
             Inl err \<Rightarrow> (store, Some err)
           | Inr ss \<Rightarrow> (store\<lparr>st_sessions := evict_to_cap ss\<rparr>, None)))"

definition contains_session :: "ustr \<Rightarrow> 'b session_store \<Rightarrow> bool" where
  "contains_session sid s \<longleftrightarrow> fmlookup (st_sessions s) sid \<noteq> None"

text \<open>\<open>entry(id).or_default()\<close>, stamped with the time of the call.\<close>

definition touched :: "nat \<Rightarrow> ustr \<Rightarrow> sessions \<Rightarrow> session_record" where
  "touched now sid ss = (case fmlookup ss sid of None \<Rightarrow> default_session | Some r \<Rightarrow> r)\<lparr>sr_last_used := now\<rparr>"

definition touch :: "nat \<Rightarrow> ustr \<Rightarrow> 'b session_store \<Rightarrow> 'b session_store" where
  "touch now sid s =
     s\<lparr>st_dirty := True, st_sessions := fmupd sid (touched now sid (st_sessions s)) (st_sessions s)\<rparr>"

definition remove_session :: "ustr \<Rightarrow> 'b session_store \<Rightarrow> 'b session_store \<times> bool" where
  "remove_session sid s =
     (let removed = (fmlookup (st_sessions s) sid \<noteq> None)
      in (s\<lparr>st_sessions := fmdrop sid (st_sessions s), st_dirty := st_dirty s \<or> removed\<rparr>, removed))"

definition remove_toplevel :: "ustr \<Rightarrow> ustr \<Rightarrow> 'b session_store \<Rightarrow> 'b session_store \<times> bool" where
  "remove_toplevel sid name s = (case fmlookup (st_sessions s) sid of
       None \<Rightarrow> (s, False)
     | Some r \<Rightarrow>
         (let removed = (fmlookup (sr_toplevels r) name \<noteq> None)
          in (s\<lparr>st_sessions := fmupd sid (r\<lparr>sr_toplevels := fmdrop name (sr_toplevels r)\<rparr>) (st_sessions s),
               st_dirty := st_dirty s \<or> removed\<rparr>, removed)))"

definition rename_toplevel :: "ustr \<Rightarrow> ustr \<Rightarrow> ustr \<Rightarrow> 'b session_store \<Rightarrow> 'b session_store \<times> bool" where
  "rename_toplevel sid old new s = (case fmlookup (st_sessions s) sid of
       None \<Rightarrow> (s, False)
     | Some r \<Rightarrow> (case fmlookup (sr_toplevels r) old of
           None \<Rightarrow> (s, False)
         | Some t \<Rightarrow>
             (s\<lparr>st_sessions := fmupd sid (r\<lparr>sr_toplevels := fmupd new t (fmdrop old (sr_toplevels r))\<rparr>)
                                (st_sessions s), st_dirty := True\<rparr>, True)))"

definition save_toplevel :: "nat \<Rightarrow> ustr \<Rightarrow> ustr \<Rightarrow> toplevel_record \<Rightarrow> 'b session_store \<Rightarrow> 'b session_store" where
  "save_toplevel now sid name t s =
     (let s1 = touch now sid s; r = touched now sid (st_sessions s)
      in s1\<lparr>st_sessions := fmupd sid (r\<lparr>sr_toplevels := fmupd name t (sr_toplevels r)\<rparr>) (st_sessions s1)\<rparr>)"

definition serialize_store :: "'b json_codec \<Rightarrow> 'b session_store \<Rightarrow> 'b option" where
  "serialize_store j s = to_vec j \<lparr>sf_version = VERSION, sf_sessions = st_sessions s\<rparr>"

definition save_store :: "'b json_codec \<Rightarrow> 'b session_store \<Rightarrow> 'b session_store \<times> bool" where
  "save_store j s =
     (let s1 = s\<lparr>st_dirty := False\<rparr> in
      case st_path s1 of
        None \<Rightarrow> (s1, True)
      | Some path \<Rightarrow>
          (case serialize_store j s1 of
             None \<Rightarrow> (s1, False)
           | Some bytes \<Rightarrow>
               (s1\<lparr>st_writer := Some ((case st_writer s1 of None \<Rightarrow> [] | Some q \<Rightarrow> q) @ [bytes])\<rparr>, True)))"

text \<open>The bytes handed to a writer that is then joined are what \<open>flush\<close> leaves to be drained.\<close>

definition flush_store :: "'b json_codec \<Rightarrow> 'b session_store \<Rightarrow> 'b session_store \<times> 'b list option" where
  "flush_store j s =
     (let (s1, ok) = save_store j s
      in if ok then (s1\<lparr>st_writer := None\<rparr>, st_writer s1) else (s1, None))"

section \<open>Eviction\<close>

lemma recency_perm:
  "set (by_recency ss) = {(sr_last_used r, sid) | sid r. fmlookup ss sid = Some r}"
  "mset (map snd (by_recency ss)) = mset (sorted_list_of_fset (fmdom ss))"
proof -
  have "set (by_recency ss) = (\<lambda>(sid, r). (sr_last_used r, sid)) ` set (sorted_list_of_fmap ss)"
    by (simp add: by_recency_def)
  also have "\<dots> = {(sr_last_used r, sid) | sid r. fmlookup ss sid = Some r}"
    by (force simp: sorted_list_of_fmap_def sorted_list_of_fset.rep_eq fmlookup_dom_iff)
  finally show "set (by_recency ss) = {(sr_last_used r, sid) | sid r. fmlookup ss sid = Some r}" .
  have "mset (map snd (by_recency ss))
      = image_mset snd (mset (map (\<lambda>(sid, r). (sr_last_used r, sid)) (sorted_list_of_fmap ss)))"
    by (simp add: by_recency_def)
  also have "\<dots> = mset (map fst (sorted_list_of_fmap ss))"
    by (simp add: split_beta comp_def multiset.map_comp)
  also have "map fst (sorted_list_of_fmap ss) = sorted_list_of_fset (fmdom ss)"
    by (simp add: sorted_list_of_fmap_def comp_def)
  finally show "mset (map snd (by_recency ss)) = mset (sorted_list_of_fset (fmdom ss))" .
qed

lemma recency_distinct: "distinct (map snd (by_recency ss))"
proof -
  have "distinct (sorted_list_of_fset (fmdom ss))" by (simp add: sorted_list_of_fset.rep_eq)
  then show ?thesis using recency_perm(2) [of ss] by (metis mset_eq_imp_distinct_iff)
qed

lemma recency_length: "length (by_recency ss) = fcard (fmdom ss)"
proof -
  have "length (by_recency ss) = size (mset (map snd (by_recency ss)))" by simp
  also have "\<dots> = length (sorted_list_of_fset (fmdom ss))" unfolding recency_perm(2) by simp
  also have "\<dots> = fcard (fmdom ss)" by (simp add: sorted_list_of_fset.rep_eq fcard.rep_eq)
  finally show ?thesis .
qed

lemma recency_sorted: "sorted_wrt (>) (by_recency ss)"
proof -
  have "distinct (by_recency ss)" using recency_distinct [of ss] distinct_map by blast
  then have "sorted_wrt (<) (rev (by_recency ss))"
    by (simp add: by_recency_def strict_sorted_iff)
  then show ?thesis by (simp add: sorted_wrt_rev)
qed

lemma fold_fmdrop_lookup:
  "fmlookup (fold (\<lambda>(_, sid) m. fmdrop sid m) ps m) x = (if x \<in> snd ` set ps then None else fmlookup m x)"
  by (induction ps arbitrary: m) (auto simp: split_beta)

lemma evict_lookup:
  "fmlookup (evict_to_cap ss) sid = (if sid \<in> snd ` set (drop MAX_SESSIONS (by_recency ss)) then None else fmlookup ss sid)"
  using recency_length [of ss] by (simp add: evict_to_cap_def fold_fmdrop_lookup)

lemma evict_card: "fcard (fmdom (evict_to_cap ss)) = min (fcard (fmdom ss)) MAX_SESSIONS"
proof -
  have "fset (fmdom (evict_to_cap ss)) = snd ` set (take MAX_SESSIONS (by_recency ss))" (is "?l = ?r")
  proof
    show "?l \<subseteq> ?r"
    proof
      fix sid
      assume "sid \<in> ?l"
      then obtain r where "fmlookup ss sid = Some r" "sid \<notin> snd ` set (drop MAX_SESSIONS (by_recency ss))"
        by (auto simp: fmlookup_dom_iff evict_lookup split: if_splits)
      moreover then have "(sr_last_used r, sid) \<in> set (by_recency ss)" unfolding recency_perm(1) by blast
      ultimately show "sid \<in> ?r"
        by (metis (no_types, lifting) Un_iff append_take_drop_id image_eqI set_append snd_conv)
    qed
    show "?r \<subseteq> ?l"
    proof
      fix sid
      assume "sid \<in> ?r"
      then obtain t where t: "(t, sid) \<in> set (take MAX_SESSIONS (by_recency ss))" by auto
      then have "(t, sid) \<in> set (by_recency ss)" by (rule in_set_takeD)
      then obtain r where "fmlookup ss sid = Some r" unfolding recency_perm(1) by blast
      moreover have "sid \<notin> snd ` set (drop MAX_SESSIONS (by_recency ss))"
      proof -
        have "distinct (map snd (take MAX_SESSIONS (by_recency ss)) @ map snd (drop MAX_SESSIONS (by_recency ss)))"
          using recency_distinct [of ss] by (simp add: map_append [symmetric] del: map_append)
        then show ?thesis using t by (force simp: image_iff)
      qed
      ultimately show "sid \<in> ?l" by (simp add: fmlookup_dom_iff evict_lookup)
    qed
  qed
  moreover have "card ?r = length (take MAX_SESSIONS (by_recency ss))"
    using recency_distinct [of ss] distinct_take [of "map snd (by_recency ss)" MAX_SESSIONS]
    by (metis distinct_card length_map set_map take_map)
  ultimately show ?thesis by (simp add: fcard.rep_eq recency_length)
qed

section \<open>The writer thread\<close>

text \<open>
  The thread's loop between two calls: waiting in \<open>recv\<close>, holding bytes while it looks for newer
  ones, writing, or ended. \<open>wr_sent\<close> and \<open>wr_failed\<close> only record what was sent and whether the
  last write failed.
\<close>

datatype 'b writer_phase = Waiting | Draining 'b | Writing 'b | Ended

record 'b store_writer =
  wr_queue :: "'b list"
  wr_open :: bool
  wr_phase :: "'b writer_phase"
  wr_disk :: "'b option"
  wr_sent :: "'b list"
  wr_failed :: bool

definition spawn_writer :: "'b option \<Rightarrow> 'b store_writer" where
  "spawn_writer disk = \<lparr>wr_queue = [], wr_open = True, wr_phase = Waiting, wr_disk = disk, wr_sent = [],
     wr_failed = False\<rparr>"

inductive thread_step :: "'b store_writer \<Rightarrow> 'b store_writer \<Rightarrow> bool" where
  recv: "wr_phase w = Waiting \<Longrightarrow> wr_queue w = b # q \<Longrightarrow>
    thread_step w (w\<lparr>wr_phase := Draining b, wr_queue := q\<rparr>)"
| newer: "wr_phase w = Draining b \<Longrightarrow> wr_queue w = b' # q \<Longrightarrow>
    thread_step w (w\<lparr>wr_phase := Draining b', wr_queue := q\<rparr>)"
| drained: "wr_phase w = Draining b \<Longrightarrow> wr_queue w = [] \<Longrightarrow> thread_step w (w\<lparr>wr_phase := Writing b\<rparr>)"
| written: "wr_phase w = Writing b \<Longrightarrow>
    thread_step w (w\<lparr>wr_phase := Waiting, wr_disk := Some b, wr_failed := False\<rparr>)"
| failed: "wr_phase w = Writing b \<Longrightarrow> thread_step w (w\<lparr>wr_phase := Waiting, wr_failed := True\<rparr>)"
| ended: "wr_phase w = Waiting \<Longrightarrow> wr_queue w = [] \<Longrightarrow> \<not> wr_open w \<Longrightarrow> thread_step w (w\<lparr>wr_phase := Ended\<rparr>)"

inductive writer_step :: "'b store_writer \<Rightarrow> 'b store_writer \<Rightarrow> bool" where
  thread: "thread_step w w' \<Longrightarrow> writer_step w w'"
| queue: "wr_open w \<Longrightarrow> writer_step w (w\<lparr>wr_queue := wr_queue w @ [b], wr_sent := wr_sent w @ [b]\<rparr>)"
| close: "wr_open w \<Longrightarrow> writer_step w (w\<lparr>wr_open := False\<rparr>)"

inductive_cases thread_stepE [elim]: "thread_step w w'"
inductive_cases writer_stepE [elim]: "writer_step w w'"

definition writer_ok :: "'b option \<Rightarrow> 'b store_writer \<Rightarrow> bool" where
  "writer_ok disk w \<longleftrightarrow> (\<exists>taken. wr_sent w = taken @ wr_queue w \<and>
     (\<forall>b. wr_phase w = Draining b \<or> wr_phase w = Writing b \<longrightarrow> taken \<noteq> [] \<and> b = last taken) \<and>
     (wr_disk w = disk \<or> wr_disk w \<in> Some ` set taken) \<and>
     (wr_phase w \<in> {Waiting, Ended} \<and> \<not> wr_failed w \<longrightarrow> wr_disk w = (if taken = [] then disk else Some (last taken))) \<and>
     (wr_phase w = Ended \<longrightarrow> wr_queue w = [] \<and> \<not> wr_open w))"

lemma writer_ok_spawn: "writer_ok disk (spawn_writer disk)"
  by (simp add: writer_ok_def spawn_writer_def)

lemma writer_ok_step:
  assumes "writer_step w w'" "writer_ok disk w"
  shows "writer_ok disk w'"
proof -
  from assms(2) obtain taken where t: "wr_sent w = taken @ wr_queue w"
    "\<forall>b. wr_phase w = Draining b \<or> wr_phase w = Writing b \<longrightarrow> taken \<noteq> [] \<and> b = last taken"
    "wr_disk w = disk \<or> wr_disk w \<in> Some ` set taken"
    "wr_phase w \<in> {Waiting, Ended} \<and> \<not> wr_failed w \<longrightarrow> wr_disk w = (if taken = [] then disk else Some (last taken))"
    "wr_phase w = Ended \<longrightarrow> wr_queue w = [] \<and> \<not> wr_open w"
    unfolding writer_ok_def by blast
  have took: "writer_ok disk (w\<lparr>wr_phase := Draining b, wr_queue := q\<rparr>)" if "wr_queue w = b # q" for b q
    unfolding writer_ok_def by (rule exI [of _ "taken @ [b]"]) (use t that in auto)
  from assms(1) show ?thesis
  proof cases
    case thread
    then show ?thesis
    proof cases
      case (recv b q)
      then show ?thesis by (simp add: took)
    next
      case (newer b b' q)
      then show ?thesis by (simp add: took)
    qed (unfold writer_ok_def, (rule exI [of _ taken], use t in auto)+)
  qed (unfold writer_ok_def, (rule exI [of _ taken], use t in auto)+)
qed

lemma writer_ok_steps: "writer_step\<^sup>*\<^sup>* (spawn_writer disk) w \<Longrightarrow> writer_ok disk w"
  by (induction rule: rtranclp_induct) (auto intro: writer_ok_spawn writer_ok_step)

text \<open>How many steps the thread can take on its own.\<close>

definition writer_work :: "'b store_writer \<Rightarrow> nat" where
  "writer_work w = 4 * length (wr_queue w) +
     (case wr_phase w of Ended \<Rightarrow> 0 | Waiting \<Rightarrow> 1 | Writing _ \<Rightarrow> 2 | Draining _ \<Rightarrow> 3)"

lemma thread_step_work: "thread_step w w' \<Longrightarrow> writer_work w' < writer_work w"
  by (cases rule: thread_step.cases) (auto simp: writer_work_def)

lemma thread_progress: "wr_phase w \<noteq> Ended \<Longrightarrow> \<not> wr_open w \<Longrightarrow> \<exists>w'. thread_step w w' \<and> \<not> wr_open w'"
proof (cases "wr_phase w")
  case Waiting
  assume "\<not> wr_open w"
  with Waiting show ?thesis by (cases "wr_queue w") (fastforce intro: thread_step.intros)+
next
  case (Draining b)
  assume "\<not> wr_open w"
  with Draining show ?thesis by (cases "wr_queue w") (fastforce intro: thread_step.intros)+
qed (fastforce intro: thread_step.intros)+

lemma thread_finishes: "\<not> wr_open w \<Longrightarrow> \<exists>w'. thread_step\<^sup>*\<^sup>* w w' \<and> wr_phase w' = Ended \<and> wr_sent w' = wr_sent w"
proof (induction "writer_work w" arbitrary: w rule: less_induct)
  case less
  show ?case
  proof (cases "wr_phase w = Ended")
    case False
    with less.prems obtain w1 where w1: "thread_step w w1" "\<not> wr_open w1" using thread_progress by blast
    moreover have "wr_sent w1 = wr_sent w" using w1(1) by cases auto
    ultimately show ?thesis using less.hyps [OF thread_step_work [OF w1(1)] w1(2)]
      by (metis converse_rtranclp_into_rtranclp)
  qed auto
qed

section \<open>One write\<close>

text \<open>
  \<open>write_atomically\<close> as the states of the file and its temporary neighbour after each call. A
  content comes with whether it is durable: a power loss may leave any prefix of one that is not.
\<close>

type_synonym 'c content = "'c list \<times> bool"

record 'c store_dir =
  sd_file :: "'c content option"
  sd_tmp :: "'c content option"

definition create_tmp :: "'c store_dir \<Rightarrow> 'c store_dir" where
  "create_tmp d = d\<lparr>sd_tmp := Some ([], False)\<rparr>"

definition write_some :: "'c list \<Rightarrow> nat \<Rightarrow> 'c store_dir \<Rightarrow> 'c store_dir" where
  "write_some bytes n d = d\<lparr>sd_tmp := Some (take n bytes, False)\<rparr>"

definition sync_all :: "'c store_dir \<Rightarrow> 'c store_dir" where
  "sync_all d = d\<lparr>sd_tmp := map_option (\<lambda>(c, _). (c, True)) (sd_tmp d)\<rparr>"

definition rename_tmp :: "'c store_dir \<Rightarrow> 'c store_dir" where
  "rename_tmp d = d\<lparr>sd_file := sd_tmp d, sd_tmp := None\<rparr>"

definition write_atomically :: "'c list \<Rightarrow> 'c store_dir \<Rightarrow> 'c store_dir list" where
  "write_atomically bytes d =
     (let d1 = create_tmp d;
          ws = map (\<lambda>n. write_some bytes n d1) [0..<Suc (length bytes)];
          d2 = sync_all (last ws)
      in d # d1 # ws @ [d2, rename_tmp d2])"

definition after_power_loss :: "'c content option \<Rightarrow> 'c list option set" where
  "after_power_loss f = (case f of
       None \<Rightarrow> {None}
     | Some (c, True) \<Rightarrow> {Some c}
     | Some (c, False) \<Rightarrow> {Some (take k c) | k. True})"

lemma write_atomically_last: "sd_file (last (write_atomically bytes d)) = Some (bytes, True)"
  by (simp add: write_atomically_def Let_def rename_tmp_def sync_all_def write_some_def)

lemma write_atomically_states:
  "x \<in> set (write_atomically bytes d) \<Longrightarrow> sd_file x = sd_file d \<or> sd_file x = Some (bytes, True)"
  by (auto simp: write_atomically_def Let_def rename_tmp_def sync_all_def write_some_def create_tmp_def)

section \<open>Properties of the store\<close>

lemma save_store_queues:
  assumes "codec_ok j" "st_path s = Some path"
  shows "\<exists>b. from_slice j b = Some \<lparr>sf_version = VERSION, sf_sessions = st_sessions s\<rparr> \<and>
     save_store j s = (s\<lparr>st_dirty := False, st_writer := Some ((case st_writer s of None \<Rightarrow> [] | Some q \<Rightarrow> q) @ [b])\<rparr>, True)"
proof -
  obtain b where "to_vec j \<lparr>sf_version = VERSION, sf_sessions = st_sessions s\<rparr> = Some b"
    "from_slice j b = Some \<lparr>sf_version = VERSION, sf_sessions = st_sessions s\<rparr>"
    using assms(1) unfolding codec_ok_def by blast
  with assms(2) show ?thesis by (intro exI [of _ b]) (simp add: save_store_def serialize_store_def Let_def)
qed


definition example_store :: "store_file session_store" where
  "example_store = save_toplevel 7 (lit ''s'') (lit ''main'')
     \<lparr>tr_state = Some 9, tr_floating_rect = Some (0, 0, 10, 10), tr_tiled_rect = None, tr_displaced_rect = None,
      tr_auto_maximized = False, tr_is_minimized = True, tr_workspace = Some 1, tr_workspace_name = None,
      tr_output = Some (from_connector (lit ''DP-1''))\<rparr> (in_memory\<lparr>st_path := Some (lit ''f'')\<rparr>)"

lemma example_store_facts:
  "st_path example_store = Some (lit ''f'')" "fcard (fmdom (st_sessions example_store)) \<le> MAX_SESSIONS"
  by (simp_all add: example_store_def save_toplevel_def touch_def in_memory_def Let_def MAX_SESSIONS_def fcard.rep_eq)


text \<open>
  C24. The cap. Loading keeps at most \<open>MAX_SESSIONS\<close> sessions, all of them when there are not
  more, each as it was; and a session that is dropped was used less recently than every session
  that is kept, the identifier deciding between equals.
\<close>

theorem session_store_keeps_the_recent:
  "fcard (fmdom (evict_to_cap ss)) = min (fcard (fmdom ss)) MAX_SESSIONS \<and>
   (\<forall>a r. fmlookup (evict_to_cap ss) a = Some r \<longrightarrow> fmlookup ss a = Some r) \<and>
   (\<forall>a r b r'. fmlookup (evict_to_cap ss) a = Some r \<and> fmlookup ss b = Some r' \<and>
      fmlookup (evict_to_cap ss) b = None \<longrightarrow> (sr_last_used r', b) < (sr_last_used r, a))"
proof (intro conjI allI impI)
  show "fcard (fmdom (evict_to_cap ss)) = min (fcard (fmdom ss)) MAX_SESSIONS" by (rule evict_card)
  show "fmlookup ss a = Some r" if "fmlookup (evict_to_cap ss) a = Some r" for a r
    using that by (simp add: evict_lookup split: if_splits)
  fix a r b r'
  assume h: "fmlookup (evict_to_cap ss) a = Some r \<and> fmlookup ss b = Some r' \<and> fmlookup (evict_to_cap ss) b = None"
  let ?t = "take MAX_SESSIONS (by_recency ss)" and ?d = "drop MAX_SESSIONS (by_recency ss)"
  from h have a: "fmlookup ss a = Some r" "a \<notin> snd ` set ?d" and b: "b \<in> snd ` set ?d"
    by (auto simp: evict_lookup split: if_splits)
  from a(1) have "(sr_last_used r, a) \<in> set (by_recency ss)" unfolding recency_perm(1) by blast
  with a(2) have at: "(sr_last_used r, a) \<in> set ?t"
    by (metis Un_iff append_take_drop_id image_eqI set_append snd_conv)
  from b obtain t where t: "(t, b) \<in> set ?d" by auto
  then have "(t, b) \<in> set (by_recency ss)" by (rule in_set_dropD)
  with h have "t = sr_last_used r'" unfolding recency_perm(1) by auto
  moreover have "sorted_wrt (>) (?t @ ?d)" using recency_sorted by simp
  ultimately show "(sr_last_used r', b) < (sr_last_used r, a)"
    using at t unfolding sorted_wrt_append by blast
qed

lemma small_store: "fmlookup (evict_to_cap (fmupd (lit ''s'') r fmempty)) (lit ''s'') = Some r"
  by (simp add: evict_to_cap_def MAX_SESSIONS_def fcard.rep_eq)

theorem session_store_keeps_the_recent_witness:
  "fmlookup (evict_to_cap (fmupd (lit ''s'') default_session fmempty)) (lit ''s'') = Some default_session \<and>
   fmlookup (fmupd (lit ''s'') default_session fmempty) (lit ''s'') = Some default_session"
  using session_store_keeps_the_recent [of "fmupd (lit ''s'') default_session fmempty"] small_store by blast


lemma example_writer:
  "writer_step\<^sup>*\<^sup>* (spawn_writer None) ((spawn_writer None)\<lparr>wr_queue := [1::nat], wr_sent := [1], wr_open := False\<rparr>)"
proof -
  let ?w1 = "(spawn_writer None)\<lparr>wr_queue := [1::nat], wr_sent := [1]\<rparr>"
  have "writer_step (spawn_writer None) ?w1"
    using writer_step.queue [of "spawn_writer None" "1::nat"] by (simp add: spawn_writer_def)
  moreover have "writer_step ?w1 (?w1\<lparr>wr_open := False\<rparr>)"
    by (rule writer_step.close) (simp add: spawn_writer_def)
  ultimately show ?thesis by (metis converse_rtranclp_into_rtranclp r_into_rtranclp)
qed


text \<open>
  C26. A crash leaves a whole store. At every point of a write, a crash of the process leaves the
  file with its old content or all of the new, and so does a power loss when the old content was
  durable; a write that runs to its end leaves the new content, durable.
\<close>

theorem store_write_is_atomic:
  "sd_file (last (write_atomically bytes d)) = Some (bytes, True) \<and>
   (\<forall>x \<in> set (write_atomically bytes d). (sd_file x = sd_file d \<or> sd_file x = Some (bytes, True)) \<and>
      after_power_loss (sd_file x) \<subseteq> after_power_loss (sd_file d) \<union> {Some bytes})"
  using write_atomically_last write_atomically_states [of _ bytes d]
  by (fastforce simp: after_power_loss_def)

theorem store_write_is_atomic_witness:
  "after_power_loss (sd_file (write_atomically [1::nat, 2] \<lparr>sd_file = Some ([0], True), sd_tmp = None\<rparr> ! 3))
     \<subseteq> {Some [0], Some [1, 2]}"
proof -
  let ?d = "\<lparr>sd_file = Some ([0::nat], True), sd_tmp = None\<rparr>"
  have "write_atomically [1, 2] ?d ! 3 \<in> set (write_atomically [1, 2] ?d)"
    by (rule nth_mem) (simp add: write_atomically_def Let_def)
  then have "after_power_loss (sd_file (write_atomically [1, 2] ?d ! 3)) \<subseteq> after_power_loss (sd_file ?d) \<union> {Some [1, 2]}"
    using store_write_is_atomic [of "[1, 2]" ?d] by blast
  moreover have "after_power_loss (sd_file ?d) = {Some [0]}" by (simp add: after_power_loss_def)
  ultimately show ?thesis by auto
qed

end
