(* ===== verification/Session_Protocol.thy ===== *)
theory Session_Protocol
  imports Session_Store
begin

text \<open>
  The session protocol over the store, \<open>src/src/protocols/session_management.rs\<close>, with the
  compositor's half of it (\<open>src/src/handlers/mod.rs\<close>, \<open>src/src/synoik.rs\<close>). Session objects,
  toplevels and handles are numbers handed out once; the user data the Wayland library keeps on
  an object is a table. A \<open>destroyed\<close> call follows a destructor request, as the library does it.
  The layout is an argument where it is read: the record of a window that is still mapped. The
  identifier of a new session (\<open>uuid::new_v4\<close>) and the time are arguments too.
\<close>

section \<open>State\<close>

record registered_toplevel =
  rt_toplevel :: nat
  rt_handle :: nat

record live_session =
  lv_resource :: nat
  lv_reason :: nat
  lv_toplevels :: "(ustr, registered_toplevel) fmap"

text \<open>User data of a session object, and its client while the object is alive.\<close>

record session_object =
  so_data :: ustr
  so_client :: "nat option"

record toplevel_handle =
  th_session :: ustr
  th_name :: ustr

record restore_slot =
  rs_identity :: output_identity
  rs_workspace :: nat

record 'b session_manager =
  sm_live :: "(ustr, live_session) fmap"
  sm_slots :: "(restore_slot \<times> nat) list"
  sm_store :: "'b session_store"
  sm_objects :: "(nat, session_object) fmap"
  sm_handles :: "(nat, toplevel_handle) fmap"
  sm_next :: nat
  sm_dead_toplevels :: "nat list"
  sm_save_armed :: bool

datatype protocol_error = InvalidReason | InUse | NameInUse | AlreadyMapped

datatype session_event =
    PostError nat protocol_error
  | Replaced nat
  | Restored nat
  | Created nat ustr
  | RestoreRequested nat nat

definition new_manager :: "'b session_store \<Rightarrow> 'b session_manager" where
  "new_manager store = \<lparr>sm_live = fmempty, sm_slots = [], sm_store = store, sm_objects = fmempty,
     sm_handles = fmempty, sm_next = 0, sm_dead_toplevels = [], sm_save_armed = False\<rparr>"

section \<open>Restore slots\<close>

definition slot_key :: "restore_slot \<Rightarrow> ustr \<times> nat" where
  "slot_key s = (map to_ascii_lowercase (oi_connector (rs_identity s)), rs_workspace s)"

definition materialized_workspace :: "restore_slot \<Rightarrow> 'b session_manager \<Rightarrow> nat option" where
  "materialized_workspace slot m =
     map_option snd (find (\<lambda>(known, _). slot_key known = slot_key slot) (sm_slots m))"

definition set_materialized_workspace :: "restore_slot \<Rightarrow> nat \<Rightarrow> 'b session_manager \<Rightarrow> 'b session_manager" where
  "set_materialized_workspace slot ws m =
     m\<lparr>sm_slots := filter (\<lambda>(known, _). slot_key known \<noteq> slot_key slot) (sm_slots m) @ [(slot, ws)]\<rparr>"

definition retain_materialized_workspaces :: "nat list \<Rightarrow> 'b session_manager \<Rightarrow> 'b session_manager" where
  "retain_materialized_workspaces alive m = m\<lparr>sm_slots := filter (\<lambda>(_, ws). ws \<in> set alive) (sm_slots m)\<rparr>"

section \<open>Lookups\<close>

definition session_of :: "'b session_manager \<Rightarrow> nat \<Rightarrow> live_session option" where
  "session_of m r = (case fmlookup (sm_objects m) r of
       None \<Rightarrow> None
     | Some obj \<Rightarrow> (case fmlookup (sm_live m) (so_data obj) of
           None \<Rightarrow> None
         | Some live \<Rightarrow> if lv_resource live = r then Some live else None))"

definition client_of :: "'b session_manager \<Rightarrow> nat \<Rightarrow> nat option" where
  "client_of m r = Option.bind (fmlookup (sm_objects m) r) so_client"

definition registrations_for :: "nat \<Rightarrow> 'b session_manager \<Rightarrow> (ustr \<times> ustr) list" where
  "registrations_for toplevel m =
     concat (map (\<lambda>(sid, live). map (\<lambda>(name, _). (sid, name))
         (filter (\<lambda>(_, reg). rt_toplevel reg = toplevel) (sorted_list_of_fmap (lv_toplevels live))))
       (sorted_list_of_fmap (sm_live m)))"

definition live_registrations :: "'b session_manager \<Rightarrow> (ustr \<times> ustr \<times> nat) list" where
  "live_registrations m =
     concat (map (\<lambda>(sid, live). map (\<lambda>(name, reg). (sid, name, rt_toplevel reg))
         (sorted_list_of_fmap (lv_toplevels live))) (sorted_list_of_fmap (sm_live m)))"

text \<open>Session, name and reason of what a handle restores, if it still answers to its name.\<close>

definition restore_target_for :: "nat \<Rightarrow> 'b session_manager \<Rightarrow> (ustr \<times> ustr \<times> nat) option" where
  "restore_target_for h m = (case fmlookup (sm_handles m) h of
       None \<Rightarrow> None
     | Some d \<Rightarrow> (case fmlookup (sm_live m) (th_session d) of
           None \<Rightarrow> None
         | Some live \<Rightarrow> (case fmlookup (lv_toplevels live) (th_name d) of
               None \<Rightarrow> None
             | Some reg \<Rightarrow> if rt_handle reg = h then Some (th_session d, th_name d, lv_reason live) else None)))"

section \<open>Operations\<close>

definition schedule_session_save :: "'b session_manager \<Rightarrow> 'b session_manager" where
  "schedule_session_save m = m\<lparr>sm_save_armed := True\<rparr>"

definition init_object :: "ustr \<Rightarrow> nat \<Rightarrow> 'b session_manager \<Rightarrow> nat \<times> 'b session_manager" where
  "init_object data client m =
     (sm_next m, m\<lparr>sm_next := sm_next m + 1,
        sm_objects := fmupd (sm_next m) \<lparr>so_data = data, so_client = Some client\<rparr> (sm_objects m)\<rparr>)"

definition init_handle :: "ustr \<Rightarrow> ustr \<Rightarrow> 'b session_manager \<Rightarrow> nat \<times> 'b session_manager" where
  "init_handle sid name m =
     (sm_next m, m\<lparr>sm_next := sm_next m + 1,
        sm_handles := fmupd (sm_next m) \<lparr>th_session = sid, th_name = name\<rparr> (sm_handles m)\<rparr>)"

definition take_over :: "ustr \<Rightarrow> nat \<Rightarrow> nat \<Rightarrow> 'b session_manager \<Rightarrow> 'b session_manager \<times> session_event list" where
  "take_over sid resource reason m =
     (m\<lparr>sm_live := fmupd sid \<lparr>lv_resource = resource, lv_reason = reason, lv_toplevels = fmempty\<rparr> (sm_live m)\<rparr>,
      (case fmlookup (sm_live m) sid of
         None \<Rightarrow> []
       | Some previous \<Rightarrow> if client_of m (lv_resource previous) \<noteq> None then [Replaced (lv_resource previous)] else []))"

definition known_session :: "nat \<Rightarrow> ustr option \<Rightarrow> 'b session_manager \<Rightarrow> (ustr \<times> bool) option" where
  "known_session client session_id m = (case session_id of
       None \<Rightarrow> None
     | Some sid \<Rightarrow>
         (let holder = Option.bind (fmlookup (sm_live m) sid) (\<lambda>live. client_of m (lv_resource live))
          in if holder = None \<and> \<not> contains_session sid (sm_store m) then None
             else Some (sid, holder = Some client)))"

definition open_session :: "nat \<Rightarrow> nat \<Rightarrow> nat \<Rightarrow> ustr \<Rightarrow> 'b session_manager \<Rightarrow> nat \<times> 'b session_manager \<times> session_event list" where
  "open_session client reason now sid m =
     (let (r, m1) = init_object sid client m;
          (m2, ev) = take_over sid r reason m1
      in (r, schedule_session_save (m2\<lparr>sm_store := touch now sid (sm_store m2)\<rparr>), ev))"

text \<open>An invalid reason is a \<open>None\<close>; the errors of the manager are posted to its client's object.\<close>

definition get_session ::
  "nat \<Rightarrow> nat option \<Rightarrow> ustr option \<Rightarrow> ustr \<Rightarrow> nat \<Rightarrow> 'b session_manager \<Rightarrow> 'b session_manager \<times> session_event list" where
  "get_session client reason session_id uuid now m = (case reason of
       None \<Rightarrow> (let (r, m1) = init_object (lit ''<invalid>'') client m in (m1, [PostError r InvalidReason]))
     | Some rn \<Rightarrow> (case known_session client session_id m of
           Some (sid, True) \<Rightarrow> (let (r, m1) = init_object sid client m in (m1, [PostError r InUse]))
         | Some (sid, False) \<Rightarrow> (let (r, m1, ev) = open_session client rn now sid m in (m1, ev @ [Restored r]))
         | None \<Rightarrow> (let (r, m1, ev) = open_session client rn now uuid m in (m1, ev @ [Created r uuid]))))"

definition save_record ::
  "nat \<Rightarrow> (nat \<Rightarrow> toplevel_record option) \<Rightarrow> ustr option \<Rightarrow> ustr \<times> ustr \<times> nat \<Rightarrow> 'b session_store \<Rightarrow> 'b session_store" where
  "save_record now snap only reg store = (case reg of (sid, name, toplevel) \<Rightarrow>
     if only \<noteq> None \<and> only \<noteq> Some sid then store
     else (case snap toplevel of None \<Rightarrow> store | Some t \<Rightarrow> save_toplevel now sid name t store))"

definition save_live_toplevels ::
  "nat \<Rightarrow> (nat \<Rightarrow> toplevel_record option) \<Rightarrow> ustr option \<Rightarrow> 'b session_manager \<Rightarrow> 'b session_manager" where
  "save_live_toplevels now snap only m =
     m\<lparr>sm_store := fold (save_record now snap only) (live_registrations m) (sm_store m)\<rparr>"

definition session_remove :: "nat \<Rightarrow> 'b session_manager \<Rightarrow> 'b session_manager" where
  "session_remove r m = (case (session_of m r, fmlookup (sm_objects m) r) of
       (Some _, Some obj) \<Rightarrow>
         (let (store, removed) = remove_session (so_data obj) (sm_store m);
              m1 = m\<lparr>sm_store := store\<rparr>
          in if removed then schedule_session_save m1 else m1)
     | _ \<Rightarrow> m)"

definition session_destroyed ::
  "nat \<Rightarrow> (nat \<Rightarrow> toplevel_record option) \<Rightarrow> nat \<Rightarrow> 'b session_manager \<Rightarrow> 'b session_manager" where
  "session_destroyed now snap r m = (case fmlookup (sm_objects m) r of
       None \<Rightarrow> m
     | Some obj \<Rightarrow>
         (let m1 = m\<lparr>sm_objects := fmupd r (obj\<lparr>so_client := None\<rparr>) (sm_objects m)\<rparr> in
          if map_option lv_resource (fmlookup (sm_live m1) (so_data obj)) \<noteq> Some r then m1
          else (let m2 = schedule_session_save (save_live_toplevels now snap (Some (so_data obj)) m1)
                in m2\<lparr>sm_live := fmdrop (so_data obj) (sm_live m2)\<rparr>)))"

definition name_taken :: "ustr \<Rightarrow> live_session \<Rightarrow> 'b session_manager \<Rightarrow> bool" where
  "name_taken name live m \<longleftrightarrow> (case fmlookup (lv_toplevels live) name of
     None \<Rightarrow> False | Some reg \<Rightarrow> rt_toplevel reg \<notin> set (sm_dead_toplevels m))"

definition add_toplevel ::
  "nat \<Rightarrow> nat \<Rightarrow> ustr \<Rightarrow> 'b session_manager \<Rightarrow> 'b session_manager \<times> session_event list \<times> nat option" where
  "add_toplevel r toplevel name m = (case (session_of m r, fmlookup (sm_objects m) r) of
       (Some live, Some obj) \<Rightarrow>
         if name_taken name live m
         then (let (_, m1) = init_handle [] name m in (m1, [PostError r NameInUse], None))
         else (let (h, m1) = init_handle (so_data obj) name m;
                   live1 = live\<lparr>lv_toplevels :=
                     fmupd name \<lparr>rt_toplevel = toplevel, rt_handle = h\<rparr> (lv_toplevels live)\<rparr>
               in (m1\<lparr>sm_live := fmupd (so_data obj) live1 (sm_live m1)\<rparr>, [], Some h))
     | _ \<Rightarrow> (let (_, m1) = init_handle [] name m in (m1, [], None)))"

definition restore_toplevel ::
  "nat \<Rightarrow> nat \<Rightarrow> ustr \<Rightarrow> bool \<Rightarrow> 'b session_manager \<Rightarrow> 'b session_manager \<times> session_event list" where
  "restore_toplevel r toplevel name had_initial_commit m =
     (if had_initial_commit
      then (let (_, m1) = init_handle [] name m in (m1, [PostError r AlreadyMapped]))
      else (let known = (case fmlookup (sm_objects m) r of
                   None \<Rightarrow> False
                 | Some obj \<Rightarrow> (case fmlookup (st_sessions (sm_store m)) (so_data obj) of
                       None \<Rightarrow> False | Some rec \<Rightarrow> fmlookup (sr_toplevels rec) name \<noteq> None));
                (m1, ev, handle) = add_toplevel r toplevel name m
            in (m1, ev @ (case handle of Some h \<Rightarrow> if known then [RestoreRequested toplevel h] else [] | None \<Rightarrow> []))))"

definition session_remove_toplevel :: "nat \<Rightarrow> ustr \<Rightarrow> 'b session_manager \<Rightarrow> 'b session_manager" where
  "session_remove_toplevel r name m = (case (session_of m r, fmlookup (sm_objects m) r) of
       (Some live, Some obj) \<Rightarrow>
         (let m1 = m\<lparr>sm_live := fmupd (so_data obj) (live\<lparr>lv_toplevels := fmdrop name (lv_toplevels live)\<rparr>) (sm_live m)\<rparr>;
              (store, removed) = remove_toplevel (so_data obj) name (sm_store m1);
              m2 = m1\<lparr>sm_store := store\<rparr>
          in if removed then schedule_session_save m2 else m2)
     | _ \<Rightarrow> m)"

definition rename_move :: "nat \<Rightarrow> ustr \<Rightarrow> toplevel_handle \<Rightarrow> live_session \<Rightarrow> registered_toplevel \<Rightarrow> 'b session_manager \<Rightarrow> 'b session_manager" where
  "rename_move h new d live reg m =
     (let live1 = live\<lparr>lv_toplevels := fmupd new reg (fmdrop (th_name d) (lv_toplevels live))\<rparr>;
          m1 = m\<lparr>sm_live := fmupd (th_session d) live1 (sm_live m),
                 sm_handles := fmupd h (d\<lparr>th_name := new\<rparr>) (sm_handles m)\<rparr>;
          (store, renamed) = rename_toplevel (th_session d) (th_name d) new (sm_store m1);
          m2 = m1\<lparr>sm_store := store\<rparr>
      in if renamed then schedule_session_save m2 else m2)"

definition rename_handle :: "nat \<Rightarrow> ustr \<Rightarrow> 'b session_manager \<Rightarrow> 'b session_manager \<times> session_event list" where
  "rename_handle h new m = (case fmlookup (sm_handles m) h of
       None \<Rightarrow> (m, [])
     | Some d \<Rightarrow> (case fmlookup (sm_live m) (th_session d) of
           None \<Rightarrow> (m, [])
         | Some live \<Rightarrow> (case fmlookup (lv_toplevels live) (th_name d) of
               None \<Rightarrow> (m, [])
             | Some reg \<Rightarrow>
                 if rt_handle reg \<noteq> h then (m, [])
                 else if th_name d = new then (m, [])
                 else if fmlookup (lv_toplevels live) new \<noteq> None
                 then (m, [PostError (lv_resource live) NameInUse])
                 else (rename_move h new d live reg m, []))))"

text \<open>A window goes away: its record under every name it is registered with.\<close>

definition save_session_toplevel ::
  "nat \<Rightarrow> nat \<Rightarrow> toplevel_record option \<Rightarrow> 'b session_manager \<Rightarrow> 'b session_manager" where
  "save_session_toplevel now toplevel record m =
     (if registrations_for toplevel m = [] then m
      else (case record of
              None \<Rightarrow> m
            | Some t \<Rightarrow> schedule_session_save (m\<lparr>sm_store :=
                fold (\<lambda>(sid, name) store. save_toplevel now sid name t store) (registrations_for toplevel m) (sm_store m)\<rparr>)))"

definition save_session_store :: "'b json_codec \<Rightarrow> 'b session_manager \<Rightarrow> 'b session_manager" where
  "save_session_store j m =
     (if \<not> st_dirty (sm_store m) then m else m\<lparr>sm_store := fst (save_store j (sm_store m))\<rparr>)"

section \<open>The protocol as a machine\<close>

text \<open>
  Requests of clients, objects going away with the layout at that moment, windows unmapping, and
  the debounced save. \<open>PRemove\<close> and \<open>PDestroy\<close> are destructors: the object is destroyed next.
\<close>

datatype proto_op =
    PGet nat "nat option" "ustr option" ustr nat
  | PRemove nat nat "nat \<Rightarrow> toplevel_record option"
  | PDestroy nat nat "nat \<Rightarrow> toplevel_record option"
  | PAdd nat nat ustr
  | PRestore nat nat ustr bool
  | PRemoveToplevel nat ustr
  | PRename nat ustr
  | PUnmap nat nat "toplevel_record option"
  | PToplevelGone nat
  | PSave

fun proto_step :: "'b json_codec \<Rightarrow> proto_op \<Rightarrow> 'b session_manager \<Rightarrow> 'b session_manager" where
  "proto_step j (PGet client reason sid uuid now) m = fst (get_session client reason sid uuid now m)"
| "proto_step j (PRemove r now snap) m = session_destroyed now snap r (session_remove r m)"
| "proto_step j (PDestroy r now snap) m = session_destroyed now snap r m"
| "proto_step j (PAdd r t name) m = fst (add_toplevel r t name m)"
| "proto_step j (PRestore r t name committed) m = fst (restore_toplevel r t name committed m)"
| "proto_step j (PRemoveToplevel r name) m = session_remove_toplevel r name m"
| "proto_step j (PRename h name) m = fst (rename_handle h name m)"
| "proto_step j (PUnmap now t rec) m = save_session_toplevel now t rec m"
| "proto_step j (PToplevelGone t) m = m\<lparr>sm_dead_toplevels := t # sm_dead_toplevels m\<rparr>"
| "proto_step j PSave m = (save_session_store j m)\<lparr>sm_save_armed := False\<rparr>"

text \<open>What the store remembers of the windows of a session.\<close>

definition windows :: "'b session_store \<Rightarrow> ustr \<Rightarrow> (ustr, toplevel_record) fmap" where
  "windows s sid = (case fmlookup (st_sessions s) sid of None \<Rightarrow> fmempty | Some r \<Rightarrow> sr_toplevels r)"

definition holder :: "'b session_manager \<Rightarrow> ustr \<Rightarrow> nat option" where
  "holder m sid = map_option lv_resource (fmlookup (sm_live m) sid)"

lemma windows_touch [simp]: "windows (touch now a s) sid = windows s sid"
  by (simp add: windows_def touch_def touched_def default_session_def split: option.split)

lemma windows_remove [simp]: "windows (fst (remove_session a s)) sid = (if a = sid then fmempty else windows s sid)"
  by (simp add: windows_def remove_session_def Let_def split: option.split)

lemma windows_remove_toplevel:
  "windows (fst (remove_toplevel a name s)) sid = (if a = sid then fmdrop name (windows s sid) else windows s sid)"
  by (simp add: windows_def remove_toplevel_def Let_def split: option.split)

lemma windows_rename:
  "a \<noteq> sid \<Longrightarrow> windows (fst (rename_toplevel a old new s)) sid = windows s sid"
  by (simp add: windows_def rename_toplevel_def Let_def split: option.split)

lemma windows_save [simp]:
  "windows (save_toplevel now a name t s) sid = (if a = sid then fmupd name t (windows s sid) else windows s sid)"
  by (simp add: windows_def save_toplevel_def touch_def touched_def default_session_def Let_def split: option.split)

lemma windows_saved [simp]: "windows (fst (save_store j s)) sid = windows s sid"
  by (simp add: windows_def save_store_def Let_def split: option.split)

lemma windows_fold_only:
  "a \<noteq> sid \<Longrightarrow> windows (fold (save_record now snap (Some a)) regs s) sid = windows s sid"
  by (induction regs arbitrary: s) (auto simp: save_record_def split: option.split)

lemma windows_fold_names:
  "sid \<notin> fst ` set regs \<Longrightarrow> windows (fold (\<lambda>(a, name) s. save_toplevel now a name t s) regs s) sid = windows s sid"
  by (induction regs arbitrary: s) auto

lemma registrations_iff:
  "(sid, name) \<in> set (registrations_for t m) \<longleftrightarrow>
     (\<exists>live reg. fmlookup (sm_live m) sid = Some live \<and> fmlookup (lv_toplevels live) name = Some reg \<and> rt_toplevel reg = t)"
  by (auto simp: registrations_for_def sorted_list_of_fmap_def sorted_list_of_fset.rep_eq fmlookup_dom_iff
      split_beta image_iff)

lemma live_registrations_iff:
  "(sid, name, t) \<in> set (live_registrations m) \<longleftrightarrow>
     (\<exists>live reg. fmlookup (sm_live m) sid = Some live \<and> fmlookup (lv_toplevels live) name = Some reg \<and> rt_toplevel reg = t)"
  by (auto simp: live_registrations_def sorted_list_of_fmap_def sorted_list_of_fset.rep_eq fmlookup_dom_iff
      split_beta image_iff)

lemma session_of_iff:
  "session_of m r = Some live \<longleftrightarrow>
     (\<exists>obj. fmlookup (sm_objects m) r = Some obj \<and> fmlookup (sm_live m) (so_data obj) = Some live \<and> lv_resource live = r)"
  by (auto simp: session_of_def split: option.splits if_splits)

section \<open>Who may change what\<close>

text \<open>The session object a request comes from.\<close>

fun requester :: "proto_op \<Rightarrow> nat option" where
  "requester (PRemove r _ _) = Some r"
| "requester (PDestroy r _ _) = Some r"
| "requester (PRemoveToplevel r _) = Some r"
| "requester _ = None"

lemma get_session_windows [simp]: "windows (sm_store (fst (get_session c rn s u now m))) sid = windows (sm_store m) sid"
  by (simp add: get_session_def open_session_def init_object_def take_over_def schedule_session_save_def Let_def
      split_beta split: option.split bool.split)

lemma add_toplevel_store [simp]: "sm_store (fst (add_toplevel r t name m)) = sm_store m"
  by (simp add: add_toplevel_def init_handle_def Let_def split: option.split)

lemma restore_toplevel_store [simp]: "sm_store (fst (restore_toplevel r t name c m)) = sm_store m"
  by (simp add: restore_toplevel_def init_handle_def Let_def split_beta)

lemma destroyed_windows:
  assumes "windows (sm_store (session_destroyed now snap r m)) sid \<noteq> windows (sm_store m) sid"
  shows "holder m sid = Some r"
proof (cases "fmlookup (sm_objects m) r")
  case (Some obj)
  have "so_data obj = sid" "map_option lv_resource (fmlookup (sm_live m) (so_data obj)) = Some r"
    using assms Some windows_fold_only [of "so_data obj" sid now snap "live_registrations _" "sm_store m"]
    by (auto simp: session_destroyed_def Let_def save_live_toplevels_def schedule_session_save_def split: if_splits)
  then show ?thesis by (simp add: holder_def)
qed (use assms in \<open>simp add: session_destroyed_def\<close>)

lemma remove_windows:
  assumes "windows (sm_store (session_remove r m)) sid \<noteq> windows (sm_store m) sid"
  shows "holder m sid = Some r"
proof (cases "session_of m r")
  case (Some live)
  then obtain obj where o: "fmlookup (sm_objects m) r = Some obj" "fmlookup (sm_live m) (so_data obj) = Some live"
    "lv_resource live = r" by (auto simp: session_of_iff)
  with assms Some windows_remove [of "so_data obj" "sm_store m" sid] have "so_data obj = sid"
    by (auto simp: session_remove_def schedule_session_save_def Let_def split_beta split: if_splits)
  with o show ?thesis by (simp add: holder_def)
qed (use assms in \<open>simp add: session_remove_def\<close>)

lemma remove_live [simp]: "sm_live (session_remove r m) = sm_live m" "sm_objects (session_remove r m) = sm_objects m"
  by (simp_all add: session_remove_def schedule_session_save_def Let_def split_beta split: option.split)

lemma remove_toplevel_windows:
  assumes "windows (sm_store (session_remove_toplevel r name m)) sid \<noteq> windows (sm_store m) sid"
  shows "holder m sid = Some r"
proof (cases "session_of m r")
  case (Some live)
  then obtain obj where o: "fmlookup (sm_objects m) r = Some obj" "fmlookup (sm_live m) (so_data obj) = Some live"
    "lv_resource live = r" by (auto simp: session_of_iff)
  with assms Some windows_remove_toplevel [of "so_data obj" name "sm_store m" sid] have "so_data obj = sid"
    by (auto simp: session_remove_toplevel_def schedule_session_save_def Let_def split_beta split: if_splits)
  with o show ?thesis by (simp add: holder_def)
qed (use assms in \<open>simp add: session_remove_toplevel_def\<close>)

lemma rename_windows:
  assumes "windows (sm_store (fst (rename_handle h new m))) sid \<noteq> windows (sm_store m) sid"
  shows "\<exists>name rn. restore_target_for h m = Some (sid, name, rn)"
proof -
  from assms obtain d where d: "fmlookup (sm_handles m) h = Some d"
    by (auto simp: rename_handle_def split: option.splits)
  from assms d obtain live where live: "fmlookup (sm_live m) (th_session d) = Some live"
    by (auto simp: rename_handle_def split: option.splits)
  from assms d live obtain reg where reg: "fmlookup (lv_toplevels live) (th_name d) = Some reg"
    by (auto simp: rename_handle_def split: option.splits)
  have "rt_handle reg = h" "th_session d = sid"
    using assms d live reg windows_rename [of "th_session d" sid "th_name d" new "sm_store m"]
    by (auto simp: rename_handle_def rename_move_def schedule_session_save_def Let_def split_beta split: if_splits)
  with d live reg show ?thesis by (simp add: restore_target_for_def)
qed

lemma unmap_windows:
  assumes "windows (sm_store (save_session_toplevel now t rec m)) sid \<noteq> windows (sm_store m) sid"
  shows "\<exists>name. (sid, name) \<in> set (registrations_for t m)"
proof -
  have "sid \<in> fst ` set (registrations_for t m)"
    using assms windows_fold_names [of sid "registrations_for t m" now _ "sm_store m"]
    by (auto simp: save_session_toplevel_def schedule_session_save_def split: if_splits option.splits)
  then show ?thesis by force
qed

lemma remove_destroy_windows:
  assumes "windows (sm_store (session_destroyed now snap r (session_remove r m))) sid \<noteq> windows (sm_store m) sid"
  shows "holder m sid = Some r"
proof (cases "windows (sm_store (session_remove r m)) sid = windows (sm_store m) sid")
  case True
  with assms destroyed_windows [of now snap r "session_remove r m" sid] show ?thesis by (simp add: holder_def)
qed (rule remove_windows)

section \<open>Inert objects\<close>

text \<open>
  Numbers are handed out once, a held session is held by an object that was made for it, and
  every registered handle carries the session and the name it is registered under.
\<close>

definition manager_ok :: "'b session_manager \<Rightarrow> bool" where
  "manager_ok m \<longleftrightarrow>
     (\<forall>r obj. fmlookup (sm_objects m) r = Some obj \<longrightarrow> r < sm_next m) \<and>
     (\<forall>h d. fmlookup (sm_handles m) h = Some d \<longrightarrow> h < sm_next m) \<and>
     (\<forall>sid live. fmlookup (sm_live m) sid = Some live \<longrightarrow>
        (\<exists>obj. fmlookup (sm_objects m) (lv_resource live) = Some obj \<and> so_data obj = sid) \<and>
        (\<forall>name reg. fmlookup (lv_toplevels live) name = Some reg \<longrightarrow>
           fmlookup (sm_handles m) (rt_handle reg) = Some \<lparr>th_session = sid, th_name = name\<rparr>))"

lemma manager_ok_new: "manager_ok (new_manager store)"
  by (simp add: manager_ok_def new_manager_def)

lemma manager_ok_frame:
  assumes "sm_live m' = sm_live m" "sm_objects m' = sm_objects m" "sm_handles m' = sm_handles m" "sm_next m' = sm_next m"
  shows "manager_ok m' = manager_ok m"
  using assms by (simp add: manager_ok_def)

lemma init_object_ok: "manager_ok m \<Longrightarrow> manager_ok (snd (init_object data c m))"
  by (fastforce simp: manager_ok_def init_object_def)

lemma init_handle_ok: "manager_ok m \<Longrightarrow> manager_ok (snd (init_handle sid name m))"
  by (fastforce simp: manager_ok_def init_handle_def)

lemma open_session_ok: "manager_ok m \<Longrightarrow> manager_ok (fst (snd (open_session c rn now sid m)))"
  by (fastforce simp: manager_ok_def open_session_def init_object_def take_over_def schedule_session_save_def
      Let_def split_beta)

lemma get_session_ok: "manager_ok m \<Longrightarrow> manager_ok (fst (get_session c rn s u now m))"
  using init_object_ok open_session_ok
  by (auto simp: get_session_def Let_def split_beta split: option.split bool.split)

lemma live_drop_ok: "manager_ok m \<Longrightarrow> manager_ok (m\<lparr>sm_live := fmdrop sid (sm_live m)\<rparr>)"
  by (simp add: manager_ok_def)

lemma live_dead_ok:
  "manager_ok m \<Longrightarrow> fmlookup (sm_objects m) r = Some obj \<Longrightarrow>
     manager_ok (m\<lparr>sm_objects := fmupd r (obj\<lparr>so_client := None\<rparr>) (sm_objects m)\<rparr>)"
  by (fastforce simp: manager_ok_def)

lemma destroyed_ok: "manager_ok m \<Longrightarrow> manager_ok (session_destroyed now snap r m)"
proof (cases "fmlookup (sm_objects m) r")
  case (Some obj)
  assume "manager_ok m"
  define m1 where "m1 = m\<lparr>sm_objects := fmupd r (obj\<lparr>so_client := None\<rparr>) (sm_objects m)\<rparr>"
  define m2 where "m2 = schedule_session_save (save_live_toplevels now snap (Some (so_data obj)) m1)"
  have m1: "manager_ok m1" unfolding m1_def using \<open>manager_ok m\<close> Some by (rule live_dead_ok)
  then have "manager_ok m2"
    by (simp add: m2_def schedule_session_save_def save_live_toplevels_def manager_ok_def)
  then have "manager_ok (m2\<lparr>sm_live := fmdrop (so_data obj) (sm_live m2)\<rparr>)" by (rule live_drop_ok)
  with m1 show ?thesis
    unfolding session_destroyed_def Some option.case Let_def m1_def [symmetric] m2_def [symmetric] by simp
qed (simp add: session_destroyed_def)

lemma remove_handles [simp]: "sm_handles (session_remove r m) = sm_handles m" "sm_next (session_remove r m) = sm_next m"
  by (simp_all add: session_remove_def schedule_session_save_def Let_def split_beta split: option.split)

lemma live_update_ok:
  assumes "manager_ok m" "fmlookup (sm_live m) sid = Some live" "lv_resource live' = lv_resource live"
    and "\<And>name reg. fmlookup (lv_toplevels live') name = Some reg \<Longrightarrow>
      fmlookup (sm_handles m) (rt_handle reg) = Some \<lparr>th_session = sid, th_name = name\<rparr>"
  shows "manager_ok (m\<lparr>sm_live := fmupd sid live' (sm_live m)\<rparr>)"
  using assms by (auto simp: manager_ok_def)

lemma add_toplevel_ok: "manager_ok m \<Longrightarrow> manager_ok (fst (add_toplevel r t name m))"
proof (cases "session_of m r")
  case (Some live)
  assume ok: "manager_ok m"
  obtain obj where o: "fmlookup (sm_objects m) r = Some obj" "fmlookup (sm_live m) (so_data obj) = Some live"
    using Some by (auto simp: session_of_iff)
  define m1 where "m1 = snd (init_handle (so_data obj) name m)"
  define live1 where "live1 = live\<lparr>lv_toplevels := fmupd name \<lparr>rt_toplevel = t, rt_handle = sm_next m\<rparr> (lv_toplevels live)\<rparr>"
  have m1: "manager_ok m1" unfolding m1_def using ok by (rule init_handle_ok)
  have "manager_ok (m1\<lparr>sm_live := fmupd (so_data obj) live1 (sm_live m1)\<rparr>)"
  proof (rule live_update_ok [OF m1])
    show "fmlookup (sm_live m1) (so_data obj) = Some live" using o by (simp add: m1_def init_handle_def)
    show "lv_resource live1 = lv_resource live" by (simp add: live1_def)
    fix n reg assume "fmlookup (lv_toplevels live1) n = Some reg"
    with ok o show "fmlookup (sm_handles m1) (rt_handle reg) = Some \<lparr>th_session = so_data obj, th_name = n\<rparr>"
      by (fastforce simp: live1_def m1_def init_handle_def manager_ok_def split: if_splits)
  qed
  with ok o Some init_handle_ok [OF ok, of "[]" name] show ?thesis
    by (simp add: add_toplevel_def m1_def live1_def init_handle_def Let_def)
qed (use init_handle_ok [of m "[]" name] in \<open>simp add: add_toplevel_def Let_def split_beta\<close>)

lemma restore_toplevel_ok: "manager_ok m \<Longrightarrow> manager_ok (fst (restore_toplevel r t name c m))"
  by (simp add: restore_toplevel_def Let_def split_beta init_handle_ok add_toplevel_ok)

lemma remove_toplevel_ok: "manager_ok m \<Longrightarrow> manager_ok (session_remove_toplevel r name m)"
proof (cases "session_of m r")
  case (Some live)
  assume ok: "manager_ok m"
  obtain obj where o: "fmlookup (sm_objects m) r = Some obj" "fmlookup (sm_live m) (so_data obj) = Some live"
    using Some by (auto simp: session_of_iff)
  have "manager_ok (m\<lparr>sm_live := fmupd (so_data obj) (live\<lparr>lv_toplevels := fmdrop name (lv_toplevels live)\<rparr>) (sm_live m)\<rparr>)"
    by (rule live_update_ok [OF ok o(2)]) (use ok o in \<open>auto simp: manager_ok_def split: if_splits\<close>)
  with Some o show ?thesis
    by (simp add: session_remove_toplevel_def schedule_session_save_def Let_def split_beta manager_ok_def)
qed (simp add: session_remove_toplevel_def)

lemma rename_move_ok:
  assumes ok: "manager_ok m" and h: "fmlookup (sm_handles m) h = Some d"
    and l: "fmlookup (sm_live m) (th_session d) = Some live"
    and r: "fmlookup (lv_toplevels live) (th_name d) = Some reg" "rt_handle reg = h"
  shows "manager_ok (rename_move h new d live reg m)"
proof -
  define live1 where "live1 = live\<lparr>lv_toplevels := fmupd new reg (fmdrop (th_name d) (lv_toplevels live))\<rparr>"
  define m1 where "m1 = m\<lparr>sm_handles := fmupd h (d\<lparr>th_name := new\<rparr>) (sm_handles m)\<rparr>"
  define m2 where "m2 = m1\<lparr>sm_live := fmupd (th_session d) live1 (sm_live m1)\<rparr>"
  have old: "fmlookup (sm_handles m1) (rt_handle g) = Some \<lparr>th_session = sid, th_name = n\<rparr>"
    if "fmlookup (sm_live m) sid = Some v" "fmlookup (lv_toplevels v) n = Some g" "\<not> (sid = th_session d \<and> n = th_name d)"
    for sid v n g
  proof -
    have g: "fmlookup (sm_handles m) (rt_handle g) = Some \<lparr>th_session = sid, th_name = n\<rparr>"
      using ok that(1,2) by (auto simp: manager_ok_def)
    with h that(3) have "rt_handle g \<noteq> h" by auto
    with g show ?thesis by (simp add: m1_def)
  qed
  have new: "fmlookup (sm_handles m1) h = Some \<lparr>th_session = th_session d, th_name = new\<rparr>"
    by (cases d) (simp add: m1_def)
  have "manager_ok m2"
    unfolding manager_ok_def
  proof (intro conjI allI impI)
    show "x < sm_next m2" if "fmlookup (sm_objects m2) x = Some v" for x v
      using ok that by (simp add: manager_ok_def m2_def m1_def)
    show "x < sm_next m2" if "fmlookup (sm_handles m2) x = Some v" for x v
      using ok h that by (auto simp: manager_ok_def m2_def m1_def split: if_splits)
    fix sid v assume v: "fmlookup (sm_live m2) sid = Some v"
    show "\<exists>obj. fmlookup (sm_objects m2) (lv_resource v) = Some obj \<and> so_data obj = sid"
      using ok l v by (auto simp: manager_ok_def m2_def m1_def live1_def split: if_splits)
    fix n g assume g: "fmlookup (lv_toplevels v) n = Some g"
    show "fmlookup (sm_handles m2) (rt_handle g) = Some \<lparr>th_session = sid, th_name = n\<rparr>"
    proof (cases "sid = th_session d")
      case True
      then have "v = live1" using v by (simp add: m2_def)
      with g True new old [OF l, of n g] r show ?thesis by (auto simp: live1_def m2_def split: if_splits)
    next
      case False
      with v g old [of sid v n g] show ?thesis by (simp add: m2_def m1_def)
    qed
  qed
  then show ?thesis
    by (simp add: rename_move_def schedule_session_save_def Let_def split_beta manager_ok_def live1_def m1_def m2_def)
qed

lemma rename_ok: "manager_ok m \<Longrightarrow> manager_ok (fst (rename_handle h new m))"
  by (auto simp: rename_handle_def rename_move_ok split: option.split)

lemma proto_step_ok: "manager_ok m \<Longrightarrow> manager_ok (proto_step j x m)"
proof (cases x)
  case (PRemove r now snap)
  assume "manager_ok m"
  then have "manager_ok (session_remove r m)" by (simp add: manager_ok_def)
  with PRemove show ?thesis by (simp add: destroyed_ok)
next
  case (PUnmap now t rec)
  assume "manager_ok m"
  then show ?thesis unfolding PUnmap
    by (simp add: save_session_toplevel_def schedule_session_save_def manager_ok_def split: option.split)
next
  case PSave
  assume "manager_ok m"
  then show ?thesis unfolding PSave by (simp add: save_session_store_def manager_ok_def)
next
  case (PToplevelGone t)
  assume "manager_ok m"
  then show ?thesis unfolding PToplevelGone by (simp add: manager_ok_def)
qed (simp_all add: get_session_ok destroyed_ok add_toplevel_ok restore_toplevel_ok remove_toplevel_ok rename_ok)

interpretation protocol: invariant_machine "proto_step j" manager_ok for j
  by unfold_locales (rule proto_step_ok)

text \<open>An object that does not hold its session never comes to hold it.\<close>

definition inert :: "'b session_manager \<Rightarrow> nat \<Rightarrow> bool" where
  "inert m r \<longleftrightarrow> session_of m r = None"

lemma inertI:
  assumes "inert m r" "r < sm_next m"
    and "\<And>obj'. fmlookup (sm_objects m') r = Some obj' \<Longrightarrow>
      \<exists>obj. fmlookup (sm_objects m) r = Some obj \<and> so_data obj' = so_data obj"
    and "\<And>sid live'. fmlookup (sm_live m') sid = Some live' \<Longrightarrow> lv_resource live' = r \<Longrightarrow>
      \<exists>live. fmlookup (sm_live m) sid = Some live \<and> lv_resource live = r"
  shows "inert m' r"
proof (rule ccontr)
  assume "\<not> inert m' r"
  then obtain live' where "session_of m' r = Some live'" by (auto simp: inert_def)
  then obtain obj' where o: "fmlookup (sm_objects m') r = Some obj'" "fmlookup (sm_live m') (so_data obj') = Some live'"
    "lv_resource live' = r" by (auto simp: session_of_iff)
  from assms(3) [OF o(1)] assms(4) [OF o(2,3)] have "session_of m r \<noteq> None"
    by (auto simp: session_of_def)
  with assms(1) show False by (simp add: inert_def)
qed

lemma inert_get: "inert m r \<Longrightarrow> r < sm_next m \<Longrightarrow> inert (fst (get_session c rn s u now m)) r"
  by (erule inertI)
     (auto simp: get_session_def open_session_def init_object_def take_over_def schedule_session_save_def Let_def
       split_beta split: option.splits bool.splits if_splits)

lemma inert_destroyed: "inert m r \<Longrightarrow> r < sm_next m \<Longrightarrow> inert (session_destroyed now snap r' m) r"
  by (erule inertI)
     (auto simp: session_destroyed_def save_live_toplevels_def schedule_session_save_def Let_def
       split: option.splits if_splits)

lemma inert_add: "inert m r \<Longrightarrow> r < sm_next m \<Longrightarrow> inert (fst (add_toplevel r' t name m)) r"
  by (erule inertI)
     (auto simp: add_toplevel_def init_handle_def session_of_iff Let_def split: option.splits if_splits)

lemma inert_restore: "inert m r \<Longrightarrow> r < sm_next m \<Longrightarrow> inert (fst (restore_toplevel r' t name c m)) r"
proof -
  assume m: "inert m r" "r < sm_next m"
  have "inert (snd (init_handle [] name m)) r"
    by (rule inertI [OF m]) (auto simp: init_handle_def)
  with inert_add [OF m] show ?thesis by (simp add: restore_toplevel_def Let_def split_beta)
qed

lemma inert_remove_toplevel: "inert m r \<Longrightarrow> r < sm_next m \<Longrightarrow> inert (session_remove_toplevel r' name m) r"
  by (erule inertI)
     (auto simp: session_remove_toplevel_def schedule_session_save_def session_of_iff Let_def split_beta
       split: option.splits if_splits)

lemma inert_rename: "inert m r \<Longrightarrow> r < sm_next m \<Longrightarrow> inert (fst (rename_handle h name m)) r"
  by (erule inertI)
     (auto simp: rename_handle_def rename_move_def schedule_session_save_def Let_def split_beta
       split: option.splits if_splits)

lemma inert_frame: "inert m r \<Longrightarrow> sm_live m' = sm_live m \<Longrightarrow> sm_objects m' = sm_objects m \<Longrightarrow> inert m' r"
  by (simp add: inert_def session_of_def cong: option.case_cong)

lemma inert_step: "inert m r \<Longrightarrow> r < sm_next m \<Longrightarrow> inert (proto_step j x m) r"
proof (cases x)
  case (PRemove r' now snap)
  assume m: "inert m r" "r < sm_next m"
  have "inert (session_remove r' m) r" by (rule inert_frame [OF m(1)]) simp_all
  with m PRemove show ?thesis by (simp add: inert_destroyed)
next
  case (PUnmap now t rec)
  assume m: "inert m r"
  show ?thesis unfolding PUnmap
    by (rule inert_frame [OF m]) (simp_all add: save_session_toplevel_def schedule_session_save_def split: option.split)
next
  case PSave
  assume m: "inert m r"
  show ?thesis unfolding PSave by (rule inert_frame [OF m]) (simp_all add: save_session_store_def)
next
  case (PToplevelGone t)
  assume m: "inert m r"
  show ?thesis unfolding PToplevelGone by (rule inert_frame [OF m]) simp_all
qed (simp_all add: inert_get inert_destroyed inert_add inert_restore inert_remove_toplevel inert_rename)

lemma next_mono: "sm_next m \<le> sm_next (proto_step j x m)"
  by (cases x)
     (auto simp: get_session_def open_session_def init_object_def init_handle_def take_over_def schedule_session_save_def
       session_destroyed_def save_live_toplevels_def add_toplevel_def restore_toplevel_def session_remove_toplevel_def
       rename_handle_def rename_move_def save_session_toplevel_def save_session_store_def Let_def split_beta
       split: option.split bool.split)

lemma inert_run: "inert m r \<Longrightarrow> r < sm_next m \<Longrightarrow> inert (run (proto_step j) xs m) r"
proof (induction xs arbitrary: m)
  case (Cons x xs)
  with inert_step [of m r j x] next_mono [of m j x] show ?case by simp
qed simp

section \<open>Properties of the protocol\<close>


definition example_record :: toplevel_record where
  "example_record = \<lparr>tr_state = Some 2, tr_floating_rect = None, tr_tiled_rect = None, tr_displaced_rect = None,
      tr_auto_maximized = False, tr_is_minimized = False, tr_workspace = None, tr_workspace_name = None, tr_output = None\<rparr>"

definition held_manager :: "store_file session_manager" where
  "held_manager = run (proto_step identity_codec) [PGet 1 (Some 0) (Some (lit ''s'')) (lit ''u'') 5]
     (new_manager (save_toplevel 3 (lit ''s'') (lit ''main'') example_record in_memory))"

lemma held_manager_facts:
  "fmlookup (sm_objects held_manager) 0 = Some \<lparr>so_data = lit ''s'', so_client = Some 1\<rparr>"
  "fmlookup (sm_live held_manager) (lit ''s'') = Some \<lparr>lv_resource = 0, lv_reason = 0, lv_toplevels = fmempty\<rparr>"
  "windows (sm_store held_manager) (lit ''s'') = fmupd (lit ''main'') example_record fmempty"
  "sm_next held_manager = 1"
proof -
  let ?s = "save_toplevel 3 (lit ''s'') (lit ''main'') example_record in_memory :: store_file session_store"
  have c: "contains_session (lit ''s'') ?s"
    by (simp add: contains_session_def save_toplevel_def touch_def Let_def)
  have w: "windows ?s (lit ''s'') = fmupd (lit ''main'') example_record fmempty"
    using windows_save [of 3 "lit ''s''" "lit ''main''" example_record "in_memory :: store_file session_store" "lit ''s''"]
    by (simp add: windows_def in_memory_def)
  show "fmlookup (sm_objects held_manager) 0 = Some \<lparr>so_data = lit ''s'', so_client = Some 1\<rparr>"
    "fmlookup (sm_live held_manager) (lit ''s'') = Some \<lparr>lv_resource = 0, lv_reason = 0, lv_toplevels = fmempty\<rparr>"
    "windows (sm_store held_manager) (lit ''s'') = fmupd (lit ''main'') example_record fmempty"
    "sm_next held_manager = 1"
    using c w
    by (simp_all add: held_manager_def get_session_def known_session_def open_session_def init_object_def take_over_def
        schedule_session_save_def new_manager_def Let_def)
qed

lemma held_manager_holder: "holder held_manager (lit ''s'') = Some 0" "client_of held_manager 0 = Some 1"
  "session_of held_manager 0 = Some \<lparr>lv_resource = 0, lv_reason = 0, lv_toplevels = fmempty\<rparr>"
  by (simp_all add: holder_def client_of_def session_of_def held_manager_facts)

lemma main_window: "fmdrop (lit ''main'') (fmupd (lit ''main'') r fmempty) \<noteq> fmupd (lit ''main'') r fmempty"
proof
  assume "fmdrop (lit ''main'') (fmupd (lit ''main'') r fmempty) = fmupd (lit ''main'') r fmempty"
  then have "fmlookup (fmdrop (lit ''main'') (fmupd (lit ''main'') r fmempty)) (lit ''main'')
      = fmlookup (fmupd (lit ''main'') r fmempty) (lit ''main'')" by (rule arg_cong)
  then show False by simp
qed


text \<open>
  C28. One holder, and a replaced one stays replaced. When a client asks for a session another
  client holds, the session goes to the new object, the old one is told \<open>replaced\<close>, and whatever
  happens from then on the old object is inert: no request on it acts on the session again.
\<close>

theorem replaced_session_stays_inert:
  assumes "m = run (proto_step j) xs (new_manager store)" and "holder m sid = Some r"
    and "client_of m r = Some c" and "c \<noteq> c'"
  shows "\<exists>m' ev. get_session c' (Some rn) (Some sid) uuid now m = (m', ev) \<and> ev = [Replaced r, Restored (sm_next m)] \<and>
    holder m' sid = Some (sm_next m) \<and> r \<noteq> sm_next m \<and> (\<forall>ys. inert (run (proto_step j) ys m') r)"
proof -
  have ok: "manager_ok m" unfolding assms(1) by (rule protocol.run_inv [OF manager_ok_new])
  from assms(2) obtain live where live: "fmlookup (sm_live m) sid = Some live" "lv_resource live = r"
    by (auto simp: holder_def)
  with ok obtain obj where obj: "fmlookup (sm_objects m) r = Some obj" "so_data obj = sid"
    unfolding manager_ok_def by blast
  with ok have r: "r < sm_next m" by (auto simp: manager_ok_def)
  define m' where "m' = fst (get_session c' (Some rn) (Some sid) uuid now m)"
  have k: "known_session c' (Some sid) m = Some (sid, False)"
    using live assms(3,4) by (simp add: known_session_def)
  have g: "get_session c' (Some rn) (Some sid) uuid now m = (m', [Replaced r, Restored (sm_next m)])"
    using live assms(3) r
    by (simp add: m'_def get_session_def k open_session_def init_object_def take_over_def client_of_def Let_def)
  have m': "holder m' sid = Some (sm_next m)" "sm_next m < sm_next m'"
    by (simp_all add: m'_def get_session_def k open_session_def init_object_def take_over_def schedule_session_save_def
        holder_def Let_def)
  have "fmlookup (sm_objects m') r = Some obj"
    using obj r by (simp add: m'_def get_session_def k open_session_def init_object_def take_over_def
        schedule_session_save_def Let_def)
  then have "inert m' r" using m'(1) obj(2) r by (auto simp: inert_def session_of_def holder_def split: option.splits)
  moreover have "r < sm_next m'" using r m'(2) by simp
  ultimately show ?thesis using g m' r inert_run by blast
qed

theorem replaced_session_stays_inert_witness:
  "\<exists>m' ev. get_session 2 (Some 0) (Some (lit ''s'')) (lit ''u'') 9 held_manager = (m', ev) \<and>
     ev = [Replaced 0, Restored 1] \<and> holder m' (lit ''s'') = Some 1 \<and>
     (\<forall>ys. inert (run (proto_step identity_codec) ys m') 0)"
  using replaced_session_stays_inert [OF held_manager_def held_manager_holder(1,2), of 2 0 "lit ''u''" 9]
  by (auto simp: held_manager_facts(4))

text \<open>
  C29. Removing a session. When the object that holds a session sends \<open>remove\<close>, the session is
  gone from the store afterwards exactly if none of the windows registered in it is still mapped.
  With one that is, the destruction of the object that follows saves that window's record, which
  makes the session anew: the store still knows it, with the record under the window's name.
\<close>

lemma contains_save [simp]:
  "contains_session a (save_toplevel now sid name t s) \<longleftrightarrow> a = sid \<or> contains_session a s"
  by (auto simp: contains_session_def save_toplevel_def touch_def Let_def)

lemma contains_fold:
  "contains_session sid (fold (save_record now snap (Some sid)) regs s) \<longleftrightarrow>
     contains_session sid s \<or> (\<exists>name t. (sid, name, t) \<in> set regs \<and> snap t \<noteq> None)"
proof (induction regs arbitrary: s)
  case (Cons reg regs)
  obtain a name t where reg: "reg = (a, name, t)" by (cases reg)
  have "contains_session sid (save_record now snap (Some sid) reg s) \<longleftrightarrow>
      contains_session sid s \<or> (a = sid \<and> snap t \<noteq> None)"
    by (auto simp: reg save_record_def split: option.split)
  with Cons.IH [of "save_record now snap (Some sid) reg s"] show ?case by (auto simp: reg)
qed simp

theorem removed_session_comes_back:
  assumes "session_of m r = Some live" and "fmlookup (sm_objects m) r = Some obj"
  shows "contains_session (so_data obj) (sm_store (proto_step j (PRemove r now snap) m)) \<longleftrightarrow>
    (\<exists>name reg t. fmlookup (lv_toplevels live) name = Some reg \<and> snap (rt_toplevel reg) = Some t)"
proof -
  define m1 where "m1 = session_remove r m"
  define m2 where "m2 = m1\<lparr>sm_objects := fmupd r (obj\<lparr>so_client := None\<rparr>) (sm_objects m1)\<rparr>"
  have live: "fmlookup (sm_live m) (so_data obj) = Some live" "lv_resource live = r"
    using assms by (auto simp: session_of_iff)
  have gone: "\<not> contains_session (so_data obj) (sm_store m1)"
    using assms by (simp add: m1_def session_remove_def remove_session_def schedule_session_save_def
        contains_session_def Let_def split_beta)
  have "sm_store (proto_step j (PRemove r now snap) m)
      = fold (save_record now snap (Some (so_data obj))) (live_registrations m2) (sm_store m1)"
    using assms(2) live
    by (simp add: session_destroyed_def m1_def m2_def save_live_toplevels_def schedule_session_save_def Let_def)
  moreover have "(so_data obj, name, t) \<in> set (live_registrations m2) \<longleftrightarrow>
      (\<exists>reg. fmlookup (lv_toplevels live) name = Some reg \<and> rt_toplevel reg = t)" for name t
    using live by (auto simp: live_registrations_iff m2_def m1_def)
  ultimately show ?thesis using gone by (auto simp: contains_fold)
qed

definition mapped_manager :: "store_file session_manager" where
  "mapped_manager = proto_step identity_codec (PAdd 0 7 (lit ''main'')) held_manager"

lemma mapped_manager_facts:
  "session_of mapped_manager 0 = Some \<lparr>lv_resource = 0, lv_reason = 0,
     lv_toplevels = fmupd (lit ''main'') \<lparr>rt_toplevel = 7, rt_handle = 1\<rparr> fmempty\<rparr>"
  "fmlookup (sm_objects mapped_manager) 0 = Some \<lparr>so_data = lit ''s'', so_client = Some 1\<rparr>"
  by (simp_all add: mapped_manager_def add_toplevel_def held_manager_holder held_manager_facts name_taken_def
      init_handle_def session_of_def Let_def)

theorem removed_session_comes_back_witness:
  "contains_session (lit ''s'') (sm_store (proto_step identity_codec
     (PRemove 0 9 (\<lambda>t. if t = 7 then Some example_record else None)) mapped_manager)) \<and>
   \<not> contains_session (lit ''s'') (sm_store (proto_step identity_codec (PRemove 0 9 (\<lambda>t. None)) mapped_manager))"
  using removed_session_comes_back [OF mapped_manager_facts]
  by simp

end
