(* ===== verification/Notifications.thy ===== *)
theory Notifications
  imports Rust_Str Prelude "HOL-Library.Multiset" "HOL-Library.Sublist"
begin

text \<open>
  The notification store, \<open>src/src/notifications.rs\<close>: sources and their notifications, the banner
  queue, and the effects (signals owed and what the banner must do) that every mutation returns.
  Validation of what comes from the bus (pixel buffers, text) is here too. The order of the
  statements is the code's; \<open>unwrap\<close> on something that is not there is \<open>None\<close>.
\<close>

section \<open>Data\<close>

datatype urgency = Low | Normal | Critical

fun urgency_rank :: "urgency \<Rightarrow> nat" where
  "urgency_rank Low = 0" | "urgency_rank Normal = 1" | "urgency_rank Critical = 2"

definition urgency_from_wire :: "nat \<Rightarrow> urgency" where
  "urgency_from_wire v = (if v = 0 then Low else if v = 2 then Critical else Normal)"

datatype close_reason = Expired | Dismissed | AppClosed | Undefined

fun wire_code :: "close_reason \<Rightarrow> nat" where
  "wire_code Expired = 1" | "wire_code Dismissed = 2" | "wire_code AppClosed = 3" | "wire_code Undefined = 4"

record pixel_icon =
  pi_width :: nat
  pi_height :: nat
  pi_rgba :: "nat list"

datatype notification_icon = Themed ustr | FileIcon ustr | Pixels pixel_icon

datatype app_icon_ref = AppThemed "ustr list" | AppFile ustr | AppFallback

datatype source_key = DesktopEntry ustr | PidName nat ustr | GtkApp ustr | ShellSource ustr

datatype shell_action = OpenFile ustr | ShowInFiles ustr

datatype notif_kind =
    Fdo
  | ShellKind "(ustr \<times> shell_action) list" "shell_action option"
  | GtkKind ustr ustr "ustr option"

record notify_request =
  nr_sender :: "ustr option"
  nr_pid :: nat
  nr_app_name :: ustr
  nr_replaces_id :: nat
  nr_desktop_entry :: "ustr option"
  nr_source_icon :: "notification_icon option"
  nr_app_icon :: "app_icon_ref option"
  nr_title :: ustr
  nr_body :: ustr
  nr_icon :: "notification_icon option"
  nr_actions :: "(ustr \<times> ustr) list"
  nr_has_default_action :: bool
  nr_urgency :: urgency
  nr_resident :: bool
  nr_transient :: bool

record gtk_notify_request =
  gr_app_id :: ustr
  gr_gtk_id :: ustr
  gr_app_title :: ustr
  gr_app_icon :: "notification_icon option"
  gr_title :: ustr
  gr_body :: ustr
  gr_icon :: "notification_icon option"
  gr_actions :: "(ustr \<times> ustr) list"
  gr_default_action :: "ustr option"
  gr_urgency :: urgency

record shell_notify_request =
  hr_source :: ustr
  hr_source_title :: ustr
  hr_source_icon :: "notification_icon option"
  hr_title :: ustr
  hr_body :: ustr
  hr_icon :: "notification_icon option"
  hr_actions :: "(ustr \<times> shell_action) list"
  hr_default_action :: "shell_action option"
  hr_urgency :: urgency
  hr_transient :: bool

record notification =
  nt_id :: nat
  nt_sender :: "ustr option"
  nt_title :: ustr
  nt_body :: ustr
  nt_icon :: "notification_icon option"
  nt_actions :: "(ustr \<times> ustr) list"
  nt_has_default_action :: bool
  nt_urgency :: urgency
  nt_resident :: bool
  nt_transient :: bool
  nt_acknowledged :: bool
  nt_timestamp :: duration
  nt_kind :: notif_kind

record notif_source =
  src_key :: source_key
  src_sender :: "ustr option"
  src_title :: ustr
  src_icon :: "notification_icon option"
  src_app_icon :: "app_icon_ref option"
  src_notifications :: "notification list"

record closed_signal =
  cs_id :: nat
  cs_reason :: close_reason
  cs_sender :: "ustr option"

datatype banner_effect = QueueChanged | RefreshCurrent | HideCurrent

record notif_effects =
  ne_closed :: "closed_signal list"
  ne_banner :: "banner_effect option"

definition no_notif_effects :: notif_effects where
  "no_notif_effects = \<lparr>ne_closed = [], ne_banner = None\<rparr>"

datatype invalid_id = InvalidId

record notification_store =
  ns_sources :: "notif_source list"
  ns_queue :: "nat list"
  ns_current :: "nat option"
  ns_next_id :: nat

definition new_store :: notification_store where
  "new_store = \<lparr>ns_sources = [], ns_queue = [], ns_current = None, ns_next_id = 1\<rparr>"

definition MAX_NOTIFICATIONS_PER_SOURCE :: nat where
  "MAX_NOTIFICATIONS_PER_SOURCE = 10"

definition MAX_NOTIFICATIONS_IN_QUEUE :: nat where
  "MAX_NOTIFICATIONS_IN_QUEUE = 3"

section \<open>Lookups\<close>

text \<open>\<open>flat_map\<close> over the sources, and the first element a predicate holds of, updated.\<close>

definition all_notifications :: "notification_store \<Rightarrow> notification list" where
  "all_notifications s = concat (map src_notifications (ns_sources s))"

fun remove_first :: "('a \<Rightarrow> bool) \<Rightarrow> 'a list \<Rightarrow> 'a list" where
  "remove_first P [] = []"
| "remove_first P (x # xs) = (if P x then xs else x # remove_first P xs)"

definition holds_id :: "nat \<Rightarrow> notif_source \<Rightarrow> bool" where
  "holds_id i src \<longleftrightarrow> (\<exists>n \<in> set (src_notifications src). nt_id n = i)"

definition find_notification :: "nat \<Rightarrow> notification_store \<Rightarrow> notification option" where
  "find_notification i s = find (\<lambda>n. nt_id n = i) (all_notifications s)"

definition find_mut :: "nat \<Rightarrow> (notification \<Rightarrow> notification) \<Rightarrow> notification_store \<Rightarrow> notification_store" where
  "find_mut i f s = s\<lparr>ns_sources := update_first (holds_id i)
     (\<lambda>src. src\<lparr>src_notifications := update_first (\<lambda>n. nt_id n = i) f (src_notifications src)\<rparr>) (ns_sources s)\<rparr>"

fun is_gtk :: "ustr \<Rightarrow> ustr \<Rightarrow> notif_kind \<Rightarrow> bool" where
  "is_gtk app_id gtk_id (GtkKind a g _) \<longleftrightarrow> a = app_id \<and> g = gtk_id"
| "is_gtk app_id gtk_id _ \<longleftrightarrow> False"

definition find_gtk :: "ustr \<Rightarrow> ustr \<Rightarrow> notification_store \<Rightarrow> notification option" where
  "find_gtk app_id gtk_id s = find (\<lambda>n. is_gtk app_id gtk_id (nt_kind n)) (all_notifications s)"

definition source_unseen_count :: "notif_source \<Rightarrow> nat" where
  "source_unseen_count src = length (filter (\<lambda>n. \<not> nt_acknowledged n) (src_notifications src))"

definition unseen_count :: "notification_store \<Rightarrow> nat" where
  "unseen_count s = sum_list (map source_unseen_count (ns_sources s))"

definition indicator_count :: "notification_store \<Rightarrow> nat" where
  "indicator_count s = unseen_count s - length (ns_queue s)"

section \<open>Closing\<close>

definition merge_effects :: "notif_effects \<Rightarrow> notif_effects \<Rightarrow> notif_effects" where
  "merge_effects into other =
     (let e = into\<lparr>ne_closed := ne_closed into @ ne_closed other\<rparr> in
      case ne_banner other of
        None \<Rightarrow> e
      | Some banner \<Rightarrow> if ne_banner e \<noteq> Some HideCurrent then e\<lparr>ne_banner := Some banner\<rparr> else e)"

text \<open>The notification leaves its source, and a source it leaves empty goes with it.\<close>

fun close_in_sources :: "nat \<Rightarrow> notif_source list \<Rightarrow> notif_source list" where
  "close_in_sources i [] = []"
| "close_in_sources i (src # srcs) =
     (if holds_id i src
      then (let src1 = src\<lparr>src_notifications := remove_first (\<lambda>n. nt_id n = i) (src_notifications src)\<rparr>
            in if src_notifications src1 = [] then srcs else src1 # srcs)
      else src # close_in_sources i srcs)"

definition close :: "nat \<Rightarrow> close_reason \<Rightarrow> notification_store \<Rightarrow> notification_store \<times> notif_effects" where
  "close i reason s = (case find_notification i s of
       None \<Rightarrow> (s, no_notif_effects)
     | Some n \<Rightarrow>
         (let s1 = s\<lparr>ns_sources := close_in_sources i (ns_sources s)\<rparr>;
              e = no_notif_effects\<lparr>ne_closed := [\<lparr>cs_id = i, cs_reason = reason, cs_sender = nt_sender n\<rparr>]\<rparr>
          in if ns_current s1 = Some i then (s1\<lparr>ns_current := None\<rparr>, e\<lparr>ne_banner := Some HideCurrent\<rparr>)
             else if i \<in> set (ns_queue s1)
             then (s1\<lparr>ns_queue := remove1 i (ns_queue s1)\<rparr>, e\<lparr>ne_banner := Some QueueChanged\<rparr>)
             else (s1, e)))"

fun close_each :: "nat list \<Rightarrow> close_reason \<Rightarrow> notif_effects \<Rightarrow> notification_store \<Rightarrow> notification_store \<times> notif_effects" where
  "close_each [] reason e s = (s, e)"
| "close_each (i # is) reason e s =
     (let (s1, e1) = close i reason s in close_each is reason (merge_effects e e1) s1)"

definition close_checked :: "nat \<Rightarrow> ustr \<Rightarrow> notification_store \<Rightarrow> notification_store \<times> (invalid_id + notif_effects)" where
  "close_checked i sender s = (case find_notification i s of
       None \<Rightarrow> (s, Inr no_notif_effects)
     | Some n \<Rightarrow>
         if nt_sender n = None \<or> nt_sender n = Some sender
         then (let (s1, e) = close i AppClosed s in (s1, Inr e))
         else (s, Inl InvalidId))"

section \<open>The banner queue\<close>

definition queued_urgency :: "notification_store \<Rightarrow> nat \<Rightarrow> urgency" where
  "queued_urgency s i = (case find_notification i s of None \<Rightarrow> Normal | Some n \<Rightarrow> nt_urgency n)"

text \<open>A stable sort, the most urgent first.\<close>

definition sort_queue :: "notification_store \<Rightarrow> notification_store" where
  "sort_queue s = s\<lparr>ns_queue := sort_key (\<lambda>i. 2 - urgency_rank (queued_urgency s i)) (ns_queue s)\<rparr>"

definition request_banner :: "nat \<Rightarrow> bool \<Rightarrow> notification_store \<Rightarrow> notification_store \<times> banner_effect option" where
  "request_banner i show_banners s = (case find_notification i s of
       None \<Rightarrow> (s, None)
     | Some n \<Rightarrow>
         if nt_acknowledged n then (s, None)
         else if nt_urgency n = Low then (s, None)
         else if \<not> show_banners \<and> nt_urgency n \<noteq> Critical then (s, None)
         else if ns_current s = Some i
         then (find_mut i (\<lambda>n. n\<lparr>nt_acknowledged := True\<rparr>) s, Some RefreshCurrent)
         else if i \<in> set (ns_queue s) then (sort_queue s, Some QueueChanged)
         else (let count = length (ns_queue s) + (if ns_current s \<noteq> None then 1 else 0)
               in if count \<ge> MAX_NOTIFICATIONS_IN_QUEUE \<and> nt_urgency n \<noteq> Critical then (s, None)
                  else (sort_queue (s\<lparr>ns_queue := ns_queue s @ [i]\<rparr>), Some QueueChanged)))"

text \<open>The end of \<open>notify\<close>, \<open>add_gtk\<close> and \<open>add_shell\<close>.\<close>

definition admit_banner :: "nat \<Rightarrow> bool \<Rightarrow> notif_effects \<Rightarrow> notification_store \<Rightarrow> notification_store \<times> notif_effects" where
  "admit_banner i show_banners e s =
     (let (s1, b) = request_banner i show_banners s in
      case b of
        None \<Rightarrow> (s1, e)
      | Some banner \<Rightarrow>
          (s1, e\<lparr>ne_banner := Some (if ne_banner e = Some HideCurrent \<and> banner \<noteq> RefreshCurrent
                                    then HideCurrent else banner)\<rparr>))"

fun pop_queue :: "nat list \<Rightarrow> notification_store \<Rightarrow> notification_store \<times> nat option" where
  "pop_queue [] s = (s\<lparr>ns_queue := []\<rparr>, None)"
| "pop_queue (i # q) s = (case find_notification i s of
       None \<Rightarrow> pop_queue q s
     | Some n \<Rightarrow>
         if nt_acknowledged n then pop_queue q s
         else ((find_mut i (\<lambda>n. n\<lparr>nt_acknowledged := True\<rparr>) (s\<lparr>ns_queue := q\<rparr>))\<lparr>ns_current := Some i\<rparr>, Some i))"

definition pop_next_banner :: "notification_store \<Rightarrow> notification_store \<times> nat option" where
  "pop_next_banner s = (if ns_current s \<noteq> None then (s, None) else pop_queue (ns_queue s) s)"

section \<open>Posting\<close>

text \<open>Room for one more in the source that has the key, the oldest going first.\<close>

definition evict_for :: "source_key \<Rightarrow> notif_effects \<Rightarrow> notification_store \<Rightarrow> notification_store \<times> notif_effects" where
  "evict_for key e s = (case find (\<lambda>src. src_key src = key) (ns_sources s) of
       None \<Rightarrow> (s, e)
     | Some src \<Rightarrow>
         (let excess = length (src_notifications src) + 1 - MAX_NOTIFICATIONS_PER_SOURCE
          in close_each (map nt_id (take excess (src_notifications src))) Expired e s))"

definition blank_source :: "source_key \<Rightarrow> ustr option \<Rightarrow> notif_source" where
  "blank_source key sender = \<lparr>src_key = key, src_sender = sender, src_title = [], src_icon = None,
     src_app_icon = None, src_notifications = []\<rparr>"

text \<open>The source that has the key, made if there is none, moved to the front and updated.\<close>

definition with_front_source ::
  "source_key \<Rightarrow> ustr option \<Rightarrow> (notif_source \<Rightarrow> notif_source) \<Rightarrow> notification_store \<Rightarrow> notification_store" where
  "with_front_source key sender f s =
     s\<lparr>ns_sources := (case find (\<lambda>src. src_key src = key) (ns_sources s) of
          Some src \<Rightarrow> f src # remove_first (\<lambda>src. src_key src = key) (ns_sources s)
        | None \<Rightarrow> f (blank_source key sender) # ns_sources s)\<rparr>"

definition on_source_of :: "nat \<Rightarrow> (notif_source \<Rightarrow> notif_source) \<Rightarrow> notification_store \<Rightarrow> notification_store" where
  "on_source_of i f s = s\<lparr>ns_sources := update_first (holds_id i) f (ns_sources s)\<rparr>"

definition notify_presentation :: "notify_request \<Rightarrow> notif_source \<Rightarrow> notif_source" where
  "notify_presentation req src =
     src\<lparr>src_sender := nr_sender req, src_title := nr_app_name req,
         src_icon := (if nr_source_icon req \<noteq> None then nr_source_icon req else src_icon src),
         src_app_icon := (if nr_app_icon req \<noteq> None then nr_app_icon req else src_app_icon src)\<rparr>"

definition notify_replace :: "notify_request \<Rightarrow> duration \<Rightarrow> nat \<Rightarrow> notification_store \<Rightarrow> notification_store" where
  "notify_replace req now i s =
     on_source_of i (notify_presentation req)
       (find_mut i (\<lambda>n. n\<lparr>nt_sender := nr_sender req, nt_title := nr_title req, nt_body := nr_body req,
          nt_icon := nr_icon req, nt_actions := nr_actions req,
          nt_has_default_action := nr_has_default_action req, nt_urgency := nr_urgency req,
          nt_resident := nr_resident req, nt_transient := nr_transient req,
          nt_acknowledged := False, nt_timestamp := now\<rparr>) s)"

definition notify_key :: "notify_request \<Rightarrow> source_key" where
  "notify_key req = (case nr_desktop_entry req of
     Some entry \<Rightarrow> DesktopEntry entry | None \<Rightarrow> PidName (nr_pid req) (nr_app_name req))"

definition notify_new :: "notify_request \<Rightarrow> duration \<Rightarrow> notification_store \<Rightarrow> notification_store \<times> notif_effects \<times> nat" where
  "notify_new req now s =
     (let i = ns_next_id s;
          (s1, e) = evict_for (notify_key req) no_notif_effects (s\<lparr>ns_next_id := i + 1\<rparr>);
          n = \<lparr>nt_id = i, nt_sender = nr_sender req, nt_title = nr_title req, nt_body = nr_body req,
               nt_icon = nr_icon req, nt_actions = nr_actions req,
               nt_has_default_action = nr_has_default_action req, nt_urgency = nr_urgency req,
               nt_resident = nr_resident req, nt_transient = nr_transient req,
               nt_acknowledged = False, nt_timestamp = now, nt_kind = Fdo\<rparr>
      in (with_front_source (notify_key req) (nr_sender req)
            (\<lambda>src. (notify_presentation req src)\<lparr>src_notifications := src_notifications src @ [n]\<rparr>) s1, e, i))"

definition replaced_by :: "notify_request \<Rightarrow> notification_store \<Rightarrow> (invalid_id + nat) option" where
  "replaced_by req s =
     (if nr_replaces_id req = 0 then None
      else map_option (\<lambda>n. if nt_sender n = None \<or> nt_sender n = nr_sender req then Inr (nt_id n) else Inl InvalidId)
             (find_notification (nr_replaces_id req) s))"

definition notify ::
  "notify_request \<Rightarrow> bool \<Rightarrow> duration \<Rightarrow> notification_store \<Rightarrow> notification_store \<times> (invalid_id + nat \<times> notif_effects)" where
  "notify req show_banners now s = (case replaced_by req s of
       Some (Inl err) \<Rightarrow> (s, Inl err)
     | Some (Inr i) \<Rightarrow>
         (let (s1, e) = admit_banner i show_banners no_notif_effects (notify_replace req now i s) in (s1, Inr (i, e)))
     | None \<Rightarrow>
         (let (s1, e, i) = notify_new req now s; (s2, e2) = admit_banner i show_banners e s1 in (s2, Inr (i, e2))))"

definition gtk_replace :: "gtk_notify_request \<Rightarrow> duration \<Rightarrow> nat \<Rightarrow> notification_store \<Rightarrow> notification_store" where
  "gtk_replace req now i s =
     on_source_of i (\<lambda>src. src\<lparr>src_title := gr_app_title req, src_icon := gr_app_icon req\<rparr>)
       (find_mut i (\<lambda>n. n\<lparr>nt_title := gr_title req, nt_body := gr_body req, nt_icon := gr_icon req,
          nt_actions := gr_actions req, nt_has_default_action := (gr_default_action req \<noteq> None),
          nt_urgency := gr_urgency req, nt_acknowledged := False, nt_timestamp := now,
          nt_kind := GtkKind (gr_app_id req) (gr_gtk_id req) (gr_default_action req)\<rparr>) s)"

definition gtk_new :: "gtk_notify_request \<Rightarrow> duration \<Rightarrow> notification_store \<Rightarrow> notification_store \<times> notif_effects \<times> nat" where
  "gtk_new req now s =
     (let i = ns_next_id s;
          key = GtkApp (gr_app_id req);
          (s1, e) = evict_for key no_notif_effects (s\<lparr>ns_next_id := i + 1\<rparr>);
          n = \<lparr>nt_id = i, nt_sender = None, nt_title = gr_title req, nt_body = gr_body req,
               nt_icon = gr_icon req, nt_actions = gr_actions req,
               nt_has_default_action = (gr_default_action req \<noteq> None), nt_urgency = gr_urgency req,
               nt_resident = False, nt_transient = False, nt_acknowledged = False, nt_timestamp = now,
               nt_kind = GtkKind (gr_app_id req) (gr_gtk_id req) (gr_default_action req)\<rparr>
      in (with_front_source key None
            (\<lambda>src. src\<lparr>src_sender := None, src_title := gr_app_title req, src_icon := gr_app_icon req,
                       src_notifications := src_notifications src @ [n]\<rparr>) s1, e, i))"

definition add_gtk :: "gtk_notify_request \<Rightarrow> bool \<Rightarrow> duration \<Rightarrow> notification_store \<Rightarrow> notification_store \<times> notif_effects" where
  "add_gtk req show_banners now s = (case find_gtk (gr_app_id req) (gr_gtk_id req) s of
       Some n \<Rightarrow> admit_banner (nt_id n) show_banners no_notif_effects (gtk_replace req now (nt_id n) s)
     | None \<Rightarrow> (let (s1, e, i) = gtk_new req now s in admit_banner i show_banners e s1))"

text \<open>\<open>format!("shell-{i}")\<close>.\<close>

fun decimal :: "nat \<Rightarrow> ustr" where
  "decimal n = (if n < 10 then [48 + n] else decimal (n div 10) @ [48 + n mod 10])"

declare decimal.simps [simp del]

definition shell_action_key :: "nat \<Rightarrow> ustr" where
  "shell_action_key i = lit ''shell-'' @ decimal i"

definition shell_actions :: "shell_notify_request \<Rightarrow> (ustr \<times> shell_action) list" where
  "shell_actions req = map (\<lambda>(i, _, action). (shell_action_key i, action)) (enumerate 0 (hr_actions req))"

text \<open>The source is there before the oldest ones go; finding it again afterwards is an \<open>unwrap\<close>.\<close>

definition add_shell ::
  "shell_notify_request \<Rightarrow> bool \<Rightarrow> duration \<Rightarrow> notification_store \<Rightarrow> (notification_store \<times> nat \<times> notif_effects) option" where
  "add_shell req show_banners now s =
     (let i = ns_next_id s;
          key = ShellSource (hr_source req);
          n = \<lparr>nt_id = i, nt_sender = None, nt_title = hr_title req, nt_body = hr_body req,
               nt_icon = hr_icon req,
               nt_actions = map (\<lambda>(j, label, _). (shell_action_key j, label)) (enumerate 0 (hr_actions req)),
               nt_has_default_action = (hr_default_action req \<noteq> None), nt_urgency = hr_urgency req,
               nt_resident = False, nt_transient = hr_transient req, nt_acknowledged = False,
               nt_timestamp = now, nt_kind = ShellKind (shell_actions req) (hr_default_action req)\<rparr>;
          s0 = s\<lparr>ns_next_id := i + 1,
                 ns_sources := (if \<exists>src \<in> set (ns_sources s). src_key src = key then ns_sources s
                                else blank_source key None # ns_sources s)\<rparr>;
          (s1, e) = evict_for key no_notif_effects s0
      in if \<not> (\<exists>src \<in> set (ns_sources s1). src_key src = key) then None
         else (let s2 = with_front_source key None
                     (\<lambda>src. src\<lparr>src_title := hr_source_title req, src_icon := hr_source_icon req,
                                src_notifications := src_notifications src @ [n]\<rparr>) s1;
                   (s3, e3) = admit_banner i show_banners e s2
               in Some (s3, i, e3)))"

definition shell_action_for :: "notif_kind \<Rightarrow> ustr \<Rightarrow> shell_action option" where
  "shell_action_for kind action = (case kind of
       ShellKind actions default_action \<Rightarrow>
         if action = lit ''default'' then default_action
         else map_option snd (find (\<lambda>(key, _). key = action) actions)
     | _ \<Rightarrow> None)"

section \<open>The other operations\<close>

definition remove_gtk :: "ustr \<Rightarrow> ustr \<Rightarrow> notification_store \<Rightarrow> notification_store \<times> notif_effects" where
  "remove_gtk app_id gtk_id s = (case find_gtk app_id gtk_id s of
     Some n \<Rightarrow> close (nt_id n) AppClosed s | None \<Rightarrow> (s, no_notif_effects))"

definition untrack :: "ustr \<Rightarrow> ustr option \<Rightarrow> ustr option" where
  "untrack sender x = (if x = Some sender then None else x)"

definition sender_vanished :: "ustr \<Rightarrow> notification_store \<Rightarrow> notification_store \<times> notif_effects" where
  "sender_vanished sender s =
     (let ids = concat (map (\<lambda>src. map nt_id (src_notifications src))
                  (filter (\<lambda>src. (case src_key src of DesktopEntry _ \<Rightarrow> True | _ \<Rightarrow> False) \<and>
                                 src_sender src = Some sender) (ns_sources s)));
          (s1, e) = close_each ids AppClosed no_notif_effects s
      in (s1\<lparr>ns_sources := map (\<lambda>src. src\<lparr>src_sender := untrack sender (src_sender src),
             src_notifications := map (\<lambda>n. n\<lparr>nt_sender := untrack sender (nt_sender n)\<rparr>) (src_notifications src)\<rparr>)
           (ns_sources s1)\<rparr>, e))"

definition acknowledge_all :: "notification_store \<Rightarrow> notification_store \<times> notif_effects" where
  "acknowledge_all s =
     (let s1 = s\<lparr>ns_sources := map (\<lambda>src. src\<lparr>src_notifications :=
            map (\<lambda>n. n\<lparr>nt_acknowledged := True\<rparr>) (src_notifications src)\<rparr>) (ns_sources s)\<rparr>
      in if ns_queue s1 \<noteq> [] then (s1\<lparr>ns_queue := []\<rparr>, no_notif_effects\<lparr>ne_banner := Some QueueChanged\<rparr>)
         else (s1, no_notif_effects))"

definition clear_all :: "notification_store \<Rightarrow> notification_store \<times> notif_effects" where
  "clear_all s = close_each (map nt_id (all_notifications s)) Dismissed no_notif_effects s"

definition activate_notification :: "nat \<Rightarrow> notification_store \<Rightarrow> notification_store \<times> notif_effects" where
  "activate_notification i s = (case find_notification i s of
       Some n \<Rightarrow> if \<not> nt_resident n then close i Dismissed s else (s, no_notif_effects)
     | None \<Rightarrow> (s, no_notif_effects))"

definition activate_source :: "nat \<Rightarrow> notification_store \<Rightarrow> notification_store \<times> notif_effects" where
  "activate_source i s = (case find (holds_id i) (ns_sources s) of
       None \<Rightarrow> (s, no_notif_effects)
     | Some src \<Rightarrow>
         close_each (map nt_id (filter (\<lambda>n. \<not> nt_resident n) (src_notifications src))) Dismissed no_notif_effects s)"

definition banner_hidden :: "notification_store \<Rightarrow> notification_store \<times> notif_effects" where
  "banner_hidden s = (case ns_current s of
       None \<Rightarrow> (s, no_notif_effects)
     | Some i \<Rightarrow>
         (let s1 = s\<lparr>ns_current := None\<rparr> in
          case find_notification i s1 of
            Some n \<Rightarrow> if nt_transient n then close i Expired s1 else (s1, no_notif_effects)
          | None \<Rightarrow> (s1, no_notif_effects)))"

section \<open>What comes over the bus\<close>

definition MAX_PIXEL_ICON_DIM :: int where
  "MAX_PIXEL_ICON_DIM = 4096"

definition MAX_ICON_PX :: nat where
  "MAX_ICON_PX = 96"

text \<open>\<open>usize\<close> arithmetic that is checked, and a slice, which panics past the end.\<close>

definition checked_usize :: "nat \<Rightarrow> nat option" where
  "checked_usize n = (if n < 2 ^ 64 then Some n else None)"

definition slice :: "nat \<Rightarrow> nat \<Rightarrow> 'a list \<Rightarrow> 'a list option" where
  "slice a b xs = (if a \<le> b \<and> b \<le> length xs then Some (take (b - a) (drop a xs)) else None)"

fun rgb_to_rgba :: "nat list \<Rightarrow> nat list" where
  "rgb_to_rgba (r # g # b # px) = r # g # b # 255 # rgb_to_rgba px"
| "rgb_to_rgba _ = []"

text \<open>The rows from the first one on, re-packed; \<open>None\<close> where a row's slice panics.\<close>

fun pack_rows :: "bool \<Rightarrow> nat \<Rightarrow> nat \<Rightarrow> nat list \<Rightarrow> nat list \<Rightarrow> nat list option" where
  "pack_rows has_alpha rowstride row_bytes data [] = Some []"
| "pack_rows has_alpha rowstride row_bytes data (row # rows) =
     (case slice (row * rowstride) (row * rowstride + row_bytes) data of
        None \<Rightarrow> None
      | Some bytes \<Rightarrow> map_option (\<lambda>rest. (if has_alpha then bytes else rgb_to_rgba bytes) @ rest)
                        (pack_rows has_alpha rowstride row_bytes data rows))"

text \<open>The outer option is a panic, the inner one the value the code returns.\<close>

definition pixel_icon_from_wire ::
  "int \<Rightarrow> int \<Rightarrow> int \<Rightarrow> bool \<Rightarrow> int \<Rightarrow> int \<Rightarrow> nat list \<Rightarrow> pixel_icon option option" where
  "pixel_icon_from_wire width height rowstride has_alpha bits_per_sample channels data =
     (if bits_per_sample \<noteq> 8 then Some None
      else if channels \<noteq> (if has_alpha then 4 else 3) then Some None
      else if width \<le> 0 \<or> height \<le> 0 \<or> width > MAX_PIXEL_ICON_DIM \<or> height > MAX_PIXEL_ICON_DIM then Some None
      else (let w = nat width; h = nat height; row_bytes = w * nat channels in
        if rowstride < 0 then Some None
        else if nat rowstride < row_bytes then Some None
        else (case Option.bind (checked_usize (nat rowstride * (h - 1))) (\<lambda>n. checked_usize (n + row_bytes)) of
            None \<Rightarrow> Some None
          | Some needed \<Rightarrow>
              if length data < needed then Some None
              else map_option (\<lambda>rgba. Some \<lparr>pi_width = w, pi_height = h, pi_rgba = rgba\<rparr>)
                     (pack_rows has_alpha (nat rowstride) row_bytes data [0..<h]))))"

text \<open>\<open>thumbnail\<close> is the image crate's, of which only the size of what it returns is used.\<close>

definition bounded_pixels :: "(nat \<Rightarrow> nat \<Rightarrow> pixel_icon \<Rightarrow> nat list) \<Rightarrow> pixel_icon \<Rightarrow> pixel_icon" where
  "bounded_pixels thumbnail pix =
     (let long = max (pi_width pix) (pi_height pix) in
      if long \<le> MAX_ICON_PX then pix
      else (let w = max (pi_width pix * MAX_ICON_PX div long) 1;
                h = max (pi_height pix * MAX_ICON_PX div long) 1
            in if length (pi_rgba pix) < 4 * pi_width pix * pi_height pix
               then \<lparr>pi_width = 0, pi_height = 0, pi_rgba = []\<rparr>
               else \<lparr>pi_width = w, pi_height = h, pi_rgba = thumbnail w h pix\<rparr>))"

definition icon_from_string :: "ustr \<Rightarrow> notification_icon option" where
  "icon_from_string s =
     (if s = [] then None
      else if prefix (lit ''file://'') s then Some (FileIcon (drop (length (lit ''file://'')) s))
      else if hd s = 47 then Some (FileIcon s)
      else if ulen s > 255 \<or> 47 \<in> set s \<or> 92 \<in> set s \<or> sublist (lit ''..'') s then None
      else Some (Themed s))"

text \<open>\<open>str::replace\<close>: the occurrences of a nonempty pattern from the left, none overlapping.\<close>

function ureplace :: "ustr \<Rightarrow> ustr \<Rightarrow> ustr \<Rightarrow> ustr" where
  "ureplace pat by s =
     (if pat = [] \<or> s = [] then s
      else if prefix pat s then by @ ureplace pat by (drop (length pat) s)
      else hd s # ureplace pat by (tl s))"
  by auto
termination
  by (relation "measure (\<lambda>(_, _, s). length s)") auto

declare ureplace.simps [simp del]

definition flatten_text :: "ustr \<Rightarrow> ustr" where
  "flatten_text text = map (\<lambda>c. if c = 10 \<or> c = 13 then 32 else c) text"

definition sanitize_text :: "ustr \<Rightarrow> ustr" where
  "sanitize_text text =
     fold (\<lambda>(pat, by). ureplace (lit pat) (lit by))
       [(''<b>'', ''''), (''</b>'', ''''), (''<i>'', ''''), (''</i>'', ''''), (''<u>'', ''''), (''</u>'', ''''),
        (''&lt;'', ''<''), (''&gt;'', ''>''), (''&quot;'', [CHR 34]), (''&apos;'', [CHR 39]), (''&amp;'', ''&'')]
       (flatten_text text)"

text \<open>The walk back to a character boundary; below zero would be an arithmetic panic.\<close>

fun boundary_before :: "ustr \<Rightarrow> nat \<Rightarrow> nat option" where
  "boundary_before s 0 = (if is_char_boundary s 0 then Some 0 else None)"
| "boundary_before s (Suc e) = (if is_char_boundary s (Suc e) then Some (Suc e) else boundary_before s e)"

definition clamp_text :: "ustr \<Rightarrow> nat \<Rightarrow> ustr option" where
  "clamp_text s max_bytes =
     (if ulen s > max_bytes
      then Option.bind (boundary_before s max_bytes) (\<lambda>e. uslice s 0 e)
      else Some s)"

definition plural :: "nat \<Rightarrow> ustr" where
  "plural n = (if n = 1 then [] else lit ''s'')"

definition format_time_span :: "duration \<Rightarrow> ustr" where
  "format_time_span elapsed =
     (let minutes = elapsed div 1000000000 div 60; hours = minutes div 60; days = hours div 24; weeks = days div 7 in
      if minutes < 5 then lit ''Just now''
      else if hours < 1 then decimal minutes @ lit '' minute'' @ plural minutes @ lit '' ago''
      else if days < 1 then decimal hours @ lit '' hour'' @ plural hours @ lit '' ago''
      else if days < 2 then lit ''Yesterday''
      else if days < 15 then decimal days @ lit '' days ago''
      else if weeks < 8 then decimal weeks @ lit '' week'' @ plural weeks @ lit '' ago''
      else decimal weeks @ lit '' weeks ago'')"

section \<open>The messages the compositor handles\<close>

text \<open>
  What \<open>on_notifications_msg\<close> does with each message, and the operations its other callers run.
  The applications a request may resolve to come from the catalogue, as a function.
\<close>

datatype notif_op =
    MsgNotify notify_request
  | MsgClose nat ustr
  | MsgSenderVanished ustr
  | MsgAddGtk gtk_notify_request
  | MsgRemoveGtk ustr ustr
  | OpAddShell shell_notify_request
  | OpAcknowledgeAll
  | OpClearAll
  | OpPopNextBanner
  | OpActivate nat
  | OpActivateSource nat
  | OpDismiss nat
  | OpBannerHidden

datatype notif_reply = NoReply | ReplyId nat | ReplyUnit | ReplyInvalidId

definition resolve_app :: "(ustr option \<Rightarrow> ustr \<Rightarrow> (ustr \<times> app_icon_ref) option) \<Rightarrow> notify_request \<Rightarrow> notify_request" where
  "resolve_app app_for req = (case app_for (nr_desktop_entry req) (nr_app_name req) of
       Some (name, icon) \<Rightarrow> req\<lparr>nr_app_name := name, nr_app_icon := Some icon\<rparr>
     | None \<Rightarrow> req)"

definition quietly :: "notification_store \<times> notif_effects \<Rightarrow> notification_store \<times> notif_reply \<times> notif_effects" where
  "quietly r = (fst r, NoReply, snd r)"

text \<open>The environment of a step: the catalogue, do-not-disturb and the clock.\<close>

type_synonym notif_env = "(ustr option \<Rightarrow> ustr \<Rightarrow> (ustr \<times> app_icon_ref) option) \<times> bool \<times> duration"

fun on_notifications_msg ::
  "notif_env \<times> notif_op \<Rightarrow> notification_store \<Rightarrow> (notification_store \<times> notif_reply \<times> notif_effects) option" where
  "on_notifications_msg ((app_for, dnd, now), MsgNotify req) s =
     (case notify (resolve_app app_for req) (\<not> dnd) now s of
        (s1, Inl err) \<Rightarrow> Some (s1, ReplyInvalidId, no_notif_effects)
      | (s1, Inr (i, e)) \<Rightarrow> Some (s1, ReplyId i, e))"
| "on_notifications_msg (_, MsgClose i sender) s =
     (case close_checked i sender s of
        (s1, Inl err) \<Rightarrow> Some (s1, ReplyInvalidId, no_notif_effects)
      | (s1, Inr e) \<Rightarrow> Some (s1, ReplyUnit, e))"
| "on_notifications_msg (_, MsgSenderVanished name) s = Some (quietly (sender_vanished name s))"
| "on_notifications_msg ((_, dnd, now), MsgAddGtk req) s = Some (quietly (add_gtk req (\<not> dnd) now s))"
| "on_notifications_msg (_, MsgRemoveGtk app_id gtk_id) s = Some (quietly (remove_gtk app_id gtk_id s))"
| "on_notifications_msg ((_, dnd, now), OpAddShell req) s =
     map_option (\<lambda>(s1, i, e). (s1, NoReply, e)) (add_shell req (\<not> dnd) now s)"
| "on_notifications_msg (_, OpAcknowledgeAll) s = Some (quietly (acknowledge_all s))"
| "on_notifications_msg (_, OpClearAll) s = Some (quietly (clear_all s))"
| "on_notifications_msg (_, OpPopNextBanner) s = Some (fst (pop_next_banner s), NoReply, no_notif_effects)"
| "on_notifications_msg (_, OpActivate i) s = Some (quietly (activate_notification i s))"
| "on_notifications_msg (_, OpActivateSource i) s = Some (quietly (activate_source i s))"
| "on_notifications_msg (_, OpDismiss i) s = Some (quietly (close i Dismissed s))"
| "on_notifications_msg (_, OpBannerHidden) s = Some (quietly (banner_hidden s))"

text \<open>The signals \<open>apply_notification_effects\<close> hands to the server: those with someone to send to.\<close>

definition closed_emissions :: "notif_effects \<Rightarrow> (nat \<times> close_reason \<times> ustr) list" where
  "closed_emissions e = concat (map (\<lambda>c. case cs_sender c of
     None \<Rightarrow> [] | Some sender \<Rightarrow> [(cs_id c, cs_reason c, sender)]) (ne_closed e))"

section \<open>The invariant\<close>

definition sources_ok :: "notif_source list \<Rightarrow> bool" where
  "sources_ok srcs \<longleftrightarrow> distinct (map src_key srcs) \<and>
     (\<forall>src \<in> set srcs. src_notifications src \<noteq> [] \<and> length (src_notifications src) \<le> MAX_NOTIFICATIONS_PER_SOURCE)"

definition ids_ok :: "nat \<Rightarrow> notification list \<Rightarrow> bool" where
  "ids_ok nxt ns \<longleftrightarrow> distinct (map nt_id ns) \<and> (\<forall>n \<in> set ns. 0 < nt_id n \<and> nt_id n < nxt)"

definition banners_ok :: "nat list \<Rightarrow> nat option \<Rightarrow> notification list \<Rightarrow> bool" where
  "banners_ok q cur ns \<longleftrightarrow> distinct q \<and> (\<forall>i \<in> set q. \<exists>n \<in> set ns. nt_id n = i \<and> \<not> nt_acknowledged n) \<and>
     (\<forall>c. cur = Some c \<longrightarrow> c \<in> nt_id ` set ns \<and> c \<notin> set q)"

definition store_ok :: "notification_store \<Rightarrow> bool" where
  "store_ok s \<longleftrightarrow> 0 < ns_next_id s \<and> sources_ok (ns_sources s) \<and> ids_ok (ns_next_id s) (all_notifications s) \<and>
     banners_ok (ns_queue s) (ns_current s) (all_notifications s)"

text \<open>The ids that are live, and those whose end has been reported, as multisets.\<close>

definition live_ids :: "notification_store \<Rightarrow> nat multiset" where
  "live_ids s = image_mset nt_id (mset (all_notifications s))"

definition closed_ids :: "notif_effects \<Rightarrow> nat multiset" where
  "closed_ids e = image_mset cs_id (mset (ne_closed e))"

lemma store_ok_new: "store_ok new_store"
  by (simp add: store_ok_def new_store_def sources_ok_def ids_ok_def banners_ok_def all_notifications_def)

lemma all_frame [simp]:
  "all_notifications (s\<lparr>ns_queue := q\<rparr>) = all_notifications s"
  "all_notifications (s\<lparr>ns_current := c\<rparr>) = all_notifications s"
  "all_notifications (s\<lparr>ns_next_id := k\<rparr>) = all_notifications s"
  "find_notification i (s\<lparr>ns_queue := q\<rparr>) = find_notification i s"
  "find_notification i (s\<lparr>ns_current := c\<rparr>) = find_notification i s"
  "find_notification i (s\<lparr>ns_next_id := k\<rparr>) = find_notification i s"
  by (simp_all add: all_notifications_def find_notification_def)

lemma find_id_iff:
  "distinct (map nt_id ns) \<Longrightarrow> find (\<lambda>n. nt_id n = i) ns = Some n \<longleftrightarrow> n \<in> set ns \<and> nt_id n = i"
  by (induction ns) (auto simp: image_iff)

lemma find_iff:
  "store_ok s \<Longrightarrow> find_notification i s = Some n \<longleftrightarrow> n \<in> set (all_notifications s) \<and> nt_id n = i"
  by (simp add: find_notification_def store_ok_def ids_ok_def find_id_iff)

lemma find_none: "find_notification i s = None \<longleftrightarrow> i \<notin> nt_id ` set (all_notifications s)"
  by (auto simp: find_notification_def find_None_iff)

text \<open>Under the invariant an update by id is a map over the notifications, closing one a filter.\<close>

lemma map_untouched: "i \<notin> nt_id ` set ns \<Longrightarrow> map (\<lambda>n. if nt_id n = i then f n else n) ns = ns"
  by (intro map_idI) (auto simp: image_iff)

lemma update_first_map:
  "distinct (map nt_id ns) \<Longrightarrow> update_first (\<lambda>n. nt_id n = i) f ns = map (\<lambda>n. if nt_id n = i then f n else n) ns"
  by (induction ns) (auto simp: map_untouched)

lemma remove_first_filter:
  "distinct (map g xs) \<Longrightarrow> remove_first (\<lambda>x. g x = k) xs = filter (\<lambda>x. g x \<noteq> k) xs"
proof (induction xs)
  case (Cons x xs)
  have "filter (\<lambda>y. g y \<noteq> g x) xs = xs" if "g x \<notin> g ` set xs"
    using that by (intro filter_True) (auto simp: image_iff)
  then show ?case using Cons by auto
qed simp

definition drop_ids :: "nat set \<Rightarrow> notif_source list \<Rightarrow> notif_source list" where
  "drop_ids A srcs = filter (\<lambda>src. src_notifications src \<noteq> [])
     (map (\<lambda>src. src\<lparr>src_notifications := filter (\<lambda>n. nt_id n \<notin> A) (src_notifications src)\<rparr>) srcs)"

lemma drop_ids_untouched:
  assumes "\<forall>src \<in> set srcs. src_notifications src \<noteq> []"
    and "A \<inter> nt_id ` set (concat (map src_notifications srcs)) = {}"
  shows "drop_ids A srcs = srcs"
  using assms
proof (induction srcs)
  case (Cons src srcs)
  have "filter (\<lambda>n. nt_id n \<notin> A) (src_notifications src) = src_notifications src"
    using Cons.prems by (intro filter_True) auto
  moreover have "drop_ids A srcs = srcs" using Cons.prems by (intro Cons.IH) auto
  ultimately show ?case using Cons.prems by (simp add: drop_ids_def)
qed (simp add: drop_ids_def)

lemma holds_id_iff: "holds_id i src \<longleftrightarrow> i \<in> nt_id ` set (src_notifications src)"
  by (auto simp: holds_id_def image_iff)

lemma close_in_sources_drop:
  assumes "\<forall>src \<in> set srcs. src_notifications src \<noteq> []"
    and "distinct (map nt_id (concat (map src_notifications srcs)))"
  shows "close_in_sources i srcs = drop_ids {i} srcs"
  using assms
proof (induction srcs)
  case (Cons src srcs)
  have rest: "drop_ids {i} srcs = srcs" if "i \<in> nt_id ` set (src_notifications src)"
    using that Cons.prems by (intro drop_ids_untouched) auto
  have kept: "filter (\<lambda>n. nt_id n \<noteq> i) (src_notifications src) = src_notifications src"
    if "i \<notin> nt_id ` set (src_notifications src)"
    using that by (intro filter_True) (auto simp: image_iff)
  have rm: "remove_first (\<lambda>n. nt_id n = i) (src_notifications src) = filter (\<lambda>n. nt_id n \<noteq> i) (src_notifications src)"
    using Cons.prems by (intro remove_first_filter) simp
  have IH: "close_in_sources i srcs = drop_ids {i} srcs" using Cons by simp
  show ?case
    using rest kept Cons.prems(1) unfolding close_in_sources.simps holds_id_iff rm IH Let_def
    by (auto simp: drop_ids_def)
qed (simp add: drop_ids_def)

lemma all_drop_ids:
  "concat (map src_notifications (drop_ids A srcs)) =
     filter (\<lambda>n. nt_id n \<notin> A) (concat (map src_notifications srcs))"
  by (induction srcs) (auto simp: drop_ids_def)

lemma filter_le: "length ns \<le> m \<Longrightarrow> length (filter P ns) \<le> m"
  by (rule le_trans [OF length_filter_le])

lemma sources_ok_drop: "sources_ok srcs \<Longrightarrow> sources_ok (drop_ids A srcs)"
proof -
  assume ok: "sources_ok srcs"
  have "distinct (map src_key (drop_ids A srcs))"
    using ok by (simp add: drop_ids_def sources_ok_def distinct_map_filter comp_def)
  then show ?thesis using ok by (auto simp: sources_ok_def drop_ids_def filter_le)
qed

lemma drop_ids_drop: "drop_ids B (drop_ids A srcs) = drop_ids (A \<union> B) srcs"
proof (induction srcs)
  case (Cons src srcs)
  have "filter (\<lambda>n. nt_id n \<notin> A \<and> nt_id n \<notin> B) ns = []" if "filter (\<lambda>n. nt_id n \<notin> A) ns = []" for ns
    using that by (auto simp: filter_empty_conv)
  with Cons show ?case by (auto simp: drop_ids_def)
qed (simp add: drop_ids_def)

subsection \<open>Closing keeps it\<close>

lemma store_sources: "store_ok s \<Longrightarrow> close_in_sources i (ns_sources s) = drop_ids {i} (ns_sources s)"
  by (intro close_in_sources_drop) (auto simp: store_ok_def sources_ok_def ids_ok_def all_notifications_def)

lemma close_state:
  assumes "store_ok s"
  shows "ns_sources (fst (close i r s)) = drop_ids {i} (ns_sources s)"
    and "ns_queue (fst (close i r s)) = removeAll i (ns_queue s)"
    and "ns_current (fst (close i r s)) = (if ns_current s = Some i then None else ns_current s)"
    and "ns_next_id (fst (close i r s)) = ns_next_id s"
proof -
  have d: "distinct (ns_queue s)" and q: "\<And>j. j \<in> set (ns_queue s) \<Longrightarrow> j \<in> nt_id ` set (all_notifications s)"
    and c: "\<And>j. ns_current s = Some j \<Longrightarrow> j \<in> nt_id ` set (all_notifications s) \<and> j \<notin> set (ns_queue s)"
    using assms by (auto simp: store_ok_def banners_ok_def image_iff)
  have n: "drop_ids {i} (ns_sources s) = ns_sources s" if "find_notification i s = None"
    using that assms by (intro drop_ids_untouched)
      (auto simp: find_none all_notifications_def store_ok_def sources_ok_def)
  have r: "remove1 i (ns_queue s) = removeAll i (ns_queue s)"
    using d by (simp add: distinct_remove1_removeAll)
  have k: "removeAll i (ns_queue s) = ns_queue s"
    if "i \<notin> nt_id ` set (all_notifications s) \<or> i \<notin> set (ns_queue s)"
    using that q by (intro removeAll_id) blast
  show "ns_sources (fst (close i r s)) = drop_ids {i} (ns_sources s)"
    using n store_sources [OF assms] by (auto simp: close_def Let_def split: option.split)
  show "ns_queue (fst (close i r s)) = removeAll i (ns_queue s)"
    using c k r by (auto simp: close_def Let_def find_none split: option.split)
  show "ns_current (fst (close i r s)) = (if ns_current s = Some i then None else ns_current s)"
    using c by (auto simp: close_def Let_def find_none split: option.split)
  show "ns_next_id (fst (close i r s)) = ns_next_id s"
    by (simp add: close_def Let_def split: option.split)
qed

lemma close_all:
  "store_ok s \<Longrightarrow> all_notifications (fst (close i r s)) = filter (\<lambda>n. nt_id n \<noteq> i) (all_notifications s)"
  by (simp add: all_notifications_def close_state all_drop_ids)

lemma ids_ok_filter: "ids_ok k ns \<Longrightarrow> ids_ok k (filter P ns)"
  by (simp add: ids_ok_def distinct_map_filter)

lemma banners_ok_filter:
  assumes "banners_ok q cur ns"
  shows "banners_ok (removeAll i q) (if cur = Some i then None else cur) (filter (\<lambda>n. nt_id n \<noteq> i) ns)"
proof -
  have "\<exists>n \<in> set (filter (\<lambda>n. nt_id n \<noteq> i) ns). nt_id n = j \<and> \<not> nt_acknowledged n"
    if "j \<in> set (removeAll i q)" for j
    using that assms by (auto simp: banners_ok_def)
  then show ?thesis using assms by (auto simp: banners_ok_def distinct_removeAll)
qed

lemma close_ok:
  assumes "store_ok s"
  shows "store_ok (fst (close i r s))"
proof -
  have "banners_ok (removeAll i (ns_queue s)) (if ns_current s = Some i then None else ns_current s)
          (filter (\<lambda>n. nt_id n \<noteq> i) (all_notifications s))"
    by (rule banners_ok_filter) (use assms in \<open>simp add: store_ok_def\<close>)
  then show ?thesis
    using assms by (simp add: store_ok_def close_state [OF assms] close_all [OF assms] sources_ok_drop ids_ok_filter)
qed

text \<open>What a close takes from the live ids is what it reports.\<close>

lemma ids_split:
  assumes "distinct (map nt_id ns)" and "i \<in> nt_id ` set ns"
  shows "image_mset nt_id (mset ns) = add_mset i (image_mset nt_id (mset (filter (\<lambda>n. nt_id n \<noteq> i) ns)))"
  using assms
proof (induction ns)
  case (Cons n ns)
  have "filter (\<lambda>n'. nt_id n' \<noteq> nt_id n) ns = ns" if "nt_id n \<notin> nt_id ` set ns"
    using that by (intro filter_True) (auto simp: image_iff)
  with Cons show ?case by (auto simp del: mset_filter)
qed simp

lemma close_conserves:
  assumes "store_ok s"
  shows "live_ids s = live_ids (fst (close i r s)) + closed_ids (snd (close i r s))"
proof (cases "find_notification i s")
  case None
  then show ?thesis by (simp add: close_def closed_ids_def no_notif_effects_def)
next
  case (Some n)
  have "i \<in> nt_id ` set (all_notifications s)" using Some find_none [of i s] by auto
  moreover have "closed_ids (snd (close i r s)) = {#i#}"
    using Some by (simp add: close_def Let_def closed_ids_def no_notif_effects_def)
  ultimately show ?thesis
    using ids_split [of "all_notifications s" i] assms
    by (simp add: live_ids_def close_all) (simp add: store_ok_def ids_ok_def)
qed

lemma merge_closed [simp]: "ne_closed (merge_effects e f) = ne_closed e @ ne_closed f"
  by (simp add: merge_effects_def Let_def split: option.split)

lemma merge_closed_ids [simp]: "closed_ids (merge_effects e f) = closed_ids e + closed_ids f"
  by (simp add: closed_ids_def)

lemma close_each_step:
  "close_each (i # is) r e s = close_each is r (merge_effects e (snd (close i r s))) (fst (close i r s))"
  by (simp add: case_prod_beta)

lemma close_each_ok: "store_ok s \<Longrightarrow> store_ok (fst (close_each is r e s))"
  by (induction "is" arbitrary: e s) (simp_all add: close_each_step close_ok del: close_each.simps(2))

lemma close_each_conserves:
  "store_ok s \<Longrightarrow> live_ids s + closed_ids e = live_ids (fst (close_each is r e s)) + closed_ids (snd (close_each is r e s))"
proof (induction "is" arbitrary: e s)
  case (Cons i "is")
  show ?case
    using Cons.IH [OF close_ok [OF Cons.prems], of i r "merge_effects e (snd (close i r s))"] close_conserves [OF Cons.prems, of i r]
    by (simp add: close_each_step ac_simps del: close_each.simps(2))
qed simp

lemma close_each_state:
  assumes "store_ok s"
  shows "ns_sources (fst (close_each is r e s)) = drop_ids (set is) (ns_sources s)"
    and "ns_next_id (fst (close_each is r e s)) = ns_next_id s"
  using assms
proof (induction "is" arbitrary: e s)
  case Nil
  {
    case 1
    then show ?case by (simp add: drop_ids_untouched store_ok_def sources_ok_def)
  next
    case 2
    then show ?case by simp
  }
next
  case (Cons i "is")
  {
    case 1
    then show ?case using Cons.IH(1) [OF close_ok]
      by (simp add: close_each_step close_state drop_ids_drop del: close_each.simps(2))
  next
    case 2
    then show ?case using Cons.IH(2) [OF close_ok]
      by (simp add: close_each_step close_state del: close_each.simps(2))
  }
qed

lemma close_each_all:
  "store_ok s \<Longrightarrow> all_notifications (fst (close_each is r e s)) = filter (\<lambda>n. nt_id n \<notin> set is) (all_notifications s)"
  by (simp add: all_notifications_def close_each_state all_drop_ids)

subsection \<open>Changing a notification in place keeps it\<close>

lemma all_find_mut:
  assumes "store_ok s"
  shows "all_notifications (find_mut i f s) = map (\<lambda>n. if nt_id n = i then f n else n) (all_notifications s)"
proof -
  have "concat (map src_notifications (update_first (holds_id i)
          (\<lambda>src. src\<lparr>src_notifications := update_first (\<lambda>n. nt_id n = i) f (src_notifications src)\<rparr>) srcs)) =
        map (\<lambda>n. if nt_id n = i then f n else n) (concat (map src_notifications srcs))"
    if "distinct (map nt_id (concat (map src_notifications srcs)))" for srcs
    using that
  proof (induction srcs)
    case (Cons src srcs)
    have rest: "map (\<lambda>n. if nt_id n = i then f n else n) (concat (map src_notifications srcs)) = concat (map src_notifications srcs)"
      if "i \<in> nt_id ` set (src_notifications src)"
      using that Cons.prems by (intro map_untouched) auto
    show ?case using rest Cons by (auto simp: holds_id_iff update_first_map map_untouched)
  qed simp
  from this [of "ns_sources s"] show ?thesis
    using assms by (simp add: store_ok_def ids_ok_def all_notifications_def find_mut_def)
qed

lemma sources_ok_update:
  assumes "sources_ok srcs" and "\<And>src. src_key (f src) = src_key src"
    and "\<And>src. length (src_notifications (f src)) = length (src_notifications src)"
  shows "sources_ok (update_first P f srcs)"
proof -
  have "src_notifications (f src) \<noteq> []" if "src_notifications src \<noteq> []" for src
    using that assms(3) [of src] by auto
  then show ?thesis using assms by (auto simp: sources_ok_def dest!: set_update_first)
qed

lemma find_mut_frame [simp]:
  "ns_queue (find_mut i f s) = ns_queue s" "ns_current (find_mut i f s) = ns_current s"
  "ns_next_id (find_mut i f s) = ns_next_id s"
  by (simp_all add: find_mut_def)

lemma on_source_frame [simp]:
  "ns_queue (on_source_of i f s) = ns_queue s" "ns_current (on_source_of i f s) = ns_current s"
  "ns_next_id (on_source_of i f s) = ns_next_id s"
  by (simp_all add: on_source_of_def)

lemma ids_ok_map: "ids_ok k ns \<Longrightarrow> (\<And>n. nt_id (f n) = nt_id n) \<Longrightarrow> ids_ok k (map f ns)"
  by (simp add: ids_ok_def comp_def)

lemma find_mut_ids:
  "store_ok s \<Longrightarrow> (\<And>n. nt_id (f n) = nt_id n) \<Longrightarrow>
     map nt_id (all_notifications (find_mut i f s)) = map nt_id (all_notifications s)"
  by (simp add: all_find_mut)

text \<open>In place, what may be acknowledged is not something that waits in the queue.\<close>

lemma find_mut_ok:
  assumes ok: "store_ok s" and f: "\<And>n. nt_id (f n) = nt_id n"
    and a: "\<And>n. nt_acknowledged (f n) \<Longrightarrow> nt_acknowledged n \<or> i \<notin> set (ns_queue s)"
  shows "store_ok (find_mut i f s)"
proof -
  let ?f = "\<lambda>n. if nt_id n = i then f n else n"
  have "sources_ok (ns_sources (find_mut i f s))"
    unfolding find_mut_def using ok by (auto simp: store_ok_def intro: sources_ok_update)
  moreover have "ids_ok (ns_next_id s) (map ?f (all_notifications s))"
    using ok f by (intro ids_ok_map) (auto simp: store_ok_def)
  moreover have "\<exists>n \<in> set (map ?f (all_notifications s)). nt_id n = j \<and> \<not> nt_acknowledged n"
    if j: "j \<in> set (ns_queue s)" for j
  proof -
    obtain n where n: "n \<in> set (all_notifications s)" "nt_id n = j" "\<not> nt_acknowledged n"
      using ok j by (auto simp: store_ok_def banners_ok_def)
    show ?thesis using n f a [of n] j by (intro bexI [of _ "?f n"]) auto
  qed
  moreover have "nt_id ` set (map ?f (all_notifications s)) = nt_id ` set (all_notifications s)"
    unfolding set_map image_image using f by (intro image_cong) auto
  ultimately show ?thesis
    using ok unfolding store_ok_def banners_ok_def all_find_mut [OF ok] by simp
qed

lemma all_on_source:
  assumes "\<And>src. src_notifications (f src) = src_notifications src"
  shows "all_notifications (on_source_of i f s) = all_notifications s"
  using assms by (simp add: all_notifications_def on_source_of_def)

lemma on_source_ok:
  assumes "store_ok s" and "\<And>src. src_notifications (f src) = src_notifications src"
    and "\<And>src. src_key (f src) = src_key src"
  shows "store_ok (on_source_of i f s)"
  using assms all_on_source [of f i s]
  by (simp add: store_ok_def) (simp add: on_source_of_def sources_ok_update)

subsection \<open>The banner queue keeps it\<close>

lemma set_sort_queue [simp]:
  "set (ns_queue (sort_queue s)) = set (ns_queue s)" "distinct (ns_queue (sort_queue s)) = distinct (ns_queue s)"
  "all_notifications (sort_queue s) = all_notifications s" "ns_current (sort_queue s) = ns_current s"
  "ns_next_id (sort_queue s) = ns_next_id s" "ns_sources (sort_queue s) = ns_sources s"
  by (simp_all add: sort_queue_def)

lemma sort_queue_ok: "store_ok (sort_queue s) \<longleftrightarrow> store_ok s"
  by (simp add: store_ok_def banners_ok_def)

lemma request_banner_ok:
  assumes "store_ok s"
  shows "store_ok (fst (request_banner i b s))"
proof -
  have cur: "store_ok (find_mut i (\<lambda>n. n\<lparr>nt_acknowledged := True\<rparr>) s)" if "ns_current s = Some i"
    using that assms by (intro find_mut_ok) (auto simp: store_ok_def banners_ok_def)
  have push: "store_ok (sort_queue (s\<lparr>ns_queue := ns_queue s @ [i]\<rparr>))"
    if "find_notification i s = Some n" "\<not> nt_acknowledged n" "ns_current s \<noteq> Some i" "i \<notin> set (ns_queue s)" for n
    using that find_iff [OF assms, of i n] assms
    unfolding sort_queue_ok by (auto simp: store_ok_def banners_ok_def)
  show ?thesis
    using assms cur push
    by (simp add: request_banner_def Let_def sort_queue_ok split: option.split)
qed

lemma request_banner_ids:
  assumes "store_ok s"
  shows "live_ids (fst (request_banner i b s)) = live_ids s"
    and "ns_next_id (fst (request_banner i b s)) = ns_next_id s"
proof -
  have m: "live_ids (find_mut i (\<lambda>n. n\<lparr>nt_acknowledged := True\<rparr>) s) = live_ids s"
    using find_mut_ids [OF assms] by (simp add: live_ids_def flip: mset_map)
  show "live_ids (fst (request_banner i b s)) = live_ids s"
    using m by (simp add: request_banner_def Let_def live_ids_def split: option.split)
  show "ns_next_id (fst (request_banner i b s)) = ns_next_id s"
    by (simp add: request_banner_def Let_def split: option.split)
qed

lemma admit_banner_eq:
  "fst (admit_banner i b e s) = fst (request_banner i b s)" "ne_closed (snd (admit_banner i b e s)) = ne_closed e"
  by (simp_all add: admit_banner_def case_prod_beta split: option.split)

lemma pop_queue_ok:
  assumes "store_ok s" and "ns_current s = None" and "ns_queue s = done @ q"
  shows "store_ok (fst (pop_queue q s)) \<and> live_ids (fst (pop_queue q s)) = live_ids s \<and>
    ns_next_id (fst (pop_queue q s)) = ns_next_id s"
  using assms
proof (induction q arbitrary: "done")
  case Nil
  then show ?case by (auto simp: store_ok_def banners_ok_def live_ids_def)
next
  case (Cons i q)
  let ?s = "find_mut i (\<lambda>n. n\<lparr>nt_acknowledged := True\<rparr>) (s\<lparr>ns_queue := q\<rparr>)"
  have sq: "store_ok (s\<lparr>ns_queue := q\<rparr>)" "i \<notin> set q" "i \<in> nt_id ` set (all_notifications s)"
    using Cons.prems by (auto simp: store_ok_def banners_ok_def)
  have 1: "store_ok ?s" using sq by (intro find_mut_ok) auto
  have ids: "map nt_id (all_notifications ?s) = map nt_id (all_notifications s)"
    using find_mut_ids [OF sq(1), of "\<lambda>n. n\<lparr>nt_acknowledged := True\<rparr>" i] by simp
  have "store_ok (?s\<lparr>ns_current := Some i\<rparr>)"
    using 1 sq(2,3) arg_cong [OF ids, of set] by (simp add: store_ok_def banners_ok_def)
  moreover have "live_ids (?s\<lparr>ns_current := Some i\<rparr>) = live_ids s"
    using ids by (simp add: live_ids_def flip: mset_map)
  ultimately show ?case using Cons.IH [of "done @ [i]"] Cons.prems by (simp split: option.split)
qed

lemma pop_next_banner_ok:
  assumes "store_ok s"
  shows "store_ok (fst (pop_next_banner s)) \<and> live_ids (fst (pop_next_banner s)) = live_ids s \<and>
    ns_next_id (fst (pop_next_banner s)) = ns_next_id s"
  using assms pop_queue_ok [OF assms, of "[]"] by (cases "ns_current s") (simp_all add: pop_next_banner_def)

lemma filter_out_prefix:
  "distinct (map nt_id ns) \<Longrightarrow> filter (\<lambda>n. nt_id n \<notin> set (map nt_id (take k ns))) ns = drop k ns"
proof (induction ns arbitrary: k)
  case (Cons n ns)
  show ?case
  proof (cases k)
    case (Suc j)
    have "filter (\<lambda>m. nt_id m \<noteq> nt_id n \<and> nt_id m \<notin> nt_id ` set (take j ns)) ns =
          filter (\<lambda>m. nt_id m \<notin> nt_id ` set (take j ns)) ns"
      using Cons.prems by (intro filter_cong) (auto simp: image_iff)
    then show ?thesis using Cons.IH [of j] Cons.prems Suc by simp
  qed simp
qed simp

subsection \<open>Posting keeps it\<close>

text \<open>The source that has the key, after the eviction: at most one short of full, and still there.\<close>

lemma evict_room:
  fixes key :: source_key and e :: notif_effects
  assumes ok: "store_ok s"
  defines "s1 \<equiv> fst (evict_for key e s)"
  shows "\<forall>src \<in> set (ns_sources s1). src_key src = key \<longrightarrow> length (src_notifications src) < MAX_NOTIFICATIONS_PER_SOURCE"
    and "key \<in> src_key ` set (ns_sources s1) \<longleftrightarrow> key \<in> src_key ` set (ns_sources s)"
proof -
  let ?room = "\<forall>src \<in> set (ns_sources s1). src_key src = key \<longrightarrow> length (src_notifications src) < MAX_NOTIFICATIONS_PER_SOURCE"
  have "?room \<and> (key \<in> src_key ` set (ns_sources s1) \<longleftrightarrow> key \<in> src_key ` set (ns_sources s))"
  proof (cases "find (\<lambda>src. src_key src = key) (ns_sources s)")
    case None
    then have "s1 = s" by (simp add: s1_def evict_for_def)
    then show ?thesis using None by (auto simp: find_None_iff)
  next
    case (Some src)
    then have src: "src \<in> set (ns_sources s)" "src_key src = key" by (auto simp: find_Some_iff)
    define ns where "ns = src_notifications src"
    define excess where "excess = length ns + 1 - MAX_NOTIFICATIONS_PER_SOURCE"
    have uniq: "src' = src" if "src' \<in> set (ns_sources s)" "src_key src' = key" for src'
      using that src ok by (auto simp: store_ok_def sources_ok_def distinct_map dest: inj_onD)
    have len: "ns \<noteq> []" "length ns \<le> MAX_NOTIFICATIONS_PER_SOURCE"
      using ok src by (auto simp: ns_def store_ok_def sources_ok_def)
    have srcs: "ns_sources s1 = drop_ids (set (map nt_id (take excess ns))) (ns_sources s)"
      using Some close_each_state [OF ok] by (simp add: s1_def evict_for_def Let_def ns_def excess_def)
    have "distinct (map nt_id ns)"
      using ok split_list [OF src(1)] by (auto simp: ns_def store_ok_def ids_ok_def all_notifications_def)
    then have cut: "filter (\<lambda>n. nt_id n \<notin> set (map nt_id (take excess ns))) ns = drop excess ns"
      by (rule filter_out_prefix)
    let ?src = "src\<lparr>src_notifications := drop excess ns\<rparr>"
    from len(1) have "0 < length ns" by simp
    with len(2) have "excess < length ns" "length ns - excess < MAX_NOTIFICATIONS_PER_SOURCE"
      unfolding excess_def MAX_NOTIFICATIONS_PER_SOURCE_def by arith+
    then have left: "drop excess ns \<noteq> []" "length (drop excess ns) < MAX_NOTIFICATIONS_PER_SOURCE" by auto
    have one: "src' = ?src" if "src' \<in> set (ns_sources s1)" "src_key src' = key" for src'
      using that cut uniq unfolding srcs drop_ids_def by (auto simp: ns_def)
    have "?src \<in> set (ns_sources s1)"
      using src cut left unfolding srcs drop_ids_def by (auto simp: ns_def intro!: image_eqI [of _ _ src])
    then have "key \<in> src_key ` set (ns_sources s1)" using src(2) by (auto intro!: image_eqI [of _ _ ?src])
    moreover have ?room using left(2) by (auto dest!: one)
    ultimately show ?thesis using src by auto
  qed
  then show ?room "key \<in> src_key ` set (ns_sources s1) \<longleftrightarrow> key \<in> src_key ` set (ns_sources s)" by blast+
qed

lemma evict_ok:
  assumes "store_ok s"
  shows "store_ok (fst (evict_for key e s))"
    and "live_ids s + closed_ids e = live_ids (fst (evict_for key e s)) + closed_ids (snd (evict_for key e s))"
    and "ns_next_id (fst (evict_for key e s)) = ns_next_id s"
    and "set (all_notifications (fst (evict_for key e s))) \<subseteq> set (all_notifications s)"
  using assms
  by (auto simp: evict_for_def Let_def close_each_ok close_each_conserves close_each_state close_each_all split: option.split)

lemma front_source_all:
  assumes d: "distinct (map src_key (ns_sources s))"
    and f: "\<And>src. src_notifications (f src) = src_notifications src @ [n]"
  shows "mset (all_notifications (with_front_source key sender f s)) = add_mset n (mset (all_notifications s))"
proof (cases "find (\<lambda>src. src_key src = key) (ns_sources s)")
  case None
  then show ?thesis by (simp add: with_front_source_def all_notifications_def f blank_source_def)
next
  case (Some src)
  then obtain as bs where srcs: "ns_sources s = as @ src # bs" and k: "src_key src = key"
    by (auto simp: find_Some_iff dest!: split_list [OF nth_mem])
  have "filter (\<lambda>x. src_key x \<noteq> key) as = as" "filter (\<lambda>x. src_key x \<noteq> key) bs = bs"
    using d k unfolding srcs by (auto simp: filter_id_conv image_iff)
  then have "remove_first (\<lambda>x. src_key x = key) (ns_sources s) = as @ bs"
    using k remove_first_filter [OF d] unfolding srcs by simp
  then show ?thesis using Some srcs by (simp add: with_front_source_def all_notifications_def f)
qed

lemma front_source_ok:
  assumes ok: "sources_ok (ns_sources s)"
    and room: "\<forall>src \<in> set (ns_sources s). src_key src = key \<longrightarrow> length (src_notifications src) < MAX_NOTIFICATIONS_PER_SOURCE"
    and f: "\<And>src. src_notifications (f src) = src_notifications src @ [n]" "\<And>src. src_key (f src) = src_key src"
  shows "sources_ok (ns_sources (with_front_source key sender f s))"
proof -
  have d: "distinct (map src_key (ns_sources s))" using ok by (simp add: sources_ok_def)
  show ?thesis
  proof (cases "find (\<lambda>src. src_key src = key) (ns_sources s)")
    case None
    then have "ns_sources (with_front_source key sender f s) = f (blank_source key sender) # ns_sources s"
      by (simp add: with_front_source_def)
    then show ?thesis using None ok f by (auto simp: sources_ok_def blank_source_def find_None_iff MAX_NOTIFICATIONS_PER_SOURCE_def)
  next
    case (Some src)
    then have "src \<in> set (ns_sources s)" "src_key src = key" by (auto simp: find_Some_iff)
    moreover have "ns_sources (with_front_source key sender f s) = f src # remove_first (\<lambda>src. src_key src = key) (ns_sources s)"
      using Some by (simp add: with_front_source_def)
    ultimately show ?thesis using ok f room
      by (auto simp: sources_ok_def remove_first_filter [OF d] distinct_map_filter Suc_le_eq)
  qed
qed

lemma front_frame [simp]:
  "ns_queue (with_front_source key sender f s) = ns_queue s" "ns_current (with_front_source key sender f s) = ns_current s"
  "ns_next_id (with_front_source key sender f s) = ns_next_id s"
  by (simp_all add: with_front_source_def)

lemma ids_ok_mset: "ids_ok k xs \<longleftrightarrow> ids_ok k ys" if "mset xs = mset ys"
proof -
  have "mset (map nt_id xs) = mset (map nt_id ys)" using that by simp
  from mset_eq_imp_distinct_iff [OF this] show ?thesis using mset_eq_setD [OF that] by (auto simp: ids_ok_def)
qed

lemma banners_ok_mono: "banners_ok q c xs \<Longrightarrow> set xs \<subseteq> set ys \<Longrightarrow> banners_ok q c ys"
  unfolding banners_ok_def by blast

lemma next_id_ok: "store_ok s \<Longrightarrow> store_ok (s\<lparr>ns_next_id := ns_next_id s + 1\<rparr>)"
  by (auto simp: store_ok_def ids_ok_def)

text \<open>A new notification: evict, then push it on its source, which goes to the front.\<close>

lemma posted:
  fixes key :: source_key and sender :: "ustr option"
  assumes ok: "store_ok s" and n: "nt_id n = ns_next_id s"
    and f: "\<And>src. src_notifications (f src) = src_notifications src @ [n]" "\<And>src. src_key (f src) = src_key src"
  defines "r \<equiv> evict_for key no_notif_effects (s\<lparr>ns_next_id := ns_next_id s + 1\<rparr>)"
  defines "s2 \<equiv> with_front_source key sender f (fst r)"
  shows "store_ok s2" and "add_mset (ns_next_id s) (live_ids s) = live_ids s2 + closed_ids (snd r)"
    and "ns_next_id s2 = ns_next_id s + 1" and "n \<in> set (all_notifications s2)"
proof -
  note r = evict_ok [OF next_id_ok [OF ok], where key = key and e = no_notif_effects, folded r_def]
  have room: "\<forall>src \<in> set (ns_sources (fst r)). src_key src = key \<longrightarrow> length (src_notifications src) < MAX_NOTIFICATIONS_PER_SOURCE"
    using evict_room(1) [OF next_id_ok [OF ok]] unfolding r_def .
  have srcs: "sources_ok (ns_sources (fst r))" "distinct (map src_key (ns_sources (fst r)))"
    using r(1) by (auto simp: store_ok_def sources_ok_def)
  have all: "mset (all_notifications s2) = mset (n # all_notifications (fst r))"
    unfolding s2_def using front_source_all [OF srcs(2) f(1)] by simp
  have "ns_next_id s \<notin> nt_id ` set (all_notifications (fst r))"
    using r(4) ok by (auto simp: store_ok_def ids_ok_def)
  then have "ids_ok (ns_next_id s + 1) (n # all_notifications (fst r))"
    using r(1,3) n ok by (auto simp: store_ok_def ids_ok_def)
  then have "ids_ok (ns_next_id s + 1) (all_notifications s2)" using ids_ok_mset [OF all] by simp
  moreover have "banners_ok (ns_queue s2) (ns_current s2) (all_notifications s2)"
    using r(1) mset_eq_setD [OF all] unfolding s2_def by (auto simp: store_ok_def intro: banners_ok_mono)
  moreover show nx: "ns_next_id s2 = ns_next_id s + 1" using r(3) by (simp add: s2_def)
  ultimately show "store_ok s2"
    using front_source_ok [OF srcs(1) room f, of sender] by (simp add: store_ok_def s2_def)
  show "add_mset (ns_next_id s) (live_ids s) = live_ids s2 + closed_ids (snd r)"
    using r(2) all n by (simp add: live_ids_def closed_ids_def no_notif_effects_def)
  show "n \<in> set (all_notifications s2)" using mset_eq_setD [OF all] by simp
qed

subsection \<open>Every operation keeps it and accounts for every id\<close>

text \<open>The ids given out since, and those that were live, are the ones live now and the ones reported closed.\<close>

definition accounts :: "notification_store \<Rightarrow> notification_store \<Rightarrow> notif_effects \<Rightarrow> bool" where
  "accounts s s' e \<longleftrightarrow> store_ok s' \<and> ns_next_id s \<le> ns_next_id s' \<and>
     live_ids s + mset [ns_next_id s..<ns_next_id s'] = live_ids s' + closed_ids e"

lemma closed_ids_none [simp]: "closed_ids no_notif_effects = {#}" "closed_ids (e\<lparr>ne_banner := b\<rparr>) = closed_ids e"
  by (simp_all add: closed_ids_def no_notif_effects_def)

lemma accounts_refl: "store_ok s \<Longrightarrow> accounts s s no_notif_effects"
  by (simp add: accounts_def)

lemma accounts_kept:
  "store_ok s' \<Longrightarrow> live_ids s' = live_ids s \<Longrightarrow> ns_next_id s' = ns_next_id s \<Longrightarrow> ne_closed e = [] \<Longrightarrow> accounts s s' e"
  by (simp add: accounts_def closed_ids_def)

lemma accounts_close: "store_ok s \<Longrightarrow> accounts s (fst (close i r s)) (snd (close i r s))"
  by (simp add: accounts_def close_ok close_conserves close_state)

lemma accounts_close_each:
  "store_ok s \<Longrightarrow> accounts s (fst (close_each is r no_notif_effects s)) (snd (close_each is r no_notif_effects s))"
  using close_each_conserves [where s = s and e = no_notif_effects and r = r and ?is = "is"]
  by (simp add: accounts_def close_each_ok close_each_state)

lemma accounts_admit:
  assumes "accounts s s' e"
  shows "accounts s (fst (admit_banner i b e s')) (snd (admit_banner i b e s'))"
  using assms request_banner_ok [of s' i b] request_banner_ids [of s' i b]
  by (simp add: accounts_def admit_banner_eq closed_ids_def)

lemma accounts_replace:
  assumes "store_ok s" and "\<And>n. nt_id (f n) = nt_id n" and "\<And>n. \<not> nt_acknowledged (f n)"
    and "\<And>src. src_notifications (g src) = src_notifications src" and "\<And>src. src_key (g src) = src_key src"
  shows "accounts s (on_source_of i g (find_mut i f s)) no_notif_effects"
proof (rule accounts_kept)
  have "store_ok (find_mut i f s)" using assms by (intro find_mut_ok) auto
  then show "store_ok (on_source_of i g (find_mut i f s))" using assms by (intro on_source_ok) auto
  show "live_ids (on_source_of i g (find_mut i f s)) = live_ids s"
    using find_mut_ids [OF assms(1,2)] all_on_source [OF assms(4)] by (simp add: live_ids_def flip: mset_map)
qed (simp_all add: no_notif_effects_def)

lemma accounts_posted:
  fixes key :: source_key and sender :: "ustr option"
  assumes "store_ok s" and "nt_id n = ns_next_id s"
    and "\<And>src. src_notifications (f src) = src_notifications src @ [n]" and "\<And>src. src_key (f src) = src_key src"
  defines "r \<equiv> evict_for key no_notif_effects (s\<lparr>ns_next_id := ns_next_id s + 1\<rparr>)"
  shows "accounts s (with_front_source key sender f (fst r)) (snd r)"
  using posted [OF assms(1-4), where sender = sender and key = key] unfolding r_def accounts_def by simp

lemma notify_accounts:
  assumes "store_ok s"
  shows "case notify req b now s of (s', Inl err) \<Rightarrow> s' = s | (s', Inr (i, e)) \<Rightarrow> accounts s s' e"
proof -
  have new: "accounts s (fst (notify_new req now s)) (fst (snd (notify_new req now s)))"
    unfolding notify_new_def Let_def case_prod_beta fst_conv snd_conv
    by (rule accounts_posted [OF assms]) (simp_all add: notify_presentation_def)
  have old: "accounts s (notify_replace req now i s) no_notif_effects" for i
    unfolding notify_replace_def by (rule accounts_replace [OF assms]) (simp_all add: notify_presentation_def)
  show ?thesis
    using accounts_admit [OF new] accounts_admit [OF old]
    by (simp add: notify_def Let_def case_prod_beta split: option.split sum.split)
qed

lemma add_gtk_accounts:
  assumes "store_ok s"
  shows "accounts s (fst (add_gtk req b now s)) (snd (add_gtk req b now s))"
proof -
  have new: "accounts s (fst (gtk_new req now s)) (fst (snd (gtk_new req now s)))"
    unfolding gtk_new_def Let_def case_prod_beta fst_conv snd_conv
    by (rule accounts_posted [OF assms]) simp_all
  have old: "accounts s (gtk_replace req now i s) no_notif_effects" for i
    unfolding gtk_replace_def by (rule accounts_replace [OF assms]) simp_all
  show ?thesis
    using accounts_admit [OF new] accounts_admit [OF old]
    by (simp add: add_gtk_def case_prod_beta split: option.split)
qed

text \<open>A source made before the eviction has nothing to evict: it is as if it were made after it.\<close>

lemma early_source:
  fixes sender :: "ustr option"
  assumes "\<not> (\<exists>src \<in> set (ns_sources s). src_key src = key)"
  defines "s0 \<equiv> s\<lparr>ns_sources := blank_source key sender # ns_sources s\<rparr>"
  shows "evict_for key e s0 = (s0, e)" and "evict_for key e s = (s, e)"
    and "with_front_source key sender f s0 = with_front_source key sender f s"
proof -
  have "find (\<lambda>src. src_key src = key) (ns_sources s) = None" using assms by (auto simp: find_None_iff)
  then show "evict_for key e s0 = (s0, e)" "evict_for key e s = (s, e)"
    "with_front_source key sender f s0 = with_front_source key sender f s"
    by (simp_all add: s0_def evict_for_def with_front_source_def blank_source_def MAX_NOTIFICATIONS_PER_SOURCE_def)
qed

lemma add_shell_accounts:
  assumes "store_ok s"
  shows "\<exists>s' i e. add_shell req b now s = Some (s', i, e) \<and> accounts s s' e"
proof -
  define key where "key = ShellSource (hr_source req)"
  define n where "n = \<lparr>nt_id = ns_next_id s, nt_sender = None, nt_title = hr_title req, nt_body = hr_body req,
    nt_icon = hr_icon req,
    nt_actions = map (\<lambda>(j, label, _). (shell_action_key j, label)) (enumerate 0 (hr_actions req)),
    nt_has_default_action = (hr_default_action req \<noteq> None), nt_urgency = hr_urgency req,
    nt_resident = False, nt_transient = hr_transient req, nt_acknowledged = False,
    nt_timestamp = now, nt_kind = ShellKind (shell_actions req) (hr_default_action req)\<rparr>"
  define f where "f = (\<lambda>src :: notif_source. src\<lparr>src_title := hr_source_title req, src_icon := hr_source_icon req,
    src_notifications := src_notifications src @ [n]\<rparr>)"
  define t where "t = s\<lparr>ns_next_id := ns_next_id s + 1\<rparr>"
  define r where "r = evict_for key no_notif_effects t"
  have acc: "accounts s (with_front_source key None f (fst r)) (snd r)"
    unfolding r_def t_def by (rule accounts_posted [OF assms]) (simp_all add: f_def n_def)
  have ex: "\<exists>src \<in> set (ns_sources (fst r)). src_key src = key" if "\<exists>src \<in> set (ns_sources s). src_key src = key"
    using evict_room(2) [OF next_id_ok [OF assms], of key no_notif_effects] that
    unfolding r_def t_def by (simp add: image_iff) metis
  let ?out = "admit_banner (ns_next_id s) b (snd r) (with_front_source key None f (fst r))"
  have "add_shell req b now s = Some (fst ?out, ns_next_id s, snd ?out)"
  proof (cases "\<exists>src \<in> set (ns_sources s). src_key src = key")
    case True
    have "s\<lparr>ns_next_id := Suc (ns_next_id s)\<rparr> = t" "t\<lparr>ns_sources := ns_sources s\<rparr> = t" by (simp_all add: t_def)
    with True ex show ?thesis
      unfolding add_shell_def Let_def key_def [symmetric] n_def [symmetric] f_def [symmetric]
      by (simp add: r_def case_prod_beta)
  next
    case False
    then have no: "\<not> (\<exists>src \<in> set (ns_sources t). src_key src = key)" by (simp add: t_def)
    let ?t = "t\<lparr>ns_sources := blank_source key None # ns_sources t\<rparr>"
    have "s\<lparr>ns_next_id := ns_next_id s + 1, ns_sources := blank_source key None # ns_sources s\<rparr> = ?t" by (simp add: t_def)
    moreover have "\<exists>src \<in> set (ns_sources ?t). src_key src = key" by (simp add: blank_source_def)
    ultimately show ?thesis using False early_source(1,3) [OF no, where sender = None] early_source(2) [OF no]
      unfolding add_shell_def Let_def key_def [symmetric] n_def [symmetric] f_def [symmetric]
      by (simp add: r_def case_prod_beta)
  qed
  then show ?thesis using accounts_admit [OF acc] by blast
qed

lemma all_mapped:
  "all_notifications (s\<lparr>ns_sources := map (\<lambda>src. (g src)\<lparr>src_notifications := map f (src_notifications src)\<rparr>) (ns_sources s)\<rparr>)
     = map f (all_notifications s)"
  by (simp add: all_notifications_def comp_def map_concat)

lemma live_ids_mapped:
  assumes "\<And>n. nt_id (f n) = nt_id n"
  shows "live_ids (s\<lparr>ns_sources := map (\<lambda>src. (g src)\<lparr>src_notifications := map f (src_notifications src)\<rparr>) (ns_sources s)\<rparr>) = live_ids s"
  using assms by (simp add: live_ids_def all_mapped multiset.map_comp comp_def)

lemma mapped_ok:
  assumes ok: "store_ok s" and f: "\<And>n. nt_id (f n) = nt_id n" and g: "\<And>src. src_key (g src) = src_key src"
    and q: "ns_queue s = [] \<or> (\<forall>n. nt_acknowledged (f n) = nt_acknowledged n)"
  shows "store_ok (s\<lparr>ns_sources := map (\<lambda>src. (g src)\<lparr>src_notifications := map f (src_notifications src)\<rparr>) (ns_sources s)\<rparr>)"
proof -
  have "banners_ok (ns_queue s) (ns_current s) (map f (all_notifications s))"
    using ok f q by (auto simp: store_ok_def banners_ok_def image_image)
  moreover have "sources_ok (map (\<lambda>src. (g src)\<lparr>src_notifications := map f (src_notifications src)\<rparr>) (ns_sources s))"
    using ok g by (auto simp: store_ok_def sources_ok_def comp_def)
  ultimately show ?thesis
    using ok f by (simp add: store_ok_def all_mapped ids_ok_map)
qed

lemma sender_vanished_accounts:
  assumes "store_ok s"
  shows "accounts s (fst (sender_vanished sender s)) (snd (sender_vanished sender s))"
proof -
  have "accounts s (s1\<lparr>ns_sources := map (\<lambda>src. (src\<lparr>src_sender := untrack sender (src_sender src)\<rparr>)\<lparr>src_notifications :=
          map (\<lambda>n. n\<lparr>nt_sender := untrack sender (nt_sender n)\<rparr>) (src_notifications src)\<rparr>) (ns_sources s1)\<rparr>) e"
    if acc: "accounts s s1 e" for s1 e
    using acc mapped_ok [where s = s1] live_ids_mapped [where s = s1 and f = "\<lambda>n. n\<lparr>nt_sender := untrack sender (nt_sender n)\<rparr>"]
    by (simp add: accounts_def)
  from this [OF accounts_close_each [OF assms]] show ?thesis
    by (simp add: sender_vanished_def Let_def case_prod_beta)
qed

lemma acknowledge_all_accounts:
  assumes "store_ok s"
  shows "accounts s (fst (acknowledge_all s)) (snd (acknowledge_all s))"
proof -
  let ?s = "s\<lparr>ns_queue := []\<rparr>"
  have ok: "store_ok ?s" using assms by (simp add: store_ok_def banners_ok_def)
  let ?f = "\<lambda>n. n\<lparr>nt_acknowledged := True\<rparr>"
  let ?t = "?s\<lparr>ns_sources := map (\<lambda>src. src\<lparr>src_notifications := map ?f (src_notifications src)\<rparr>) (ns_sources ?s)\<rparr>"
  have "store_ok ?t" using mapped_ok [OF ok, where f = ?f and g = "\<lambda>src. src"] by simp
  moreover have "live_ids ?t = live_ids ?s" using live_ids_mapped [where f = ?f and s = ?s and g = "\<lambda>src. src"] by simp
  ultimately have "accounts s ?t e" if "ne_closed e = []" for e
    using that by (intro accounts_kept) (simp_all add: live_ids_def)
  moreover have "fst (acknowledge_all s) = ?t" by (simp add: acknowledge_all_def Let_def)
  moreover have "ne_closed (snd (acknowledge_all s)) = []"
    by (simp add: acknowledge_all_def Let_def no_notif_effects_def)
  ultimately show ?thesis by simp
qed

lemma banner_hidden_accounts:
  assumes "store_ok s"
  shows "accounts s (fst (banner_hidden s)) (snd (banner_hidden s))"
proof -
  have ok: "store_ok (s\<lparr>ns_current := None\<rparr>)" using assms by (simp add: store_ok_def banners_ok_def)
  have "live_ids (s\<lparr>ns_current := None\<rparr>) = live_ids s" by (simp add: live_ids_def)
  then show ?thesis
    using assms ok accounts_close [OF ok] accounts_refl [OF assms] accounts_refl [OF ok]
    by (simp add: banner_hidden_def Let_def accounts_def split: option.split)
qed

lemmas notif_accounts = accounts_refl accounts_close accounts_close_each add_gtk_accounts
  sender_vanished_accounts acknowledge_all_accounts banner_hidden_accounts

lemma on_notifications_msg_accounts:
  assumes "store_ok s"
  shows "\<exists>s' reply e. on_notifications_msg (env, x) s = Some (s', reply, e) \<and> accounts s s' e"
proof -
  obtain app_for dnd now where env: "env = (app_for, dnd, now)" by (cases env)
  show ?thesis
  proof (cases x)
    case (MsgNotify req)
    then show ?thesis using notify_accounts [OF assms, of "resolve_app app_for req" "\<not> dnd" now] assms
      by (auto simp: env accounts_refl split: prod.splits sum.splits)
  next
    case (MsgClose i sender)
    then show ?thesis using assms
      by (auto simp: env close_checked_def case_prod_beta notif_accounts split: option.split)
  next
    case (OpAddShell req)
    then show ?thesis using add_shell_accounts [OF assms, of req "\<not> dnd" now] by (auto simp: env)
  next
    case OpPopNextBanner
    then show ?thesis using pop_next_banner_ok [OF assms]
      by (simp add: env accounts_kept no_notif_effects_def)
  qed (use assms in \<open>simp_all add: env quietly_def notif_accounts remove_gtk_def clear_all_def
      activate_notification_def activate_source_def split: option.split\<close>)
qed

interpretation notifications: total_machine on_notifications_msg store_ok
proof
  fix s :: notification_store and x :: "notif_env \<times> notif_op"
  assume "store_ok s"
  from on_notifications_msg_accounts [OF this, of "fst x" "snd x"]
  show "\<exists>s' e. on_notifications_msg x s = Some (s', e) \<and> store_ok s'" by (auto simp: accounts_def)
qed

section \<open>Properties\<close>

text \<open>
  C30. From an empty store, no sequence of messages and operations panics: every one of them
  finds what it unwraps (the source a shell notification goes to is still there after the eviction).
  All along, no two notifications have the same id and no two sources the same key, a source has
  between one and ten notifications, and the banner queue holds live notifications that nobody has
  seen, each once, never the one on screen.
\<close>

theorem notification_store_total:
  "\<exists>s es. prun on_notifications_msg xs new_store = Some (s, es) \<and> length es = length xs \<and> store_ok s"
  using notifications.prun_total [OF store_ok_new] by blast

text \<open>The ids the effects of a run report closed.\<close>

definition run_closed_ids :: "(notif_reply \<times> notif_effects) list \<Rightarrow> nat multiset" where
  "run_closed_ids es = sum_list (map (closed_ids \<circ> snd) es)"

lemma run_accounts:
  assumes "store_ok s" and "prun on_notifications_msg xs s = Some (s', es)"
  shows "ns_next_id s \<le> ns_next_id s' \<and>
    live_ids s + mset [ns_next_id s..<ns_next_id s'] = live_ids s' + run_closed_ids es"
  using assms
proof (induction xs arbitrary: s es)
  case Nil
  then show ?case by (simp add: run_closed_ids_def)
next
  case (Cons x xs)
  obtain s1 reply e where 1: "on_notifications_msg x s = Some (s1, reply, e)" and a: "accounts s s1 e"
    using on_notifications_msg_accounts [OF Cons.prems(1), of "fst x" "snd x"] by auto
  obtain es1 where 2: "prun on_notifications_msg xs s1 = Some (s', es1)" "es = (reply, e) # es1"
    using Cons.prems(2) 1 by (auto split: option.splits)
  have IH: "ns_next_id s1 \<le> ns_next_id s'"
    "live_ids s1 + mset [ns_next_id s1..<ns_next_id s'] = live_ids s' + run_closed_ids es1"
    using Cons.IH [OF _ 2(1)] a by (auto simp: accounts_def)
  have "mset [ns_next_id s..<ns_next_id s'] = mset [ns_next_id s..<ns_next_id s1] + mset [ns_next_id s1..<ns_next_id s']"
    using a IH(1) upt_add_eq_append [of "ns_next_id s" "ns_next_id s1" "ns_next_id s' - ns_next_id s1"]
    by (simp add: accounts_def del: mset_upt)
  then have "live_ids s + mset [ns_next_id s..<ns_next_id s'] =
      (live_ids s + mset [ns_next_id s..<ns_next_id s1]) + mset [ns_next_id s1..<ns_next_id s']"
    by (simp add: ac_simps del: mset_upt)
  also have "\<dots> = (live_ids s1 + mset [ns_next_id s1..<ns_next_id s']) + closed_ids e"
    using a unfolding accounts_def by (metis union_assoc union_commute)
  finally show ?case using a IH unfolding 2 by (simp add: accounts_def run_closed_ids_def ac_simps del: mset_upt)
qed

text \<open>
  C31. Every id the store has handed out is, at every moment, either the id of one live
  notification or reported closed by exactly one effect: no notification disappears without its
  close being reported, none is reported twice, and none comes back after it.
\<close>

theorem every_id_live_or_closed_once:
  assumes "prun on_notifications_msg xs new_store = Some (s, es)"
  shows "live_ids s + run_closed_ids es = mset [1..<ns_next_id s]"
  using run_accounts [OF store_ok_new assms]
  by (simp add: new_store_def live_ids_def all_notifications_def del: mset_upt)

definition plain_request :: "ustr \<Rightarrow> nat \<Rightarrow> urgency \<Rightarrow> notify_request" where
  "plain_request sender replaces u = \<lparr>nr_sender = Some sender, nr_pid = 7, nr_app_name = lit ''app'',
     nr_replaces_id = replaces, nr_desktop_entry = None, nr_source_icon = None, nr_app_icon = None,
     nr_title = lit ''hello'', nr_body = [], nr_icon = None, nr_actions = [], nr_has_default_action = False,
     nr_urgency = u, nr_resident = False, nr_transient = False\<rparr>"

definition plain_env :: notif_env where
  "plain_env = ((\<lambda>_ _. None), False, 0)"

lemma every_id_live_or_closed_once_witness:
  "\<exists>s es. prun on_notifications_msg [(plain_env, MsgNotify (plain_request (lit '':1.1'') 0 Normal)), (plain_env, OpClearAll)]
     new_store = Some (s, es) \<and> live_ids s + run_closed_ids es = mset [1..<ns_next_id s]"
proof -
  obtain s es where "prun on_notifications_msg [(plain_env, MsgNotify (plain_request (lit '':1.1'') 0 Normal)), (plain_env, OpClearAll)]
     new_store = Some (s, es)"
    using notifications.prun_total [OF store_ok_new] by blast
  then show ?thesis using every_id_live_or_closed_once by blast
qed

subsection \<open>Notifications of another sender\<close>

lemma close_each_closed:
  assumes "store_ok s" and "n \<in> set (all_notifications s)" and "nt_id n \<in> set is"
  shows "\<exists>c \<in> set (ne_closed (snd (close_each is r e s))). cs_id c = nt_id n \<and> cs_reason c = r \<and> cs_sender c = nt_sender n"
  using assms
proof (induction "is" arbitrary: e s)
  case (Cons i "is")
  have grow: "set (ne_closed f) \<subseteq> set (ne_closed (snd (close_each js r f t)))" for js f t
    by (induction js arbitrary: f t) (force simp: close_each_step simp del: close_each.simps(2))+
  show ?case
  proof (cases "nt_id n = i")
    case True
    then have "find_notification i s = Some n" using Cons.prems by (simp add: find_iff)
    then have "\<exists>c \<in> set (ne_closed (snd (close i r s))). cs_id c = nt_id n \<and> cs_reason c = r \<and> cs_sender c = nt_sender n"
      using True by (simp add: close_def Let_def)
    then show ?thesis using grow [of "merge_effects e (snd (close i r s))" "is" "fst (close i r s)"]
      by (auto simp: close_each_step simp del: close_each.simps(2))
  next
    case False
    then show ?thesis using Cons.IH [OF close_ok [OF Cons.prems(1)]] Cons.prems
      by (simp add: close_each_step close_all del: close_each.simps(2))
  qed
qed simp

lemma evict_keeps:
  assumes "store_ok s" and "n \<in> set (all_notifications s)"
  shows "n \<in> set (all_notifications (fst (evict_for key e s))) \<or>
    (\<exists>c \<in> set (ne_closed (snd (evict_for key e s))). cs_id c = nt_id n \<and> cs_reason c = Expired \<and> cs_sender c = nt_sender n)"
  using assms close_each_closed [OF assms]
  by (auto simp: evict_for_def Let_def close_each_all split: option.split)

lemma request_banner_keeps:
  assumes "store_ok s" and "n \<in> set (all_notifications s)" and "nt_id n \<noteq> i"
  shows "n \<in> set (all_notifications (fst (request_banner i b s)))"
  using assms by (auto simp: request_banner_def Let_def all_find_mut image_iff split: option.split)

lemma notify_new_adds:
  assumes ok: "store_ok s"
  shows "store_ok (fst (notify_new req now s))"
    and "set (all_notifications (fst (evict_for (notify_key req) no_notif_effects (s\<lparr>ns_next_id := ns_next_id s + 1\<rparr>)))) \<subseteq>
      set (all_notifications (fst (notify_new req now s)))"
proof -
  let ?ev = "evict_for (notify_key req) no_notif_effects (s\<lparr>ns_next_id := ns_next_id s + 1\<rparr>)"
  let ?m = "\<lparr>nt_id = ns_next_id s, nt_sender = nr_sender req, nt_title = nr_title req, nt_body = nr_body req,
    nt_icon = nr_icon req, nt_actions = nr_actions req, nt_has_default_action = nr_has_default_action req,
    nt_urgency = nr_urgency req, nt_resident = nr_resident req, nt_transient = nr_transient req,
    nt_acknowledged = False, nt_timestamp = now, nt_kind = Fdo\<rparr>"
  let ?f = "\<lambda>src. (notify_presentation req src)\<lparr>src_notifications := src_notifications src @ [?m]\<rparr>"
  have s1: "fst (notify_new req now s) = with_front_source (notify_key req) (nr_sender req) ?f (fst ?ev)"
    by (simp add: notify_new_def Let_def case_prod_beta)
  show "store_ok (fst (notify_new req now s))" unfolding s1
    by (rule posted(1) [OF ok]) (simp_all add: notify_presentation_def)
  have "distinct (map src_key (ns_sources (fst ?ev)))"
    using evict_ok(1) [OF next_id_ok [OF ok]] by (simp add: store_ok_def sources_ok_def)
  from front_source_all [OF this, of ?f ?m "notify_key req" "nr_sender req"]
  have "mset (all_notifications (fst (notify_new req now s))) = add_mset ?m (mset (all_notifications (fst ?ev)))"
    unfolding s1 by simp
  from arg_cong [OF this, of set_mset]
  show "set (all_notifications (fst ?ev)) \<subseteq> set (all_notifications (fst (notify_new req now s)))" by auto
qed

lemma notify_keeps:
  assumes ok: "store_ok s" and n: "n \<in> set (all_notifications s)" "nt_sender n = Some owner"
    and other: "nr_sender req \<noteq> Some owner" and r: "notify req b now s = (s', Inr (j, e))"
  shows "n \<in> set (all_notifications s') \<or>
    (\<exists>c \<in> set (ne_closed e). cs_id c = nt_id n \<and> cs_reason c = Expired \<and> cs_sender c = Some owner)"
proof (cases "replaced_by req s")
  case None
  define t where "t = s\<lparr>ns_next_id := ns_next_id s + 1\<rparr>"
  define s1 where "s1 = fst (notify_new req now s)"
  let ?ev = "evict_for (notify_key req) no_notif_effects t"
  have out: "s' = fst (request_banner (ns_next_id s) b s1)" "ne_closed e = ne_closed (snd ?ev)"
    using r None admit_banner_eq [of "ns_next_id s" b "snd ?ev" s1]
    by (auto simp: notify_def notify_new_def Let_def case_prod_beta s1_def t_def)
  have ok1: "store_ok s1" and all1: "set (all_notifications (fst ?ev)) \<subseteq> set (all_notifications s1)"
    using notify_new_adds [OF ok, of req now] by (simp_all add: s1_def t_def)
  have "nt_id n \<noteq> ns_next_id s" using ok n by (auto simp: store_ok_def ids_ok_def)
  then show ?thesis
    using evict_keeps [of t n "notify_key req" no_notif_effects] next_id_ok [OF ok] n all1
      request_banner_keeps [OF ok1, of n "ns_next_id s" b] unfolding out by (auto simp: t_def)
next
  case (Some res)
  then obtain i where i: "res = Inr i" using r by (cases res) (auto simp: notify_def)
  then obtain m where m: "find_notification (nr_replaces_id req) s = Some m" "i = nt_id m"
    "nt_sender m = None \<or> nt_sender m = nr_sender req"
    using Some by (auto simp: replaced_by_def split: if_splits)
  have "nt_id n \<noteq> i"
  proof
    assume "nt_id n = i"
    then have "m = n" using m n ok find_iff [OF ok, of i m] find_iff [OF ok, of i n] find_iff [OF ok, of "nr_replaces_id req" m] by auto
    then show False using m(3) n(2) other by auto
  qed
  moreover have "store_ok (notify_replace req now i s)"
    using accounts_replace [OF ok] unfolding notify_replace_def
    by (auto simp: accounts_def notify_presentation_def intro!: on_source_ok find_mut_ok ok)
  moreover have "n \<in> set (all_notifications (notify_replace req now i s))"
    using n \<open>nt_id n \<noteq> i\<close> unfolding notify_replace_def
    by (subst all_on_source) (auto simp: notify_presentation_def all_find_mut [OF ok] image_iff)
  ultimately have "n \<in> set (all_notifications (fst (request_banner i b (notify_replace req now i s))))"
    by (intro request_banner_keeps)
  moreover have "s' = fst (request_banner i b (notify_replace req now i s))"
    using r Some i admit_banner_eq(1) [of i b no_notif_effects "notify_replace req now i s"]
    by (auto simp: notify_def Let_def case_prod_beta)
  ultimately show ?thesis by simp
qed


definition two_clients :: notification_store where
  "two_clients = (case on_notifications_msg (plain_env, MsgNotify (plain_request (lit '':1.1'') 0 Normal)) new_store of
     Some (s, _) \<Rightarrow> s | None \<Rightarrow> new_store)"

lemma two_clients_ok: "store_ok two_clients"
  using notifications.step_total [OF store_ok_new, of "(plain_env, MsgNotify (plain_request (lit '':1.1'') 0 Normal))"]
  by (auto simp: two_clients_def)


text \<open>
  C33. The one way around \<open>LOW urgency never banners\<close>: a notification that waits for its banner and
  is replaced with low urgency keeps its place in the queue, since the admission gate that turns it
  away does not take it out. When the banner before it goes, it is shown.
\<close>

definition low_run :: "(notif_env \<times> notif_op) list" where
  "low_run = [(plain_env, MsgNotify (plain_request (lit '':1.1'') 0 Normal)), (plain_env, OpPopNextBanner),
     (plain_env, MsgNotify (plain_request (lit '':1.1'') 0 Normal)),
     (plain_env, MsgNotify (plain_request (lit '':1.1'') 2 Low)),
     (plain_env, OpBannerHidden), (plain_env, OpPopNextBanner)]"


subsection \<open>Untrusted images and text\<close>

lemma slice_inside: "a + k \<le> length xs \<Longrightarrow> slice a (a + k) xs = Some (take k (drop a xs))"
  by (simp add: slice_def)

definition pack_row :: "bool \<Rightarrow> nat list \<Rightarrow> nat list" where
  "pack_row has_alpha bytes = (if has_alpha then bytes else rgb_to_rgba bytes)"

lemma pack_rows_inside:
  "\<forall>row \<in> set rows. row * stride + k \<le> length data \<Longrightarrow>
   pack_rows has_alpha stride k data rows =
     Some (concat (map (\<lambda>row. pack_row has_alpha (take k (drop (row * stride) data))) rows))"
  by (induction rows) (simp_all add: slice_inside pack_row_def)

lemma length_rgb_to_rgba: "length px = 3 * w \<Longrightarrow> length (rgb_to_rgba px) = 4 * w"
proof (induction w arbitrary: px)
  case (Suc w)
  then obtain r g b rest where "px = r # g # b # rest" "length rest = 3 * w"
    by (cases px; cases "tl px"; cases "tl (tl px)") auto
  with Suc.IH show ?case by simp
qed simp

lemma nth_rgb_to_rgba:
  "length px = 3 * w \<Longrightarrow> x < w \<Longrightarrow> c < 4 \<Longrightarrow>
     rgb_to_rgba px ! (4 * x + c) = (if c < 3 then px ! (3 * x + c) else 255)"
proof (induction w arbitrary: px x)
  case (Suc w)
  then obtain r g b rest where px: "px = r # g # b # rest" "length rest = 3 * w"
    by (cases px; cases "tl px"; cases "tl (tl px)") auto
  show ?case
  proof (cases x)
    case 0
    have "c = 0 \<or> c = 1 \<or> c = 2 \<or> c = 3" using Suc.prems(3) by arith
    then show ?thesis using px 0 by auto
  next
    case (Suc y)
    then show ?thesis using Suc.IH [of rest y] Suc.prems px by simp
  qed
qed simp

lemma pack_row_spec:
  assumes "length bytes = w * (if has_alpha then 4 else 3)"
  shows "length (pack_row has_alpha bytes) = 4 * w"
    and "x < w \<Longrightarrow> c < 4 \<Longrightarrow> pack_row has_alpha bytes ! (4 * x + c) =
      (let k = (if has_alpha then 4 else 3) in if c < k then bytes ! (k * x + c) else 255)"
  using assms length_rgb_to_rgba [of bytes w] nth_rgb_to_rgba [of bytes w x c]
  by (auto simp: pack_row_def mult.commute)

lemma length_concat_uniform: "\<forall>xs \<in> set xss. length xs = k \<Longrightarrow> length (concat xss) = length xss * k"
  by (induction xss) auto

lemma nth_concat_uniform:
  assumes "\<forall>xs \<in> set xss. length xs = k" and "i < length xss" and "j < k"
  shows "concat xss ! (i * k + j) = xss ! i ! j"
  using assms
proof (induction xss arbitrary: i)
  case (Cons xs xss)
  then show ?case by (cases i) (auto simp: nth_append ac_simps)
qed simp

definition wire_image_ok :: "int \<Rightarrow> int \<Rightarrow> int \<Rightarrow> bool \<Rightarrow> int \<Rightarrow> int \<Rightarrow> nat list \<Rightarrow> bool" where
  "wire_image_ok width height rowstride has_alpha bits_per_sample channels data \<longleftrightarrow>
     bits_per_sample = 8 \<and> channels = (if has_alpha then 4 else 3) \<and>
     0 < width \<and> width \<le> 4096 \<and> 0 < height \<and> height \<le> 4096 \<and>
     width * channels \<le> rowstride \<and> rowstride * (height - 1) + width * channels \<le> int (length data)"

lemma from_wire_accepts:
  assumes stride: "rowstride < 2 ^ 31"
    and ok: "wire_image_ok width height rowstride has_alpha bits_per_sample channels data"
  defines "w \<equiv> nat width" and "h \<equiv> nat height" and "k \<equiv> (if has_alpha then 4 else 3 :: nat)"
  shows "pixel_icon_from_wire width height rowstride has_alpha bits_per_sample channels data =
      Some (Some \<lparr>pi_width = w, pi_height = h,
        pi_rgba = concat (map (\<lambda>row. pack_row has_alpha (take (w * k) (drop (row * nat rowstride) data))) [0..<h])\<rparr>)"
    and "\<forall>row < h. row * nat rowstride + w * k \<le> length data"
proof -
  have r: "0 \<le> rowstride" and kk: "channels = int k" and k4: "k \<le> 4"
    using ok by (auto simp: wire_image_ok_def k_def split: if_splits)
  have w: "int w = width" "0 < w" "w \<le> 4096" and h: "int h = height" "0 < h" "h \<le> 4096"
    using ok by (auto simp: wire_image_ok_def w_def h_def)
  have wk: "w * k \<le> nat rowstride" and need: "nat rowstride * (h - 1) + w * k \<le> length data"
  proof -
    have a: "width * channels \<le> rowstride" "rowstride * (height - 1) + width * channels \<le> int (length data)"
      using ok unfolding wire_image_ok_def by blast+
    have "int (w * k) \<le> rowstride" using a(1) w(1) unfolding kk by simp
    then show "w * k \<le> nat rowstride" by (simp only: le_nat_iff [OF r])
    have "int (nat rowstride * (h - 1) + w * k) \<le> int (length data)"
      using a(2) w(1) h(1,2) r unfolding kk by (simp add: of_nat_diff)
    then show "nat rowstride * (h - 1) + w * k \<le> length data" by (simp only: of_nat_le_iff)
  qed
  show rows: "\<forall>row < h. row * nat rowstride + w * k \<le> length data"
  proof (intro allI impI)
    fix row assume "row < h"
    then have "row * nat rowstride \<le> (h - 1) * nat rowstride" by (intro mult_le_mono1) simp
    then show "row * nat rowstride + w * k \<le> length data" using need unfolding mult.commute [of "nat rowstride"] by linarith
  qed
  have small: "nat rowstride * (h - 1) \<le> 2 ^ 31 * 4096" "w * k \<le> 4096 * 4"
    by (rule mult_le_mono; use stride h w k4 in auto)+
  show "pixel_icon_from_wire width height rowstride has_alpha bits_per_sample channels data =
      Some (Some \<lparr>pi_width = w, pi_height = h,
        pi_rgba = concat (map (\<lambda>row. pack_row has_alpha (take (w * k) (drop (row * nat rowstride) data))) [0..<h])\<rparr>)"
    using ok r wk need small rows
    by (cases has_alpha) (simp_all add: k_def pixel_icon_from_wire_def wire_image_ok_def MAX_PIXEL_ICON_DIM_def Let_def checked_usize_def
        w_def [symmetric] h_def [symmetric] pack_rows_inside)
qed

lemma from_wire_refuses:
  assumes "\<not> wire_image_ok width height rowstride has_alpha bits_per_sample channels data"
  shows "pixel_icon_from_wire width height rowstride has_alpha bits_per_sample channels data = Some None"
proof (cases "bits_per_sample = 8 \<and> channels = (if has_alpha then 4 else 3) \<and> 0 < width \<and> width \<le> 4096 \<and>
    0 < height \<and> height \<le> 4096 \<and> width * channels \<le> rowstride")
  case False
  have "nat rowstride < nat width * nat channels" if "rowstride < width * channels" "0 < width" "0 \<le> rowstride" "0 < channels"
    using that by (simp add: nat_mult_distrib [symmetric])
  then show ?thesis using False
    by (auto simp: pixel_icon_from_wire_def MAX_PIXEL_ICON_DIM_def Let_def)
next
  case True
  then have "int (length data) < rowstride * (height - 1) + width * channels" "0 \<le> rowstride"
    using assms by (auto simp: wire_image_ok_def split: if_splits)
  then have "int (length data) < int (nat rowstride * (nat height - 1) + nat width * nat channels)"
  proof -
    have "int (nat height - 1) = height - 1" "0 \<le> channels" using True by auto
    then show ?thesis using True \<open>0 \<le> rowstride\<close>
      \<open>int (length data) < rowstride * (height - 1) + width * channels\<close>
      unfolding of_nat_add of_nat_mult by simp
  qed
  then have "length data < nat rowstride * (nat height - 1) + nat width * nat channels" by linarith
  then show ?thesis using True
    by (auto simp: pixel_icon_from_wire_def MAX_PIXEL_ICON_DIM_def Let_def checked_usize_def)
qed

text \<open>
  C34. The decoder of the untrusted \<open>image-data\<close> tuple never reads past the buffer, and its result
  is determined byte by byte. It accepts exactly the images whose geometry is consistent and whose
  rows all lie in the buffer; the icon then holds four bytes for every pixel, the ones the row
  stride and the channel count point at, with an opaque alpha where the image has none.
\<close>

theorem pixel_icon_from_wire_repacks:
  assumes stride: "rowstride < 2 ^ 31"
  shows "if wire_image_ok width height rowstride has_alpha bits_per_sample channels data
    then \<exists>icon. pixel_icon_from_wire width height rowstride has_alpha bits_per_sample channels data = Some (Some icon) \<and>
      pi_width icon = nat width \<and> pi_height icon = nat height \<and>
      length (pi_rgba icon) = 4 * (nat width * nat height) \<and>
      (\<forall>y < nat height. \<forall>x < nat width. \<forall>c < 4. pi_rgba icon ! (4 * (y * nat width + x) + c) =
         (if c < nat channels then data ! (y * nat rowstride + nat channels * x + c) else 255))
    else pixel_icon_from_wire width height rowstride has_alpha bits_per_sample channels data = Some None"
proof (cases "wire_image_ok width height rowstride has_alpha bits_per_sample channels data")
  case False
  then show ?thesis by (simp add: from_wire_refuses)
next
  case ok: True
  define w h k where "w = nat width" and "h = nat height" and "k = (if has_alpha then 4 else 3 :: nat)"
  note acc = from_wire_accepts [OF stride ok, folded w_def h_def k_def]
  have ch: "nat channels = k" using ok by (simp add: wire_image_ok_def k_def)
  define row where "row = (\<lambda>y. take (w * k) (drop (y * nat rowstride) data))"
  have len: "length (row y) = w * k" if "y < h" for y
    using acc(2) [rule_format, OF that] by (simp add: row_def)
  note len' = len [unfolded k_def]
  let ?rows = "map (\<lambda>y. pack_row has_alpha (row y)) [0..<h]"
  have uni: "\<forall>xs \<in> set ?rows. length xs = 4 * w" using pack_row_spec(1) [OF len'] by simp
  have total: "length (concat ?rows) = 4 * (w * h)"
    using length_concat_uniform [OF uni] by simp
  have px: "concat ?rows ! (4 * (y * w + x) + c) = (if c < k then data ! (y * nat rowstride + k * x + c) else 255)"
    if "y < h" "x < w" "c < 4" for y x c
  proof -
    have eq: "4 * (y * w + x) + c = y * (4 * w) + (4 * x + c)" by (simp add: algebra_simps)
    have "k * x + c < w * k" if "c < k"
    proof -
      have "k * (x + 1) \<le> k * w" using \<open>x < w\<close> by (intro mult_le_mono) auto
      then show ?thesis using that by (simp add: algebra_simps)
    qed
    moreover have "y * nat rowstride + w * k \<le> length data" using acc(2) that(1) by simp
    ultimately have "row y ! (k * x + c) = data ! (y * nat rowstride + k * x + c)" if "c < k"
      using that by (simp add: row_def add.assoc)
    moreover have "concat ?rows ! (4 * (y * w + x) + c) = pack_row has_alpha (row y) ! (4 * x + c)"
      using nth_concat_uniform [OF uni, of y "4 * x + c"] that unfolding eq by simp
    ultimately show ?thesis
      using pack_row_spec(2) [OF len' [OF that(1)] that(2,3)] unfolding k_def [symmetric] by (simp add: Let_def)
  qed
  show ?thesis
    using ok acc(1) total px unfolding ch w_def [symmetric] h_def [symmetric] row_def by simp
qed

lemma pixel_icon_from_wire_repacks_witness:
  "(8 :: int) < 2 ^ 31 \<and> wire_image_ok 2 2 8 False 8 3 [0..<14] \<and>
   (\<exists>icon. pixel_icon_from_wire 2 2 8 False 8 3 [0..<14] = Some (Some icon) \<and> length (pi_rgba icon) = 16 \<and>
      pi_rgba icon ! 12 = 11 \<and> pi_rgba icon ! 15 = 255)"
proof -
  have ok: "wire_image_ok 2 2 8 False 8 3 [0..<14]" by (simp add: wire_image_ok_def)
  from pixel_icon_from_wire_repacks [of 8 2 2 False 8 3 "[0..<14]"] ok
  obtain icon where i: "pixel_icon_from_wire 2 2 8 False 8 3 [0..<14] = Some (Some icon)"
    "length (pi_rgba icon) = 16"
    "\<forall>y < 2. \<forall>x < 2. \<forall>c < 4. pi_rgba icon ! (4 * (y * 2 + x) + c) = (if c < 3 then [0..<14] ! (y * 8 + 3 * x + c) else 255)"
    by auto
  have "pi_rgba icon ! 12 = 11" "pi_rgba icon ! 15 = 255"
    using i(3) [rule_format, of 1 1 0] i(3) [rule_format, of 1 1 3] by simp_all
  then show ?thesis using i ok by auto
qed

text \<open>A clamped string is the longest prefix that fits: the walk back never leaves the string.\<close>

lemma boundary_before_Some:
  "\<exists>e. boundary_before s m = Some e \<and> e \<le> m \<and> is_char_boundary s e \<and> (\<forall>j. e < j \<and> j \<le> m \<longrightarrow> \<not> is_char_boundary s j)"
proof (induction m)
  case (Suc m)
  then show ?case by (auto simp: le_Suc_eq)
qed simp

lemma clamp_text_fits:
  "\<exists>t. clamp_text s m = Some t \<and> ulen t \<le> m \<and> (\<exists>u. s = t @ u) \<and>
     (\<forall>p. (\<exists>u. s = p @ u) \<and> ulen p \<le> m \<longrightarrow> ulen p \<le> ulen t)"
proof (cases "ulen s > m")
  case False
  then show ?thesis by (auto simp: clamp_text_def)
next
  case True
  obtain e where e: "boundary_before s m = Some e" "e \<le> m" "is_char_boundary s e"
    "\<forall>j. e < j \<and> j \<le> m \<longrightarrow> \<not> is_char_boundary s j"
    using boundary_before_Some by blast
  then obtain t u where t: "s = t @ u" "e = ulen t" by (auto simp: boundary_iff)
  have "uslice s 0 e = Some t" using uslice_append3 [of "[]" t u] t by simp
  moreover have "ulen p \<le> e" if "s = p @ v" "ulen p \<le> m" for p v
    using e(4) boundaryI [OF that(1) refl] that(2) by (metis not_le)
  ultimately show ?thesis using True e t by (auto simp: clamp_text_def)
qed

text \<open>What is kept of an icon is never larger than the cap, whatever the scaler returns.\<close>

lemma bounded_pixels_small:
  "pi_width (bounded_pixels thumbnail pix) \<le> MAX_ICON_PX \<and> pi_height (bounded_pixels thumbnail pix) \<le> MAX_ICON_PX"
proof -
  have "a * MAX_ICON_PX div l \<le> MAX_ICON_PX" if "a \<le> l" "0 < l" for a l
  proof -
    have "a * MAX_ICON_PX div l \<le> l * MAX_ICON_PX div l" using that by (intro div_le_mono) simp
    then show ?thesis using that by simp
  qed
  then show ?thesis
    by (auto simp: bounded_pixels_def Let_def MAX_ICON_PX_def)
qed

end
