(* ===== verification/Window_Stack.thy ===== *)
theory Window_Stack
  imports Prelude "HOL-Library.Multiset"
begin

text \<open>
  The stacking order of a workspace's windows, \<open>FloatingSpace\<close> of \<open>src/src/layout/floating.rs\<close> in
  GNOME windowing mode, topmost first: insertion, removal, raising and lowering, transients that
  follow their parents, and the always-on-top band. Positions, sizes and animations are left out.
  A window's parent is the id its toplevel names; an index out of range, a failed \<open>assert!\<close> and an
  \<open>unwrap\<close> on nothing are \<open>None\<close>.
\<close>

section \<open>Vectors\<close>

text \<open>\<open>Vec::remove\<close> and \<open>Vec::insert\<close>, which panic out of range, and \<open>Iterator::position\<close>.\<close>

definition vec_remove :: "nat \<Rightarrow> 'a list \<Rightarrow> ('a \<times> 'a list) option" where
  "vec_remove i xs = (if i < length xs then Some (xs ! i, take i xs @ drop (Suc i) xs) else None)"

definition vec_insert :: "nat \<Rightarrow> 'a \<Rightarrow> 'a list \<Rightarrow> 'a list option" where
  "vec_insert i x xs = (if i \<le> length xs then Some (take i xs @ x # drop i xs) else None)"

fun position :: "('a \<Rightarrow> bool) \<Rightarrow> 'a list \<Rightarrow> nat option" where
  "position P [] = None"
| "position P (x # xs) = (if P x then Some 0 else map_option Suc (position P xs))"

lemma position_Some: "position P xs = Some i \<longleftrightarrow> i < length xs \<and> P (xs ! i) \<and> (\<forall>j < i. \<not> P (xs ! j))"
proof (induction xs arbitrary: i)
  case (Cons x xs)
  show ?case
  proof (cases i)
    case 0
    then show ?thesis by (auto split: if_splits)
  next
    case (Suc k)
    have "(\<forall>j < Suc k. \<not> P ((x # xs) ! j)) \<longleftrightarrow> \<not> P x \<and> (\<forall>j < k. \<not> P (xs ! j))"
      by (auto simp: less_Suc_eq_0_disj)
    then show ?thesis using Cons.IH Suc by auto
  qed
qed simp

lemma position_None: "position P xs = None \<longleftrightarrow> (\<forall>x \<in> set xs. \<not> P x)"
  by (induction xs) auto

lemma vec_remove_Some:
  "vec_remove i xs = Some (x, ys) \<longleftrightarrow> (\<exists>as bs. xs = as @ x # bs \<and> ys = as @ bs \<and> length as = i)"
proof
  assume r: "vec_remove i xs = Some (x, ys)"
  then have i: "i < length xs" by (simp add: vec_remove_def split: if_splits)
  have "xs = take i xs @ xs ! i # drop (Suc i) xs" using i by (rule id_take_nth_drop)
  then show "\<exists>as bs. xs = as @ x # bs \<and> ys = as @ bs \<and> length as = i"
    using r i by (intro exI [of _ "take i xs"] exI [of _ "drop (Suc i) xs"]) (simp add: vec_remove_def)
qed (auto simp: vec_remove_def)

lemma vec_insert_Some:
  "vec_insert i x xs = Some ys \<longleftrightarrow> (\<exists>as bs. xs = as @ bs \<and> ys = as @ x # bs \<and> length as = i)"
proof
  assume r: "vec_insert i x xs = Some ys"
  then have "i \<le> length xs" by (simp add: vec_insert_def split: if_splits)
  then show "\<exists>as bs. xs = as @ bs \<and> ys = as @ x # bs \<and> length as = i"
    using r by (intro exI [of _ "take i xs"] exI [of _ "drop i xs"]) (simp add: vec_insert_def)
qed (auto simp: vec_insert_def)

section \<open>Tiles and the stack\<close>

datatype sizing_mode = SizeNormal | Maximized | Fullscreen

record tile =
  tl_id :: nat
  tl_parent :: "nat option"
  tl_sizing :: sizing_mode
  tl_saved_maximize :: bool
  tl_edge_tiled :: bool
  tl_above :: bool
  tl_sticky :: bool
  tl_sticky_home :: "nat option"

record stack =
  st_tiles :: "tile list"
  st_active :: "nat option"

definition new_stack :: stack where
  "new_stack = \<lparr>st_tiles = [], st_active = None\<rparr>"

definition is_child_of :: "tile \<Rightarrow> tile \<Rightarrow> bool" where
  "is_child_of t p \<longleftrightarrow> tl_parent t = Some (tl_id p)"

definition idx_of :: "nat \<Rightarrow> tile list \<Rightarrow> nat option" where
  "idx_of i ts = position (\<lambda>t. tl_id t = i) ts"

definition active_window :: "stack \<Rightarrow> tile option" where
  "active_window st = (case st_active st of None \<Rightarrow> None | Some i \<Rightarrow> find (\<lambda>t. tl_id t = i) (st_tiles st))"

section \<open>The always-on-top band\<close>

definition tile_is_above :: "tile \<Rightarrow> bool" where
  "tile_is_above t \<longleftrightarrow> tl_above t \<and> tl_sizing t \<noteq> Maximized"

definition parent_idx :: "tile list \<Rightarrow> nat \<Rightarrow> nat option" where
  "parent_idx ts cur = find (\<lambda>i. i \<noteq> cur \<and> is_child_of (ts ! cur) (ts ! i)) [0..<length ts]"

fun in_band_within :: "nat \<Rightarrow> tile list \<Rightarrow> nat \<Rightarrow> bool" where
  "in_band_within 0 ts cur \<longleftrightarrow> False"
| "in_band_within (Suc n) ts cur \<longleftrightarrow>
     tile_is_above (ts ! cur) \<or>
     (case parent_idx ts cur of Some p \<Rightarrow> in_band_within n ts p | None \<Rightarrow> False)"

definition is_in_above_band :: "tile list \<Rightarrow> nat \<Rightarrow> bool" where
  "is_in_above_band ts idx \<longleftrightarrow> in_band_within (length ts) ts idx"

definition band_len :: "tile list \<Rightarrow> nat" where
  "band_len ts = length (takeWhile (is_in_above_band ts) [0..<length ts])"

definition raise_target :: "tile list \<Rightarrow> nat \<Rightarrow> nat" where
  "raise_target ts idx = (if is_in_above_band ts idx then 0 else band_len ts)"

text \<open>A stable sort on not being in the band, skipped where it would move nothing.\<close>

definition already_prefix :: "bool list \<Rightarrow> bool" where
  "already_prefix band \<longleftrightarrow> \<not> (\<exists>i < length band - 1. \<not> band ! i \<and> band ! Suc i)"

definition resettle_band :: "tile list \<Rightarrow> tile list" where
  "resettle_band ts =
     (let band = map (is_in_above_band ts) [0..<length ts] in
      if already_prefix band then ts
      else map ((!) ts) (sort_key (\<lambda>i. if band ! i then 0 else 1 :: nat) [0..<length ts]))"

section \<open>Moving tiles\<close>

definition move_tile :: "nat \<Rightarrow> nat \<Rightarrow> tile list \<Rightarrow> tile list option" where
  "move_tile from to ts =
     (if from = to then Some ts
      else Option.bind (vec_remove from ts) (\<lambda>(t, rest). vec_insert to t rest))"

definition raise_tile :: "nat \<Rightarrow> nat \<Rightarrow> tile list \<Rightarrow> tile list option" where
  "raise_tile from to ts = (if to \<le> from then move_tile from to ts else None)"

text \<open>
  The descendants below, found back to front: a tile is one if its parent is the window or one
  found already. They are then raised front to back, each to just above the ones before it.
\<close>

fun collect_descendants :: "tile list \<Rightarrow> tile \<Rightarrow> nat list \<Rightarrow> nat list \<Rightarrow> nat list" where
  "collect_descendants ts win found [] = found"
| "collect_descendants ts win found (i # is) =
     collect_descendants ts win
       (if is_child_of (ts ! i) win \<or> (\<exists>j \<in> set found. is_child_of (ts ! i) (ts ! j)) then found @ [i] else found) is"

fun raise_each :: "nat list \<Rightarrow> nat \<Rightarrow> tile list \<Rightarrow> tile list option" where
  "raise_each [] idx ts = Some ts"
| "raise_each (d # ds) idx ts = Option.bind (raise_tile d idx ts) (raise_each ds (idx + 1))"

definition bring_up_descendants_of :: "nat \<Rightarrow> tile list \<Rightarrow> tile list option" where
  "bring_up_descendants_of idx ts =
     (if idx < length ts
      then raise_each (rev (collect_descendants ts (ts ! idx) [] (rev [Suc idx..<length ts]))) idx ts
      else None)"

section \<open>Operations\<close>

text \<open>The tile is not inserted below its parent.\<close>

definition above_parent :: "nat \<Rightarrow> tile \<Rightarrow> tile list \<Rightarrow> nat" where
  "above_parent idx t ts = (case position (is_child_of t) (take idx ts) of Some i \<Rightarrow> i | None \<Rightarrow> idx)"

definition add_tile_at :: "nat \<Rightarrow> tile \<Rightarrow> bool \<Rightarrow> stack \<Rightarrow> stack option" where
  "add_tile_at idx t activate st =
     (let ts = st_tiles st;
          active = (if activate \<or> ts = [] then Some (tl_id t) else st_active st);
          i = above_parent idx t ts
      in Option.bind (vec_insert i t ts) (\<lambda>ts1.
         Option.bind (bring_up_descendants_of i ts1) (\<lambda>ts2.
         Some (st\<lparr>st_tiles := ts2, st_active := active\<rparr>))))"

definition add_idx :: "tile \<Rightarrow> bool \<Rightarrow> stack \<Rightarrow> nat" where
  "add_idx t activate st =
     (let ts = st_tiles st;
          idx = (if activate then 0
                 else (case Option.bind (st_active st) (\<lambda>i. idx_of i ts) of Some a \<Rightarrow> a + 1 | None \<Rightarrow> 0))
      in if tile_is_above t then idx else max idx (band_len ts))"

definition stack_add_tile :: "tile \<Rightarrow> bool \<Rightarrow> stack \<Rightarrow> stack option" where
  "stack_add_tile t activate st = add_tile_at (add_idx t activate st) t activate st"

definition add_tile_above :: "nat \<Rightarrow> tile \<Rightarrow> bool \<Rightarrow> stack \<Rightarrow> stack option" where
  "add_tile_above over t activate st =
     Option.bind (idx_of over (st_tiles st)) (\<lambda>idx. add_tile_at idx t activate st)"

definition remove_tile_by_idx :: "nat \<Rightarrow> stack \<Rightarrow> (tile \<times> stack) option" where
  "remove_tile_by_idx idx st =
     map_option (\<lambda>(t, ts). (t, st\<lparr>st_tiles := ts,
       st_active := (if ts = [] then None
                     else if Some (tl_id t) = st_active st then Some (tl_id (hd ts))
                     else st_active st)\<rparr>)) (vec_remove idx (st_tiles st))"

definition stack_remove_tile :: "nat \<Rightarrow> stack \<Rightarrow> (tile \<times> stack) option" where
  "stack_remove_tile i st = Option.bind (idx_of i (st_tiles st)) (\<lambda>idx. remove_tile_by_idx idx st)"

text \<open>\<open>None\<close> inside: there is no active window to remove.\<close>

definition stack_remove_active :: "stack \<Rightarrow> (tile \<times> stack) option option" where
  "stack_remove_active st = (case st_active st of
     None \<Rightarrow> Some None | Some i \<Rightarrow> map_option Some (stack_remove_tile i st))"

text \<open>The operations that answer whether the window was there.\<close>

definition activate_without_raising :: "nat \<Rightarrow> stack \<Rightarrow> stack \<times> bool" where
  "activate_without_raising i st =
     (if idx_of i (st_tiles st) = None then (st, False) else (st\<lparr>st_active := Some i\<rparr>, True))"

definition raise_tiles :: "nat \<Rightarrow> tile list \<Rightarrow> tile list option" where
  "raise_tiles idx ts =
     (let to = raise_target ts idx in Option.bind (raise_tile idx to ts) (bring_up_descendants_of to))"

definition stack_activate :: "nat \<Rightarrow> stack \<Rightarrow> (stack \<times> bool) option" where
  "stack_activate i st = (case idx_of i (st_tiles st) of
       None \<Rightarrow> Some (st, False)
     | Some idx \<Rightarrow> map_option (\<lambda>ts. (st\<lparr>st_tiles := ts, st_active := Some i\<rparr>, True)) (raise_tiles idx (st_tiles st)))"

definition raise_window_only :: "nat \<Rightarrow> stack \<Rightarrow> (stack \<times> bool) option" where
  "raise_window_only i st = (case idx_of i (st_tiles st) of
       None \<Rightarrow> Some (st, False)
     | Some idx \<Rightarrow> map_option (\<lambda>ts. (st\<lparr>st_tiles := ts\<rparr>, True)) (raise_tiles idx (st_tiles st)))"

definition set_above :: "nat \<Rightarrow> bool \<Rightarrow> stack \<Rightarrow> (stack \<times> bool) option" where
  "set_above i on st = (case idx_of i (st_tiles st) of
       None \<Rightarrow> Some (st, False)
     | Some idx \<Rightarrow>
         (let t = st_tiles st ! idx in
          if tl_above t = on then Some (st, False)
          else map_option (\<lambda>(st1, _). (st1, True))
                 (raise_window_only i (st\<lparr>st_tiles := resettle_band ((st_tiles st)[idx := t\<lparr>tl_above := on\<rparr>])\<rparr>))))"

definition lower_window :: "nat \<Rightarrow> stack \<Rightarrow> (stack \<times> bool) option" where
  "lower_window i st = (case idx_of i (st_tiles st) of
       None \<Rightarrow> Some (st, False)
     | Some idx \<Rightarrow>
         (let ts = st_tiles st;
              bottom = (if is_in_above_band ts idx then band_len ts - 1 else length ts - 1)
          in map_option (\<lambda>ts. (st\<lparr>st_tiles := ts\<rparr>, True))
               (Option.bind (move_tile idx bottom ts) (bring_up_descendants_of bottom))))"

text \<open>Whether two tiles overlap on screen is geometry, hence a parameter.\<close>

definition raise_or_lower :: "(nat \<Rightarrow> nat \<Rightarrow> bool) \<Rightarrow> nat \<Rightarrow> stack \<Rightarrow> (stack \<times> bool) option" where
  "raise_or_lower overlaps i st = (case idx_of i (st_tiles st) of
       None \<Rightarrow> Some (st, False)
     | Some idx \<Rightarrow>
         (let ts = st_tiles st; band = is_in_above_band ts idx in
          if idx = 0 then lower_window i st
          else if \<exists>j < idx. is_in_above_band ts j = band \<and> overlaps (tl_id (ts ! j)) i
               then raise_window_only i st else lower_window i st))"

definition descendants_added :: "nat \<Rightarrow> stack \<Rightarrow> (stack \<times> bool) option" where
  "descendants_added i st = (case idx_of i (st_tiles st) of
       None \<Rightarrow> Some (st, False)
     | Some idx \<Rightarrow> map_option (\<lambda>ts. (st\<lparr>st_tiles := ts\<rparr>, True)) (bring_up_descendants_of idx (st_tiles st)))"

definition restore_normal :: "tile \<Rightarrow> tile" where
  "restore_normal t = t\<lparr>tl_sizing := SizeNormal, tl_saved_maximize := False, tl_edge_tiled := False\<rparr>"

definition set_maximized :: "nat \<Rightarrow> bool \<Rightarrow> stack \<Rightarrow> stack \<times> bool" where
  "set_maximized i maximize st = (case idx_of i (st_tiles st) of
       None \<Rightarrow> (st, False)
     | Some idx \<Rightarrow>
         (let t = st_tiles st ! idx; put = (\<lambda>t. (st_tiles st)[idx := t]) in
          if tl_sizing t = Fullscreen
          then (st\<lparr>st_tiles := put (t\<lparr>tl_saved_maximize := maximize\<rparr>)\<rparr>, tl_saved_maximize t \<noteq> maximize)
          else if (tl_sizing t = Maximized) = maximize
          then (if \<not> maximize \<and> tl_edge_tiled t
                then (st\<lparr>st_tiles := put (restore_normal t)\<rparr>, True) else (st, False))
          else (st\<lparr>st_tiles := resettle_band (put (if maximize then t\<lparr>tl_sizing := Maximized, tl_edge_tiled := False\<rparr>
                                                   else restore_normal t))\<rparr>, True)))"

definition set_fullscreen :: "nat \<Rightarrow> bool \<Rightarrow> stack \<Rightarrow> stack \<times> bool" where
  "set_fullscreen i full st = (case idx_of i (st_tiles st) of
       None \<Rightarrow> (st, False)
     | Some idx \<Rightarrow>
         (let t = st_tiles st ! idx in
          if (tl_sizing t = Fullscreen) = full then (st, False)
          else (st\<lparr>st_tiles := resettle_band ((st_tiles st)[idx :=
                  (if full then (if tl_sizing t = Maximized then t\<lparr>tl_sizing := Fullscreen, tl_saved_maximize := True\<rparr>
                                 else t\<lparr>tl_sizing := Fullscreen, tl_edge_tiled := False\<rparr>)
                   else if tl_saved_maximize t then t\<lparr>tl_sizing := Maximized, tl_saved_maximize := False\<rparr>
                   else restore_normal t)])\<rparr>, True)))"

definition stack_advance_animations :: "stack \<Rightarrow> stack" where
  "stack_advance_animations st = st\<lparr>st_tiles := resettle_band (st_tiles st)\<rparr>"

text \<open>\<open>parent_changed\<close>: the client has named another parent for a toplevel, or none.\<close>

definition parent_changed :: "nat \<Rightarrow> nat option \<Rightarrow> stack \<Rightarrow> stack option" where
  "parent_changed c p st =
     (let st1 = st\<lparr>st_tiles := map (\<lambda>t. if tl_id t = c then t\<lparr>tl_parent := p\<rparr> else t) (st_tiles st)\<rparr> in
      case p of None \<Rightarrow> Some st1 | Some q \<Rightarrow> map_option fst (descendants_added q st1))"

section \<open>The order of transients\<close>

text \<open>No tile is below one of its children.\<close>

definition not_over :: "tile \<Rightarrow> tile \<Rightarrow> bool" where
  "not_over a b \<longleftrightarrow> \<not> is_child_of b a"

definition parents :: "tile set \<Rightarrow> (nat \<times> nat) set" where
  "parents S = {(c, p). \<exists>t \<in> S. tl_id t = c \<and> tl_parent t = Some p}"

lemma parents_mono: "S \<subseteq> T \<Longrightarrow> parents S \<subseteq> parents T"
  by (auto simp: parents_def)

lemma parents_child: "is_child_of t p \<Longrightarrow> t \<in> S \<Longrightarrow> (tl_id t, tl_id p) \<in> parents S"
  by (auto simp: parents_def is_child_of_def)

lemma acyclic_no_self: "acyclic (parents S) \<Longrightarrow> t \<in> S \<Longrightarrow> \<not> is_child_of t t"
  using parents_child [of t t S] by (auto simp: acyclic_def)

text \<open>The descendants among the tiles below a window, in closed form.\<close>

fun descendants :: "tile \<Rightarrow> tile list \<Rightarrow> tile set" where
  "descendants win [] = {}"
| "descendants win (t # ts) =
     (if is_child_of t win \<or> (\<exists>d \<in> descendants win ts. is_child_of t d)
      then insert t (descendants win ts) else descendants win ts)"

lemma descendants_subset: "descendants win ts \<subseteq> set ts"
  by (induction ts) auto

lemma descendants_child: "t \<in> set ts \<Longrightarrow> is_child_of t win \<Longrightarrow> t \<in> descendants win ts"
  by (induction ts) auto

lemma descendants_closed:
  "\<lbrakk>sorted_wrt not_over ts; \<forall>t \<in> set ts. \<not> is_child_of t t; d \<in> descendants win ts; x \<in> set ts; is_child_of x d\<rbrakk>
     \<Longrightarrow> x \<in> descendants win ts"
proof (induction ts)
  case (Cons t ts)
  show ?case
  proof (cases "d \<in> descendants win ts")
    case True
    then show ?thesis using Cons by auto
  next
    case False
    then have "d = t" using Cons.prems(3) by (auto split: if_splits)
    then show ?thesis using Cons.prems by (auto simp: not_over_def)
  qed
qed simp

lemma descendants_below:
  "d \<in> descendants win ts \<Longrightarrow> set ts \<subseteq> S \<Longrightarrow> (tl_id d, tl_id win) \<in> (parents S)\<^sup>+"
proof (induction ts arbitrary: d)
  case (Cons t ts)
  from Cons.prems(1) have "d = t \<and> (is_child_of t win \<or> (\<exists>e \<in> descendants win ts. is_child_of t e)) \<or> d \<in> descendants win ts"
    by (auto split: if_splits)
  then show ?case
  proof (elim disjE conjE bexE)
    fix e assume "d = t" "e \<in> descendants win ts" "is_child_of t e"
    then show ?thesis using Cons.IH [of e] Cons.prems(2) parents_child [of t e S] by (auto intro: trancl_into_trancl2)
  qed (use Cons.IH [of d] Cons.prems(2) parents_child [of t win S] in auto)
qed simp

lemma descendants_split:
  assumes "distinct (us @ x # ys)"
  shows "x \<in> descendants win (us @ x # ys) \<longleftrightarrow> is_child_of x win \<or> (\<exists>d \<in> descendants win ys. is_child_of x d)"
    and "y \<in> set ys \<Longrightarrow> y \<in> descendants win (us @ x # ys) \<longleftrightarrow> y \<in> descendants win ys"
  using assms descendants_subset [of win ys] by (induction us) auto

text \<open>The indices of the elements a predicate holds of, counted from a base.\<close>

fun marked :: "nat \<Rightarrow> ('a \<Rightarrow> bool) \<Rightarrow> 'a list \<Rightarrow> nat list" where
  "marked b Q [] = []"
| "marked b Q (x # xs) = (if Q x then b # marked (Suc b) Q xs else marked (Suc b) Q xs)"

lemma marked_append: "marked b Q (xs @ ys) = marked b Q xs @ marked (b + length xs) Q ys"
  by (induction xs arbitrary: b) auto

lemma marked_nth: "set (map ((!) (us @ xs)) (marked (length us) Q xs)) = {x \<in> set xs. Q x}"
proof (induction xs arbitrary: us)
  case (Cons x xs)
  have "marked (Suc (length us)) Q xs = marked (length (us @ [x])) Q xs" by simp
  then show ?case using Cons.IH [of "us @ [x]"] by auto
qed simp

lemma collect_descendants_marked:
  fixes win :: tile
  assumes "distinct (us @ xs @ ys)"
  defines "Q \<equiv> (\<lambda>t. t \<in> descendants win (xs @ ys))"
  shows "collect_descendants (us @ xs @ ys) win (rev (marked (length us + length xs) Q ys)) (rev [length us..<length us + length xs])
    = rev (marked (length us) Q (xs @ ys))"
proof -
  have "collect_descendants (us @ as @ bs @ ys) win (rev (marked (length us + length as) Q (bs @ ys))) (rev [length us..<length us + length as])
    = rev (marked (length us) Q (as @ bs @ ys))" if "xs = as @ bs" for as bs
    using that
  proof (induction as arbitrary: bs rule: rev_induct)
    case (snoc x as)
    let ?b = "length us + length as"
    let ?ts = "us @ (as @ [x]) @ bs @ ys"
    have x: "?ts ! ?b = x" by (simp add: nth_append)
    have d: "distinct (as @ x # bs @ ys)" using assms(1) snoc.prems by simp
    have "set (map ((!) ?ts) (marked (Suc ?b) Q (bs @ ys))) = {t \<in> set (bs @ ys). Q t}"
      using marked_nth [of "us @ as @ [x]" "bs @ ys" Q] by simp
    also have "\<dots> = descendants win (bs @ ys)"
      using descendants_split(2) [OF d] descendants_subset [of win "bs @ ys"] snoc.prems by (auto simp: Q_def)
    finally have found: "(!) ?ts ` set (marked (Suc ?b) Q (bs @ ys)) = descendants win (bs @ ys)" by simp
    have Q: "Q x \<longleftrightarrow> is_child_of x win \<or> (\<exists>j \<in> set (marked (Suc ?b) Q (bs @ ys)). is_child_of x (?ts ! j))"
      using descendants_split(1) [OF d, of win] snoc.prems found [symmetric] by (auto simp: Q_def)
    have "rev [length us..<length us + length (as @ [x])] = ?b # rev [length us..<?b]" by simp
    then have "collect_descendants ?ts win (rev (marked (length us + length (as @ [x])) Q (bs @ ys))) (rev [length us..<length us + length (as @ [x])])
      = collect_descendants ?ts win (rev (marked ?b Q (x # bs @ ys))) (rev [length us..<?b])"
      using Q x by (simp del: upt_Suc)
    also have "\<dots> = rev (marked (length us) Q (as @ x # bs @ ys))"
      using snoc.IH [of "x # bs"] snoc.prems by simp
    finally show ?case by simp
  qed simp
  from this [of xs "[]"] show ?thesis by simp
qed

lemma raise_tile_split: "raise_tile (length as + length bs) (length as) (as @ bs @ x # cs) = Some (as @ x # bs @ cs)"
proof (cases "bs = []")
  case False
  have "vec_remove (length as + length bs) (as @ bs @ x # cs) = Some (x, as @ bs @ cs)"
    unfolding vec_remove_Some by (intro exI [of _ "as @ bs"] exI [of _ cs]) simp
  moreover have "vec_insert (length as) x (as @ bs @ cs) = Some (as @ x # bs @ cs)"
    unfolding vec_insert_Some by (intro exI [of _ as] exI [of _ "bs @ cs"]) simp
  ultimately show ?thesis using False by (simp add: raise_tile_def move_tile_def)
qed (simp add: raise_tile_def move_tile_def)

lemma raise_each_marked:
  "raise_each (marked (length as + length bs) Q xs) (length as) (as @ bs @ xs)
     = Some (as @ filter Q xs @ bs @ filter (\<lambda>x. \<not> Q x) xs)"
proof (induction xs arbitrary: as bs)
  case (Cons x xs)
  show ?case
  proof (cases "Q x")
    case True
    then show ?thesis using Cons.IH [of "as @ [x]" bs] raise_tile_split [of as bs x xs] by simp
  next
    case False
    then show ?thesis using Cons.IH [of as "bs @ [x]"] by simp
  qed
qed simp

text \<open>Bringing up the descendants: those below go over the window, in the order they had.\<close>

lemma bring_up_eq:
  assumes "distinct (pre @ win # rest)"
  defines "D \<equiv> descendants win rest"
  shows "bring_up_descendants_of (length pre) (pre @ win # rest)
    = Some (pre @ filter (\<lambda>t. t \<in> D) rest @ win # filter (\<lambda>t. t \<notin> D) rest)"
proof -
  have "collect_descendants (pre @ win # rest) win [] (rev [Suc (length pre)..<length (pre @ win # rest)])
    = rev (marked (Suc (length pre)) (\<lambda>t. t \<in> D) rest)"
    using collect_descendants_marked [of "pre @ [win]" rest "[]" win] assms by (simp del: upt_Suc)
  then show ?thesis
    using raise_each_marked [of pre "[win]" "\<lambda>t. t \<in> D" rest]
    by (simp add: bring_up_descendants_of_def del: upt_Suc)
qed

lemma sorted_wrt_filter_part:
  "sorted_wrt R xs \<Longrightarrow> (\<And>a b. \<lbrakk>a \<in> set xs; b \<in> set xs; P a; \<not> P b\<rbrakk> \<Longrightarrow> R a b) \<Longrightarrow>
     sorted_wrt R (filter P xs @ filter (\<lambda>x. \<not> P x) xs)"
  by (auto simp: sorted_wrt_append sorted_wrt_filter)

lemma bring_up_order:
  assumes order: "sorted_wrt not_over (pre @ rest)"
    and up: "\<forall>p \<in> set pre. \<not> is_child_of win p"
    and acyc: "acyclic (parents (set (pre @ win # rest)))"
  defines "D \<equiv> descendants win rest"
  shows "sorted_wrt not_over (pre @ filter (\<lambda>t. t \<in> D) rest @ win # filter (\<lambda>t. t \<notin> D) rest)"
proof -
  let ?S = "set (pre @ win # rest)"
  have self: "\<forall>t \<in> ?S. \<not> is_child_of t t" using acyclic_no_self [OF acyc] by blast
  have rest: "sorted_wrt not_over rest" and pre: "sorted_wrt not_over pre"
    and pr: "\<forall>a \<in> set pre. \<forall>b \<in> set rest. not_over a b"
    using order by (auto simp: sorted_wrt_append)
  have closed: "not_over a b" if "a \<in> D" "b \<in> set rest" "b \<notin> D" for a b
    using descendants_closed [OF rest, of a win b] self that by (auto simp: D_def not_over_def)
  have down: "not_over a win" if "a \<in> D" for a
  proof -
    have "(tl_id a, tl_id win) \<in> (parents ?S)\<^sup>+" using that descendants_below [of a win rest ?S] by (auto simp: D_def)
    then have "\<not> is_child_of win a" using acyc parents_child [of win a ?S]
      by (auto simp: acyclic_def dest: trancl_into_trancl2)
    then show ?thesis by (simp add: not_over_def)
  qed
  have "\<forall>b \<in> set (filter (\<lambda>t. t \<notin> D) rest). not_over win b"
    using descendants_child [of _ rest win] by (auto simp: D_def not_over_def)
  then show ?thesis
    using pre rest pr up closed down
    by (auto simp: sorted_wrt_append sorted_wrt_filter not_over_def [of _ win])
qed

section \<open>The band\<close>

text \<open>Membership in the band: flagged and eligible, or the child of a member.\<close>

inductive banded :: "tile set \<Rightarrow> tile \<Rightarrow> bool" for S where
  flagged: "t \<in> S \<Longrightarrow> tile_is_above t \<Longrightarrow> banded S t"
| inherited: "t \<in> S \<Longrightarrow> p \<in> S \<Longrightarrow> is_child_of t p \<Longrightarrow> banded S p \<Longrightarrow> banded S t"

text \<open>A well-ordered stack: distinct ids, no cycle of parents, children over their parents.\<close>

definition tiles_ok :: "tile list \<Rightarrow> bool" where
  "tiles_ok ts \<longleftrightarrow> distinct (map tl_id ts) \<and> acyclic (parents (set ts)) \<and> sorted_wrt not_over ts"

lemma tiles_ok_parts:
  assumes "tiles_ok ts"
  shows "distinct (map tl_id ts)" and "acyclic (parents (set ts))" and "sorted_wrt not_over ts" and "distinct ts"
  using assms by (auto simp: tiles_ok_def distinct_map)

lemma parent_idx_Some:
  assumes "tiles_ok ts" and "i < length ts" and "j < length ts"
  shows "parent_idx ts i = Some j \<longleftrightarrow> is_child_of (ts ! i) (ts ! j)"
proof
  assume "parent_idx ts i = Some j"
  then show "is_child_of (ts ! i) (ts ! j)" by (auto simp: parent_idx_def find_Some_iff)
next
  assume c: "is_child_of (ts ! i) (ts ! j)"
  have "j \<noteq> i" using c acyclic_no_self [OF tiles_ok_parts(2) [OF assms(1)]] assms(2) by auto
  obtain k where k: "parent_idx ts i = Some k"
    using c \<open>j \<noteq> i\<close> assms(3) by (cases "parent_idx ts i") (auto simp: parent_idx_def find_None_iff)
  then have "k < length ts" "is_child_of (ts ! i) (ts ! k)" by (auto simp: parent_idx_def find_Some_iff)
  then have "tl_id (ts ! k) = tl_id (ts ! j)" using c by (simp add: is_child_of_def)
  then have "k = j" using tiles_ok_parts(1) [OF assms(1)] \<open>k < length ts\<close> assms(3)
    by (auto simp: distinct_conv_nth)
  then show "parent_idx ts i = Some j" using k by simp
qed

lemma parent_idx_after:
  assumes "tiles_ok ts" and "i < length ts" and "parent_idx ts i = Some j"
  shows "i < j" and "j < length ts"
proof -
  show j: "j < length ts" using assms(3) by (auto simp: parent_idx_def find_Some_iff)
  have c: "is_child_of (ts ! i) (ts ! j)" and "j \<noteq> i" using assms(3) by (auto simp: parent_idx_def find_Some_iff)
  moreover have "\<not> j < i" using c tiles_ok_parts(3) [OF assms(1)] assms(2)
    by (auto simp: sorted_wrt_iff_nth_less not_over_def)
  ultimately show "i < j" by simp
qed

lemma in_band_within_iff:
  assumes "tiles_ok ts" and "i < length ts" and "length ts \<le> i + n"
  shows "in_band_within n ts i \<longleftrightarrow> banded (set ts) (ts ! i)"
  using assms(2,3)
proof (induction n arbitrary: i)
  case (Suc n)
  show ?case
  proof (cases "parent_idx ts i")
    case None
    have "\<not> is_child_of (ts ! i) p" if "p \<in> set ts" for p
      using that None parent_idx_Some [OF assms(1) Suc.prems(1)] by (auto simp: in_set_conv_nth)
    then show ?thesis using None Suc.prems by (auto intro: banded.flagged elim: banded.cases)
  next
    case (Some j)
    note j = parent_idx_after [OF assms(1) Suc.prems(1) Some]
    have c: "is_child_of (ts ! i) (ts ! j)" using Some parent_idx_Some [OF assms(1) Suc.prems(1) j(2)] by simp
    have IH: "in_band_within n ts j \<longleftrightarrow> banded (set ts) (ts ! j)" using Suc j by simp
    have "banded (set ts) (ts ! j)" if "banded (set ts) (ts ! i)" "\<not> tile_is_above (ts ! i)"
      using that
    proof (cases rule: banded.cases)
      case (inherited p)
      then obtain k where k: "k < length ts" "p = ts ! k" by (auto simp: in_set_conv_nth)
      then have "parent_idx ts i = Some k" using inherited parent_idx_Some [OF assms(1) Suc.prems(1)] by simp
      then show ?thesis using Some k inherited by simp
    qed simp
    then show ?thesis using Some IH c Suc.prems(1) j(2)
      by (auto intro: banded.flagged banded.inherited [of "ts ! i" _ "ts ! j"])
  qed
qed simp

lemma in_band_iff: "tiles_ok ts \<Longrightarrow> i < length ts \<Longrightarrow> is_in_above_band ts i \<longleftrightarrow> banded (set ts) (ts ! i)"
  by (simp add: is_in_above_band_def in_band_within_iff)

text \<open>The band is a prefix of the stack.\<close>

definition band_first :: "tile list \<Rightarrow> bool" where
  "band_first ts \<longleftrightarrow> (\<forall>i j. i < j \<and> j < length ts \<and> is_in_above_band ts j \<longrightarrow> is_in_above_band ts i)"

lemma two_keys_sorted:
  "sorted (map f ys) \<Longrightarrow> \<forall>y \<in> set ys. f y = (0 :: nat) \<or> f y = 1 \<Longrightarrow> ys = filter (\<lambda>y. f y = 0) ys @ filter (\<lambda>y. f y = 1) ys"
proof (induction ys)
  case (Cons y ys)
  have "filter (\<lambda>y. f y = 0) ys = []" if "f y = 1"
    using that Cons.prems by (auto simp: filter_empty_conv)
  then show ?case using Cons by (cases "f y = 0") auto
qed simp

lemma sort_two_keys:
  "sort_key (\<lambda>x. if P x then 0 else 1 :: nat) xs = filter P xs @ filter (\<lambda>x. \<not> P x) xs"
proof -
  let ?f = "\<lambda>x. if P x then 0 else 1 :: nat"
  have "sort_key ?f xs = filter (\<lambda>y. ?f y = 0) (sort_key ?f xs) @ filter (\<lambda>y. ?f y = 1) (sort_key ?f xs)"
    by (rule two_keys_sorted) auto
  also have "\<dots> = filter (\<lambda>y. ?f y = 0) xs @ filter (\<lambda>y. ?f y = 1) xs"
    by (simp only: sort_key_stable)
  finally show ?thesis by (simp cong: filter_cong if_cong)
qed

lemma map_nth_filter: "map ((!) ts) (filter (\<lambda>i. P (ts ! i)) [0..<length ts]) = filter P ts"
proof -
  have "filter P ts = filter P (map ((!) ts) [0..<length ts])" by (simp add: map_nth)
  then show ?thesis by (simp add: filter_map comp_def)
qed

lemma prefix_filter:
  assumes "\<forall>i j. i < j \<and> j < length xs \<and> P (xs ! j) \<longrightarrow> P (xs ! i)"
  shows "filter P xs @ filter (\<lambda>x. \<not> P x) xs = xs"
  using assms
proof (induction xs)
  case (Cons x xs)
  have IH: "filter P xs @ filter (\<lambda>x. \<not> P x) xs = xs"
    using Cons.prems [rule_format, of "Suc i" "Suc j" for i j] by (intro Cons.IH) simp
  show ?case
  proof (cases "P x")
    case True
    then show ?thesis using IH by simp
  next
    case False
    have "\<not> P y" if "y \<in> set xs" for y
      using that False Cons.prems [rule_format, of 0 "Suc k" for k] by (auto simp: in_set_conv_nth)
    then have "filter P xs = []" "filter (\<lambda>x. \<not> P x) xs = xs" by (auto simp: filter_empty_conv filter_id_conv)
    then show ?thesis using False by simp
  qed
qed simp

lemma already_prefix_all:
  assumes "already_prefix band" and "i < j" and "j < length band" and "band ! j"
  shows "band ! i"
  using assms(2-)
proof (induction j)
  case (Suc k)
  have "k < length band - 1" using Suc.prems by simp
  then have "band ! k" using assms(1) Suc.prems unfolding already_prefix_def by blast
  then show ?case using Suc by (cases "i = k") auto
qed simp

lemma resettle_eq:
  assumes "tiles_ok ts"
  shows "resettle_band ts = filter (banded (set ts)) ts @ filter (\<lambda>t. \<not> banded (set ts) t) ts"
proof -
  let ?band = "map (is_in_above_band ts) [0..<length ts]"
  have b: "?band ! i \<longleftrightarrow> banded (set ts) (ts ! i)" if "i < length ts" for i
    using that in_band_iff [OF assms] by simp
  show ?thesis
  proof (cases "already_prefix ?band")
    case True
    have "banded (set ts) (ts ! i)" if "i < j" "j < length ts" "banded (set ts) (ts ! j)" for i j
      using already_prefix_all [OF True, of i j] that b [of i] b [of j] by simp
    then have "filter (banded (set ts)) ts @ filter (\<lambda>t. \<not> banded (set ts) t) ts = ts"
      by (intro prefix_filter) blast
    then show ?thesis using True by (simp add: resettle_band_def Let_def)
  next
    case False
    have "sort_key (\<lambda>i. if ?band ! i then 0 else 1 :: nat) [0..<length ts] =
      filter (\<lambda>i. banded (set ts) (ts ! i)) [0..<length ts] @ filter (\<lambda>i. \<not> banded (set ts) (ts ! i)) [0..<length ts]"
      unfolding sort_two_keys using b by (intro arg_cong2 [of _ _ _ _ "(@)"] filter_cong) auto
    then show ?thesis using False unfolding resettle_band_def Let_def
      using map_nth_filter [of ts "banded (set ts)"] map_nth_filter [of ts "\<lambda>t. \<not> banded (set ts) t"] by simp
  qed
qed

lemma tiles_ok_perm:
  assumes "tiles_ok ts" and "mset us = mset ts" and "sorted_wrt not_over us"
  shows "tiles_ok us"
proof -
  have "mset (map tl_id us) = mset (map tl_id ts)" using assms(2) by simp
  from mset_eq_imp_distinct_iff [OF this] show ?thesis
    using assms mset_eq_setD [OF assms(2)] by (simp add: tiles_ok_def)
qed

lemma filter_part_mset: "mset (filter P xs @ filter (\<lambda>x. \<not> P x) xs) = mset xs"
  by (induction xs) auto

lemma resettle_ok:
  assumes "tiles_ok ts"
  shows "tiles_ok (resettle_band ts)" and "mset (resettle_band ts) = mset ts" and "band_first (resettle_band ts)"
proof -
  let ?B = "banded (set ts)"
  show m: "mset (resettle_band ts) = mset ts"
    unfolding resettle_eq [OF assms] by (rule filter_part_mset)
  have "not_over a b" if "a \<in> set ts" "b \<in> set ts" "?B a" "\<not> ?B b" for a b
    using that banded.inherited [of b "set ts" a] by (auto simp: not_over_def)
  then have "sorted_wrt not_over (resettle_band ts)"
    unfolding resettle_eq [OF assms] by (intro sorted_wrt_filter_part tiles_ok_parts(3) [OF assms]) auto
  then show ok: "tiles_ok (resettle_band ts)" by (rule tiles_ok_perm [OF assms m])
  have S: "set (resettle_band ts) = set ts" by (rule mset_eq_setD [OF m])
  have "?B (resettle_band ts ! i)" if "i < j" "j < length (resettle_band ts)" "?B (resettle_band ts ! j)" for i j
  proof (cases "i < length (filter ?B ts)")
    case True
    then show ?thesis using nth_mem [OF True] unfolding resettle_eq [OF assms] by (simp add: nth_append)
  next
    case False
    then have "j - length (filter ?B ts) < length (filter (\<lambda>t. \<not> ?B t) ts)" "\<not> j < length (filter ?B ts)"
      using that(1,2) unfolding resettle_eq [OF assms] by auto
    then have "\<not> ?B (resettle_band ts ! j)"
      using nth_mem [of "j - length (filter ?B ts)" "filter (\<lambda>t. \<not> ?B t) ts"]
      unfolding resettle_eq [OF assms] by (simp add: nth_append)
    then show ?thesis using that(3) by simp
  qed
  then show "band_first (resettle_band ts)"
    using in_band_iff [OF ok] S by (auto simp: band_first_def)
qed

section \<open>The operations keep the order\<close>

lemma bring_up_ok:
  assumes "distinct (map tl_id (pre @ win # rest))" and "acyclic (parents (set (pre @ win # rest)))"
    and "sorted_wrt not_over (pre @ rest)" and "\<forall>p \<in> set pre. \<not> is_child_of win p"
  shows "\<exists>us. bring_up_descendants_of (length pre) (pre @ win # rest) = Some us \<and> tiles_ok us \<and>
    mset us = mset (pre @ win # rest)"
proof -
  let ?D = "descendants win rest"
  let ?us = "pre @ filter (\<lambda>t. t \<in> ?D) rest @ win # filter (\<lambda>t. t \<notin> ?D) rest"
  have m: "mset ?us = mset (pre @ win # rest)" using filter_part_mset [of "\<lambda>t. t \<in> ?D" rest] by simp
  have d: "distinct (pre @ win # rest)" using assms(1) by (simp only: distinct_map)
  have "mset (map tl_id ?us) = mset (map tl_id (pre @ win # rest))" using m by (simp only: mset_map)
  then have "distinct (map tl_id ?us)" using assms(1) mset_eq_imp_distinct_iff by blast
  then have "tiles_ok ?us"
    using bring_up_order [OF assms(3,4,2)] assms(2) mset_eq_setD [OF m] by (simp add: tiles_ok_def)
  then show ?thesis using bring_up_eq [OF d] m by blast
qed

lemma sorted_wrt_drop_mid: "sorted_wrt R (as @ x # bs) \<Longrightarrow> sorted_wrt R (as @ bs)"
  by (auto simp: sorted_wrt_append)

lemma raise_target_le: "idx < length ts \<Longrightarrow> raise_target ts idx \<le> idx"
proof -
  assume i: "idx < length ts"
  have "length (takeWhile P [0..<n]) \<le> k" if "\<not> P k" "k < n" for P n k
  proof (rule ccontr)
    assume "\<not> length (takeWhile P [0..<n]) \<le> k"
    then have "k < length (takeWhile P [0..<n])" by simp
    then have "P ([0..<n] ! k)" using nth_mem [of k "takeWhile P [0..<n]"] takeWhile_nth [of k P "[0..<n]"]
      by (auto dest: set_takeWhileD)
    then show False using that by simp
  qed
  then show ?thesis using i by (auto simp: raise_target_def band_len_def)
qed

text \<open>A tile taken out and put back at an index where nothing over it is its parent.\<close>

lemma tiles_ok_raise:
  assumes ok: "tiles_ok ts" and i: "idx < length ts" and to: "to \<le> idx"
  shows "\<exists>us. Option.bind (raise_tile idx to ts) (bring_up_descendants_of to) = Some us \<and> tiles_ok us \<and> mset us = mset ts"
proof -
  define as bs cs where "as = take to ts" and "bs = drop to (take idx ts)" and "cs = drop (Suc idx) ts"
  define x where "x = ts ! idx"
  have "take idx ts = as @ bs" using to by (metis append_take_drop_id as_def bs_def min.absorb1 take_take)
  then have ts: "ts = as @ bs @ x # cs" using id_take_nth_drop [OF i] by (simp add: x_def cs_def)
  have len: "length as = to" "length as + length bs = idx" using i to by (auto simp: as_def bs_def)
  have r: "raise_tile idx to ts = Some (as @ x # bs @ cs)"
    using raise_tile_split [of as bs x cs] len ts by simp
  have m: "mset (as @ x # bs @ cs) = mset ts" unfolding ts by simp
  have "mset (map tl_id (as @ x # bs @ cs)) = mset (map tl_id ts)" unfolding ts by simp
  then have "distinct (map tl_id (as @ x # bs @ cs))" using tiles_ok_parts(1) [OF ok] mset_eq_imp_distinct_iff by blast
  moreover have "acyclic (parents (set (as @ x # bs @ cs)))" using tiles_ok_parts(2) [OF ok] mset_eq_setD [OF m] by simp
  moreover have "sorted_wrt not_over (as @ bs @ cs)"
    using sorted_wrt_drop_mid [of not_over "as @ bs" x cs] tiles_ok_parts(3) [OF ok] ts by simp
  moreover have "\<forall>p \<in> set as. \<not> is_child_of x p"
    using tiles_ok_parts(3) [OF ok] unfolding ts by (auto simp: sorted_wrt_append not_over_def)
  ultimately show ?thesis
    using bring_up_ok [of as x "bs @ cs"] m r len(1) by auto
qed

lemma raise_tiles_ok:
  "tiles_ok ts \<Longrightarrow> idx < length ts \<Longrightarrow> \<exists>us. raise_tiles idx ts = Some us \<and> tiles_ok us \<and> mset us = mset ts"
  unfolding raise_tiles_def Let_def by (rule tiles_ok_raise) (simp_all add: raise_target_le)

lemma above_parent_le: "above_parent idx t ts \<le> idx"
  by (auto simp: above_parent_def position_Some split: option.split)

lemma above_parent_over: "p \<in> set (take (above_parent idx t ts) ts) \<Longrightarrow> \<not> is_child_of t p"
proof (cases "position (is_child_of t) (take idx ts)")
  case None
  then show "p \<in> set (take (above_parent idx t ts) ts) \<Longrightarrow> ?thesis"
    by (simp add: above_parent_def position_None)
next
  case (Some i)
  then have "i \<le> idx" "i < length ts" "\<forall>j < i. \<not> is_child_of t (ts ! j)" by (auto simp: position_Some)
  then show "p \<in> set (take (above_parent idx t ts) ts) \<Longrightarrow> ?thesis"
    using Some by (auto simp: above_parent_def in_set_conv_nth)
qed

text \<open>A window that is not there yet, whose parent closes no cycle.\<close>

definition tile_fits :: "tile \<Rightarrow> tile list \<Rightarrow> bool" where
  "tile_fits t ts \<longleftrightarrow> tl_id t \<notin> tl_id ` set ts \<and> acyclic (parents (insert t (set ts)))"

lemma add_tiles_ok:
  assumes ok: "tiles_ok ts" and fits: "tile_fits t ts" and idx: "idx \<le> length ts"
  defines "i \<equiv> above_parent idx t ts"
  shows "\<exists>us vs. vec_insert i t ts = Some vs \<and> bring_up_descendants_of i vs = Some us \<and> tiles_ok us \<and> mset us = add_mset t (mset ts)"
proof -
  have i: "i \<le> length ts" using above_parent_le [of idx t ts] idx by (simp add: i_def)
  have ts: "take i ts @ drop i ts = ts" by simp
  have "distinct (map tl_id (take i ts @ t # drop i ts))"
  proof -
    have "mset (map tl_id (take i ts @ t # drop i ts)) = mset (map tl_id (t # take i ts @ drop i ts))"
      by (simp add: ac_simps del: append_take_drop_id)
    from mset_eq_imp_distinct_iff [OF this]
    have "distinct (map tl_id (take i ts @ t # drop i ts)) \<longleftrightarrow> distinct (map tl_id (t # ts))" unfolding ts .
    then show ?thesis using fits tiles_ok_parts(1) [OF ok] by (simp add: tile_fits_def)
  qed
  moreover have S: "set (take i ts @ t # drop i ts) = insert t (set ts)" by (metis Un_insert_right list.simps(15) set_append ts)
  moreover have "mset (take i ts @ t # drop i ts) = add_mset t (mset ts)"
    using arg_cong [OF ts, of mset] by (simp del: append_take_drop_id)
  ultimately show ?thesis
    using bring_up_ok [of "take i ts" t "drop i ts"] above_parent_over [of _ idx t ts] fits ok i
    by (auto simp: tile_fits_def tiles_ok_def i_def vec_insert_def)
qed

definition stack_ok :: "stack \<Rightarrow> bool" where
  "stack_ok st \<longleftrightarrow> tiles_ok (st_tiles st) \<and> (st_active st = None \<longleftrightarrow> st_tiles st = []) \<and>
     (\<forall>i. st_active st = Some i \<longrightarrow> i \<in> tl_id ` set (st_tiles st))"

lemma stack_ok_new: "stack_ok new_stack"
  by (simp add: stack_ok_def new_stack_def tiles_ok_def parents_def acyclic_def)

lemma idx_of_Some: "idx_of i ts = Some k \<Longrightarrow> k < length ts \<and> tl_id (ts ! k) = i"
  by (simp add: idx_of_def position_Some)

lemma idx_of_None: "idx_of i ts = None \<longleftrightarrow> i \<notin> tl_id ` set ts"
  by (auto simp: idx_of_def position_None)

text \<open>New tiles that are the old ones in another order.\<close>

lemma stack_ok_perm:
  assumes "stack_ok st" and "tiles_ok us" and "mset us = mset (st_tiles st)" and "a = st_active st \<or> (\<exists>i \<in> tl_id ` set us. a = Some i)"
  shows "stack_ok (st\<lparr>st_tiles := us, st_active := a\<rparr>)"
proof -
  have S: "set us = set (st_tiles st)" by (rule mset_eq_setD [OF assms(3)])
  moreover have "us = [] \<longleftrightarrow> st_tiles st = []" using assms(3) by auto
  ultimately show ?thesis using assms(1,2,4) by (auto simp: stack_ok_def)
qed

lemma stack_ok_perm_same:
  "stack_ok st \<Longrightarrow> tiles_ok us \<Longrightarrow> mset us = mset (st_tiles st) \<Longrightarrow> stack_ok (st\<lparr>st_tiles := us\<rparr>)"
  using stack_ok_perm [of st us "st_active st"] by (simp add: stack_ok_def)

text \<open>Tiles changed in place, their ids and parents kept.\<close>

lemma tiles_ok_same:
  assumes ok: "tiles_ok ts" and same: "map (\<lambda>t. (tl_id t, tl_parent t)) us = map (\<lambda>t. (tl_id t, tl_parent t)) ts"
  shows "tiles_ok us"
proof -
  have len: "length us = length ts" using arg_cong [OF same, of length] by simp
  have nth: "tl_id (us ! i) = tl_id (ts ! i)" "tl_parent (us ! i) = tl_parent (ts ! i)" if "i < length ts" for i
    using that len arg_cong [OF same, of "\<lambda>xs. xs ! i"] by simp_all
  have "map tl_id us = map tl_id ts" using nth len by (intro nth_equalityI) auto
  moreover have "parents (set us) = parents (set ts)"
    using nth len by (fastforce simp: parents_def in_set_conv_nth)
  moreover have "sorted_wrt not_over us"
    using tiles_ok_parts(3) [OF ok] nth len by (simp add: sorted_wrt_iff_nth_less not_over_def is_child_of_def)
  ultimately show ?thesis using ok by (simp add: tiles_ok_def)
qed

lemma stack_ok_update:
  assumes ok: "stack_ok st" and i: "idx < length (st_tiles st)"
    and t: "tl_id t = tl_id (st_tiles st ! idx)" "tl_parent t = tl_parent (st_tiles st ! idx)"
  shows "stack_ok (st\<lparr>st_tiles := (st_tiles st)[idx := t]\<rparr>)"
proof -
  have ids: "map tl_id ((st_tiles st)[idx := t]) = map tl_id (st_tiles st)"
    using i t by (simp add: map_update list_update_same_conv)
  have "tiles_ok ((st_tiles st)[idx := t])"
    by (rule tiles_ok_same [of "st_tiles st"])
      (use ok i t in \<open>auto simp: stack_ok_def map_update list_update_same_conv\<close>)
  then show ?thesis using ok arg_cong [OF ids, of set] by (auto simp: stack_ok_def)
qed

lemma stack_ok_resettle: "stack_ok st \<Longrightarrow> stack_ok (st\<lparr>st_tiles := resettle_band (st_tiles st)\<rparr>)"
  by (rule stack_ok_perm_same) (auto simp: stack_ok_def resettle_ok)

lemma stack_ok_resettled:
  assumes "stack_ok st" and "idx < length (st_tiles st)"
    and "tl_id t = tl_id (st_tiles st ! idx)" and "tl_parent t = tl_parent (st_tiles st ! idx)"
  shows "stack_ok (st\<lparr>st_tiles := resettle_band ((st_tiles st)[idx := t])\<rparr>)"
  using stack_ok_resettle [OF stack_ok_update [OF assms]] by simp

lemma add_idx_le: "add_idx t activate st \<le> length (st_tiles st)"
proof -
  have "band_len (st_tiles st) \<le> length (st_tiles st)"
    unfolding band_len_def using length_takeWhile_le [of "is_in_above_band (st_tiles st)" "[0..<length (st_tiles st)]"] by simp
  moreover have "a < length (st_tiles st)" if "idx_of i (st_tiles st) = Some a" for a i
    using idx_of_Some [OF that] by simp
  ultimately show ?thesis
    by (auto simp: add_idx_def Let_def Suc_le_eq bind_eq_Some_conv split: option.split)
qed

lemma add_tile_at_ok:
  assumes ok: "stack_ok st" and fits: "tile_fits t (st_tiles st)" and idx: "idx \<le> length (st_tiles st)"
  shows "\<exists>st'. add_tile_at idx t activate st = Some st' \<and> stack_ok st' \<and> mset (st_tiles st') = add_mset t (mset (st_tiles st))"
proof -
  obtain us vs where u: "vec_insert (above_parent idx t (st_tiles st)) t (st_tiles st) = Some vs"
    "bring_up_descendants_of (above_parent idx t (st_tiles st)) vs = Some us" "tiles_ok us" "mset us = add_mset t (mset (st_tiles st))"
    using add_tiles_ok [of "st_tiles st" t idx] ok fits idx by (auto simp: stack_ok_def)
  have "set us = insert t (set (st_tiles st))" using arg_cong [OF u(4), of set_mset] by simp
  then show ?thesis using u ok by (auto simp: add_tile_at_def Let_def stack_ok_def)
qed

lemma stack_add_ok:
  "stack_ok st \<Longrightarrow> tile_fits t (st_tiles st) \<Longrightarrow>
     \<exists>st'. stack_add_tile t activate st = Some st' \<and> stack_ok st' \<and> mset (st_tiles st') = add_mset t (mset (st_tiles st))"
  unfolding stack_add_tile_def by (rule add_tile_at_ok) (simp_all add: add_idx_le)

lemma add_above_ok:
  assumes "stack_ok st" and "tile_fits t (st_tiles st)" and "i \<in> tl_id ` set (st_tiles st)"
  shows "\<exists>st'. add_tile_above i t activate st = Some st' \<and> stack_ok st' \<and> mset (st_tiles st') = add_mset t (mset (st_tiles st))"
proof -
  obtain idx where "idx_of i (st_tiles st) = Some idx" using assms(3) idx_of_None [of i "st_tiles st"] by auto
  then show ?thesis using add_tile_at_ok [OF assms(1,2), of idx] idx_of_Some [of i "st_tiles st" idx]
    by (auto simp: add_tile_above_def)
qed

lemma stack_remove_ok:
  assumes ok: "stack_ok st" and i: "i \<in> tl_id ` set (st_tiles st)"
  shows "\<exists>t st'. stack_remove_tile i st = Some (t, st') \<and> stack_ok st' \<and> tl_id t = i \<and>
    mset (st_tiles st) = add_mset t (mset (st_tiles st'))"
proof -
  obtain idx where idx: "idx_of i (st_tiles st) = Some idx" using i idx_of_None [of i "st_tiles st"] by auto
  note k = idx_of_Some [OF idx]
  define as bs x where "as = take idx (st_tiles st)" and "bs = drop (Suc idx) (st_tiles st)" and "x = st_tiles st ! idx"
  have ts: "st_tiles st = as @ x # bs" using id_take_nth_drop [of idx "st_tiles st"] k by (simp add: as_def bs_def x_def)
  have r: "vec_remove idx (st_tiles st) = Some (x, as @ bs)" using k by (simp add: vec_remove_def as_def bs_def x_def)
  have "parents (set (as @ bs)) \<subseteq> parents (set (st_tiles st))" unfolding ts by (intro parents_mono) auto
  then have "tiles_ok (as @ bs)" using ok acyclic_subset
    unfolding stack_ok_def tiles_ok_def ts by (auto dest: sorted_wrt_drop_mid)
  moreover define a where "a = (if as @ bs = [] then None else if Some (tl_id x) = st_active st then Some (tl_id (hd (as @ bs)))
    else st_active st)"
  moreover have "j \<in> tl_id ` set (as @ bs)" if j: "a = Some j" for j
  proof (cases "as @ bs = [] \<or> Some (tl_id x) = st_active st")
    case True
    then have "as @ bs \<noteq> []" "j = tl_id (hd (as @ bs))" using j unfolding a_def by (auto split: if_splits)
    then show ?thesis using hd_in_set [of "as @ bs"] by simp
  next
    case False
    then have "st_active st = Some j" "j \<noteq> tl_id x" using j by (simp_all add: a_def split: if_splits)
    then show ?thesis using ok ts by (auto simp: stack_ok_def)
  qed
  moreover have "a = None \<longleftrightarrow> as @ bs = []" using ok ts by (auto simp: a_def stack_ok_def)
  ultimately have "stack_ok (st\<lparr>st_tiles := as @ bs, st_active := a\<rparr>)" by (simp add: stack_ok_def)
  moreover have "stack_remove_tile i st = Some (x, st\<lparr>st_tiles := as @ bs, st_active := a\<rparr>)"
    using r idx by (simp add: stack_remove_tile_def remove_tile_by_idx_def a_def)
  moreover have "tl_id x = i" using k by (simp add: x_def)
  moreover have "mset (st_tiles st) = add_mset x (mset (as @ bs))" unfolding ts by simp
  ultimately show ?thesis by fastforce
qed

lemma stack_activate_ok:
  assumes "stack_ok st"
  shows "\<exists>st' b. stack_activate i st = Some (st', b) \<and> stack_ok st' \<and> mset (st_tiles st') = mset (st_tiles st)"
proof (cases "idx_of i (st_tiles st)")
  case (Some idx)
  then obtain us where "raise_tiles idx (st_tiles st) = Some us" "tiles_ok us" "mset us = mset (st_tiles st)"
    using raise_tiles_ok [of "st_tiles st" idx] idx_of_Some [OF Some] assms by (auto simp: stack_ok_def)
  moreover have "i \<in> tl_id ` set us" using idx_of_Some [OF Some] mset_eq_setD [OF calculation(3)] by (auto intro: rev_image_eqI)
  ultimately show ?thesis using Some assms stack_ok_perm [of st us "Some i"] by (auto simp: stack_activate_def)
qed (use assms in \<open>auto simp: stack_activate_def\<close>)

lemma raise_only_ok:
  assumes "stack_ok st"
  shows "\<exists>st' b. raise_window_only i st = Some (st', b) \<and> stack_ok st' \<and> mset (st_tiles st') = mset (st_tiles st)"
proof (cases "idx_of i (st_tiles st)")
  case (Some idx)
  then obtain us where "raise_tiles idx (st_tiles st) = Some us" "tiles_ok us" "mset us = mset (st_tiles st)"
    using raise_tiles_ok [of "st_tiles st" idx] idx_of_Some [OF Some] assms by (auto simp: stack_ok_def)
  then show ?thesis using Some assms stack_ok_perm_same [of st us] by (auto simp: raise_window_only_def)
qed (use assms in \<open>auto simp: raise_window_only_def\<close>)

lemma move_to_ok:
  assumes ok: "tiles_ok ts" and idx: "idx < length ts" and to: "to < length ts"
    and no_parent: "\<forall>p \<in> set ts. \<not> is_child_of (ts ! idx) p"
  shows "\<exists>us. Option.bind (move_tile idx to ts) (bring_up_descendants_of to) = Some us \<and> tiles_ok us \<and> mset us = mset ts"
proof -
  define as bs x where "as = take idx ts" and "bs = drop (Suc idx) ts" and "x = ts ! idx"
  have ts: "ts = as @ x # bs" using id_take_nth_drop [OF idx] by (simp add: as_def bs_def x_def)
  define cs ds where "cs = take to (as @ bs)" and "ds = drop to (as @ bs)"
  have cd: "cs @ ds = as @ bs" by (simp only: cs_def ds_def append_take_drop_id)
  have len: "length cs = to" using to arg_cong [OF ts, of length] by (simp add: cs_def)
  have mv: "move_tile idx to ts = Some (cs @ x # ds)"
  proof (cases "idx = to")
    case True
    then have "cs = as" "ds = bs" using len cd idx by (auto simp: as_def append_eq_append_conv)
    then show ?thesis using True ts by (simp add: move_tile_def)
  next
    case False
    have "vec_remove idx ts = Some (x, as @ bs)" using idx by (simp add: vec_remove_def as_def bs_def x_def)
    moreover have "to \<le> length (as @ bs)" using len cd by (metis length_append le_add1)
    ultimately show ?thesis using False by (simp add: move_tile_def vec_insert_def cs_def ds_def)
  qed
  have m: "mset (cs @ x # ds) = mset ts"
    using arg_cong [OF cd, of mset] unfolding ts by simp
  have "distinct (map tl_id (cs @ x # ds))"
    using mset_eq_imp_distinct_iff [of "map tl_id (cs @ x # ds)" "map tl_id ts"] m tiles_ok_parts(1) [OF ok]
    by (simp only: mset_map)
  moreover have "acyclic (parents (set (cs @ x # ds)))" using tiles_ok_parts(2) [OF ok] mset_eq_setD [OF m] by simp
  moreover have "sorted_wrt not_over (cs @ ds)"
    using tiles_ok_parts(3) [OF ok] unfolding cd ts by (rule sorted_wrt_drop_mid)
  moreover have "\<forall>p \<in> set cs. \<not> is_child_of x p" using no_parent mset_eq_setD [OF m] by (auto simp: x_def)
  ultimately show ?thesis using bring_up_ok [of cs x ds] mv len m by auto
qed

text \<open>No tile of the stack is the window's parent.\<close>

definition no_parent_here :: "nat \<Rightarrow> stack \<Rightarrow> bool" where
  "no_parent_here i st \<longleftrightarrow> (\<forall>t \<in> set (st_tiles st). \<forall>p \<in> set (st_tiles st). tl_id t = i \<longrightarrow> \<not> is_child_of t p)"

lemma lower_ok:
  assumes ok: "stack_ok st" and np: "no_parent_here i st"
  shows "\<exists>st' b. lower_window i st = Some (st', b) \<and> stack_ok st' \<and> mset (st_tiles st') = mset (st_tiles st)"
proof (cases "idx_of i (st_tiles st)")
  case (Some idx)
  let ?ts = "st_tiles st"
  define bottom where "bottom = (if is_in_above_band ?ts idx then band_len ?ts - 1 else length ?ts - 1)"
  note k = idx_of_Some [OF Some]
  have "band_len ?ts \<le> length ?ts"
    unfolding band_len_def using length_takeWhile_le [of "is_in_above_band ?ts" "[0..<length ?ts]"] by simp
  then have "bottom < length ?ts" using k by (auto simp: bottom_def)
  then obtain us where u: "Option.bind (move_tile idx bottom ?ts) (bring_up_descendants_of bottom) = Some us"
    "tiles_ok us" "mset us = mset ?ts"
    using move_to_ok [of ?ts idx bottom] k ok np by (auto simp: stack_ok_def no_parent_here_def)
  then show ?thesis using Some stack_ok_perm_same [OF ok u(2,3)]
    by (auto simp: lower_window_def Let_def bottom_def)
qed (use ok in \<open>auto simp: lower_window_def\<close>)

lemma raise_or_lower_ok:
  assumes "stack_ok st" and "no_parent_here i st"
  shows "\<exists>st' b. raise_or_lower overlaps i st = Some (st', b) \<and> stack_ok st' \<and> mset (st_tiles st') = mset (st_tiles st)"
  using lower_ok [OF assms] raise_only_ok [OF assms(1), of i] assms(1)
  by (auto simp: raise_or_lower_def Let_def split: option.split)

lemma mset_update_same_ids:
  "idx < length ts \<Longrightarrow> tl_id t = tl_id (ts ! idx) \<Longrightarrow> map tl_id (ts[idx := t]) = map tl_id ts"
  by (simp add: map_update list_update_same_conv)

lemma image_mset_resettle: "tiles_ok ts \<Longrightarrow> image_mset tl_id (mset (resettle_band ts)) = image_mset tl_id (mset ts)"
  by (simp add: resettle_ok)

text \<open>An update in place followed by a resettle keeps the windows.\<close>

lemma resettled_ids:
  assumes "stack_ok st" and "idx < length (st_tiles st)"
    and "tl_id t = tl_id (st_tiles st ! idx)" and "tl_parent t = tl_parent (st_tiles st ! idx)"
  shows "mset (map tl_id (resettle_band ((st_tiles st)[idx := t]))) = mset (map tl_id (st_tiles st))"
proof -
  have "tiles_ok ((st_tiles st)[idx := t])" using stack_ok_update [OF assms] by (simp add: stack_ok_def)
  then have "mset (map tl_id (resettle_band ((st_tiles st)[idx := t]))) = mset (map tl_id ((st_tiles st)[idx := t]))"
    by (simp add: resettle_ok)
  then show ?thesis using mset_update_same_ids [OF assms(2,3)] by simp
qed

lemma set_above_ok:
  assumes ok: "stack_ok st"
  shows "\<exists>st' b. set_above i on st = Some (st', b) \<and> stack_ok st' \<and>
    mset (map tl_id (st_tiles st')) = mset (map tl_id (st_tiles st))"
proof (cases "idx_of i (st_tiles st)")
  case (Some idx)
  let ?t = "(st_tiles st ! idx)\<lparr>tl_above := on\<rparr>"
  let ?st = "st\<lparr>st_tiles := resettle_band ((st_tiles st)[idx := ?t])\<rparr>"
  note k = idx_of_Some [OF Some]
  have "stack_ok ?st" by (rule stack_ok_resettled [OF ok]) (use k in simp_all)
  moreover have "mset (map tl_id (st_tiles ?st)) = mset (map tl_id (st_tiles st))"
    using resettled_ids [OF ok, of idx ?t] k by simp
  ultimately show ?thesis using Some ok raise_only_ok [of ?st i]
    by (auto simp: set_above_def Let_def)
qed (use ok in \<open>auto simp: set_above_def\<close>)

lemma descendants_added_ok:
  assumes ok: "stack_ok st"
  shows "\<exists>st' b. descendants_added i st = Some (st', b) \<and> stack_ok st' \<and> mset (st_tiles st') = mset (st_tiles st)"
proof (cases "idx_of i (st_tiles st)")
  case (Some idx)
  note k = idx_of_Some [OF Some]
  define as bs x where "as = take idx (st_tiles st)" and "bs = drop (Suc idx) (st_tiles st)" and "x = st_tiles st ! idx"
  have ts: "st_tiles st = as @ x # bs" using id_take_nth_drop [of idx "st_tiles st"] k by (simp add: as_def bs_def x_def)
  have len: "length as = idx" using k by (simp add: as_def)
  have t: "tiles_ok (as @ x # bs)" using ok unfolding stack_ok_def ts by simp
  note p = tiles_ok_parts [OF t]
  obtain us where "bring_up_descendants_of idx (st_tiles st) = Some us" "tiles_ok us" "mset us = mset (st_tiles st)"
    using bring_up_ok [OF p(1,2) sorted_wrt_drop_mid [OF p(3)]] p(3) len ts
    by (auto simp: sorted_wrt_append not_over_def)
  then show ?thesis using Some stack_ok_perm_same [OF ok, of us] by (auto simp: descendants_added_def)
qed (use ok in \<open>auto simp: descendants_added_def\<close>)

lemma set_maximized_ok:
  assumes ok: "stack_ok st"
  shows "stack_ok (fst (set_maximized i maximize st)) \<and>
    mset (map tl_id (st_tiles (fst (set_maximized i maximize st)))) = mset (map tl_id (st_tiles st))"
proof (cases "idx_of i (st_tiles st)")
  case (Some idx)
  note k = idx_of_Some [OF Some]
  have u: "stack_ok (st\<lparr>st_tiles := (st_tiles st)[idx := t]\<rparr>) \<and>
      mset (map tl_id ((st_tiles st)[idx := t])) = mset (map tl_id (st_tiles st)) \<and>
      stack_ok (st\<lparr>st_tiles := resettle_band ((st_tiles st)[idx := t])\<rparr>) \<and>
      mset (map tl_id (resettle_band ((st_tiles st)[idx := t]))) = mset (map tl_id (st_tiles st))"
    if "tl_id t = tl_id (st_tiles st ! idx)" "tl_parent t = tl_parent (st_tiles st ! idx)" for t
    using stack_ok_update [OF ok _ that] stack_ok_resettled [OF ok _ that] resettled_ids [OF ok _ that] k
      mset_update_same_ids [OF _ that(1)] by simp
  show ?thesis using Some ok
    by (auto simp: set_maximized_def Let_def restore_normal_def intro!: u [THEN conjunct1]
        u [THEN conjunct2, THEN conjunct2, THEN conjunct1]
        u [THEN conjunct2, THEN conjunct1, unfolded mset_map] u [THEN conjunct2, THEN conjunct2, THEN conjunct2, unfolded mset_map])
qed (use ok in \<open>auto simp: set_maximized_def\<close>)

lemma set_fullscreen_ok:
  assumes ok: "stack_ok st"
  shows "stack_ok (fst (set_fullscreen i full st)) \<and>
    mset (map tl_id (st_tiles (fst (set_fullscreen i full st)))) = mset (map tl_id (st_tiles st))"
proof (cases "idx_of i (st_tiles st)")
  case (Some idx)
  note k = idx_of_Some [OF Some]
  have u: "stack_ok (st\<lparr>st_tiles := resettle_band ((st_tiles st)[idx := t])\<rparr>)"
    "mset (map tl_id (resettle_band ((st_tiles st)[idx := t]))) = mset (map tl_id (st_tiles st))"
    if "tl_id t = tl_id (st_tiles st ! idx)" "tl_parent t = tl_parent (st_tiles st ! idx)" for t
    using stack_ok_resettled [OF ok _ that] resettled_ids [OF ok _ that] k by simp_all
  show ?thesis using Some ok
    by (auto simp: set_fullscreen_def Let_def restore_normal_def intro!: u(1) u(2) [unfolded mset_map])
qed (use ok in \<open>auto simp: set_fullscreen_def\<close>)
section \<open>A toplevel gets another parent\<close>

definition set_parent :: "nat \<Rightarrow> nat option \<Rightarrow> tile \<Rightarrow> tile" where
  "set_parent c p t = (if tl_id t = c then t\<lparr>tl_parent := p\<rparr> else t)"

lemma set_parent_eq: "(\<lambda>t. if tl_id t = c then t\<lparr>tl_parent := p\<rparr> else t) = set_parent c p"
  by (rule ext) (simp add: set_parent_def)

lemma tl_id_set_parent [simp]: "tl_id (set_parent c p t) = tl_id t"
  by (simp add: set_parent_def)

lemma not_over_set_parent:
  "not_over a b \<Longrightarrow> p \<noteq> Some (tl_id a) \<Longrightarrow> not_over (set_parent c p a) (set_parent c p b)"
  by (auto simp: not_over_def is_child_of_def set_parent_def)

lemma sorted_set_parent:
  assumes "sorted_wrt not_over ts" and "\<forall>t \<in> set ts. p \<noteq> Some (tl_id t)"
  shows "sorted_wrt not_over (map (set_parent c p) ts)"
  using assms by (induction ts) (auto simp: not_over_set_parent)

lemma idx_of_split:
  assumes d: "distinct (map tl_id (as @ x # bs))"
  shows "idx_of (tl_id x) (as @ x # bs) = Some (length as)"
proof (cases "idx_of (tl_id x) (as @ x # bs)")
  case None
  then show ?thesis unfolding idx_of_None by simp
next
  case (Some k)
  let ?ids = "map tl_id (as @ x # bs)"
  have k: "k < length ?ids" "?ids ! k = tl_id x" using idx_of_Some [OF Some] by (simp_all only: length_map nth_map)
  have l: "length as < length ?ids" "?ids ! length as = tl_id x" by (simp_all add: nth_append)
  have "k = length as" using nth_eq_iff_index_eq [OF d k(1) l(1)] k(2) l(2) by simp
  then show ?thesis using Some by simp
qed

lemma parent_changed_ok:
  assumes ok: "stack_ok st" and acyc: "acyclic (parents (set_parent c p ` set (st_tiles st)))"
  shows "\<exists>st'. parent_changed c p st = Some st' \<and> stack_ok st' \<and>
    mset (map tl_id (st_tiles st')) = mset (map tl_id (st_tiles st))"
proof -
  let ?us = "map (set_parent c p) (st_tiles st)"
  have t: "tiles_ok (st_tiles st)" using ok by (simp add: stack_ok_def)
  have ids: "map tl_id ?us = map tl_id (st_tiles st)" by (simp add: comp_def)
  have d: "distinct (map tl_id ?us)" using tiles_ok_parts(1) [OF t] unfolding ids .
  have pc: "parent_changed c p st = (case p of None \<Rightarrow> Some (st\<lparr>st_tiles := ?us\<rparr>)
      | Some q \<Rightarrow> map_option fst (descendants_added q (st\<lparr>st_tiles := ?us\<rparr>)))"
    unfolding parent_changed_def Let_def set_parent_eq by (rule refl)
  have st: "stack_ok (st\<lparr>st_tiles := vs\<rparr>)" if "tiles_ok vs" "mset (map tl_id vs) = mset (map tl_id (st_tiles st))" for vs
    using ok that mset_eq_setD [OF that(2)] by (auto simp: stack_ok_def)
  show ?thesis
  proof (cases "\<exists>q. p = Some q \<and> q \<in> tl_id ` set (st_tiles st)")
    case False
    then have "sorted_wrt not_over ?us"
      using tiles_ok_parts(3) [OF t] by (intro sorted_set_parent) auto
    then have "tiles_ok ?us" using d acyc by (simp add: tiles_ok_def)
    moreover have "tl_id ` set ?us = tl_id ` set (st_tiles st)" by (simp add: image_image)
    then have "idx_of q ?us = None" if "p = Some q" for q using False that unfolding idx_of_None by blast
    moreover have "mset (map tl_id ?us) = mset (map tl_id (st_tiles st))" unfolding ids ..
    ultimately have "parent_changed c p st = Some (st\<lparr>st_tiles := ?us\<rparr>) \<and> stack_ok (st\<lparr>st_tiles := ?us\<rparr>) \<and>
        mset (map tl_id (st_tiles (st\<lparr>st_tiles := ?us\<rparr>))) = mset (map tl_id (st_tiles st))"
      using st [of ?us] pc by (cases p) (simp_all add: descendants_added_def)
    then show ?thesis by blast
  next
    case True
    then obtain q where q: "p = Some q" "q \<in> tl_id ` set (st_tiles st)" by auto
    then obtain as x bs where ts: "st_tiles st = as @ x # bs" and x: "tl_id x = q" by (auto dest: split_list)
    let ?f = "set_parent c p"
    have others: "q \<notin> tl_id ` set (as @ bs)" using tiles_ok_parts(1) [OF t] x unfolding ts by auto
    have "sorted_wrt not_over (map ?f (as @ bs))"
      using sorted_wrt_drop_mid [of not_over as x bs] tiles_ok_parts(3) [OF t] others q(1) unfolding ts
      by (intro sorted_set_parent) auto
    moreover have "\<forall>y \<in> set (map ?f as). \<not> is_child_of (?f x) y"
    proof
      fix y assume "y \<in> set (map ?f as)"
      then obtain z where z: "z \<in> set as" "y = ?f z" by auto
      then have "not_over z x" using tiles_ok_parts(3) [OF t] unfolding ts by (auto simp: sorted_wrt_append)
      then have "not_over y (?f x)" unfolding z(2) using others z(1) q(1) by (intro not_over_set_parent) auto
      then show "\<not> is_child_of (?f x) y" by (simp add: not_over_def)
    qed
    ultimately obtain us where us: "bring_up_descendants_of (length (map ?f as)) (map ?f as @ ?f x # map ?f bs) = Some us"
      "tiles_ok us" "mset us = mset (map ?f as @ ?f x # map ?f bs)"
      using bring_up_ok [of "map ?f as" "?f x" "map ?f bs"] d acyc unfolding ts by (auto simp: image_Un)
    have "idx_of q ?us = Some (length as)" using idx_of_split [of "map ?f as" "?f x" "map ?f bs"] d x by (simp add: ts)
    moreover have "mset us = mset ?us" using us(3) unfolding ts by simp
    then have "mset (map tl_id us) = mset (map tl_id ?us)" by (simp only: mset_map)
    then have "mset (map tl_id us) = mset (map tl_id (st_tiles st))" unfolding ids .
    ultimately show ?thesis using us st [of us] pc q(1) by (simp add: descendants_added_def ts)
  qed
qed

section \<open>The stack as a machine\<close>

datatype stack_op =
    OpAdd tile bool
  | OpAddAbove nat tile bool
  | OpRemove nat
  | OpRemoveActive
  | OpActivate nat
  | OpActivateOnly nat
  | OpRaise nat
  | OpSetAbove nat bool
  | OpLower nat
  | OpRaiseOrLower nat
  | OpDescendantsAdded nat
  | OpMaximize nat bool
  | OpFullscreen nat bool
  | OpParentChanged nat "nat option"
  | OpFrame

fun stack_step :: "(nat \<Rightarrow> nat \<Rightarrow> bool) \<Rightarrow> stack_op \<Rightarrow> stack \<Rightarrow> stack option" where
  "stack_step overlaps (OpAdd t activate) st = stack_add_tile t activate st"
| "stack_step overlaps (OpAddAbove i t activate) st = add_tile_above i t activate st"
| "stack_step overlaps (OpRemove i) st = map_option snd (stack_remove_tile i st)"
| "stack_step overlaps OpRemoveActive st = map_option (\<lambda>r. case r of None \<Rightarrow> st | Some (_, st1) \<Rightarrow> st1) (stack_remove_active st)"
| "stack_step overlaps (OpActivate i) st = map_option fst (stack_activate i st)"
| "stack_step overlaps (OpActivateOnly i) st = Some (fst (activate_without_raising i st))"
| "stack_step overlaps (OpRaise i) st = map_option fst (raise_window_only i st)"
| "stack_step overlaps (OpSetAbove i on) st = map_option fst (set_above i on st)"
| "stack_step overlaps (OpLower i) st = map_option fst (lower_window i st)"
| "stack_step overlaps (OpRaiseOrLower i) st = map_option fst (raise_or_lower overlaps i st)"
| "stack_step overlaps (OpDescendantsAdded i) st = map_option fst (descendants_added i st)"
| "stack_step overlaps (OpMaximize i on) st = Some (fst (set_maximized i on st))"
| "stack_step overlaps (OpFullscreen i on) st = Some (fst (set_fullscreen i on st))"
| "stack_step overlaps (OpParentChanged c p) st = parent_changed c p st"
| "stack_step overlaps OpFrame st = Some (stack_advance_animations st)"

text \<open>What the callers see to: a window is added once and removed while it is there, the parents
  clients name form no cycle, and a window is only lowered when its parent is elsewhere.\<close>

fun stack_op_fits :: "stack_op \<Rightarrow> stack \<Rightarrow> bool" where
  "stack_op_fits (OpAdd t activate) st = tile_fits t (st_tiles st)"
| "stack_op_fits (OpAddAbove i t activate) st = (tile_fits t (st_tiles st) \<and> i \<in> tl_id ` set (st_tiles st))"
| "stack_op_fits (OpRemove i) st = (i \<in> tl_id ` set (st_tiles st))"
| "stack_op_fits (OpLower i) st = no_parent_here i st"
| "stack_op_fits (OpRaiseOrLower i) st = no_parent_here i st"
| "stack_op_fits (OpParentChanged c p) st = acyclic (parents (set_parent c p ` set (st_tiles st)))"
| "stack_op_fits _ st = True"

lemma frame_ok:
  assumes "stack_ok st"
  shows "stack_ok (stack_advance_animations st)"
  using stack_ok_resettle [OF assms] by (simp add: stack_advance_animations_def)

lemma stack_step_ok:
  assumes ok: "stack_ok st" and fits: "stack_op_fits x st"
  shows "\<exists>st'. stack_step overlaps x st = Some st' \<and> stack_ok st'"
proof (cases x)
  case (OpAdd t a) then show ?thesis using stack_add_ok [OF ok, of t a] fits by auto
next
  case (OpAddAbove i t a) then show ?thesis using add_above_ok [OF ok, of t i a] fits by auto
next
  case (OpRemove i) then show ?thesis using stack_remove_ok [OF ok, of i] fits by auto
next
  case OpRemoveActive
  show ?thesis
  proof (cases "st_active st")
    case (Some i)
    then have "i \<in> tl_id ` set (st_tiles st)" using ok by (auto simp: stack_ok_def)
    then show ?thesis using stack_remove_ok [OF ok] Some OpRemoveActive by (fastforce simp: stack_remove_active_def)
  qed (simp add: OpRemoveActive stack_remove_active_def ok)
next
  case (OpActivate i) then show ?thesis using stack_activate_ok [OF ok, of i] by auto
next
  case (OpActivateOnly i) then show ?thesis using ok
    by (auto simp: activate_without_raising_def stack_ok_def idx_of_None)
next
  case (OpRaise i) then show ?thesis using raise_only_ok [OF ok, of i] by auto
next
  case (OpSetAbove i on) then show ?thesis using set_above_ok [OF ok, of i on] by auto
next
  case (OpLower i) then show ?thesis using lower_ok [OF ok, of i] fits by auto
next
  case (OpRaiseOrLower i) then show ?thesis using raise_or_lower_ok [OF ok, of i overlaps] fits by auto
next
  case (OpDescendantsAdded i) then show ?thesis using descendants_added_ok [OF ok, of i] by auto
next
  case (OpParentChanged c p) then show ?thesis using parent_changed_ok [OF ok, of c p] fits by auto
qed (use ok in \<open>simp_all add: set_maximized_ok set_fullscreen_ok frame_ok\<close>)

abbreviation stack_run :: "(nat \<Rightarrow> nat \<Rightarrow> bool) \<Rightarrow> stack_op list \<Rightarrow> stack \<Rightarrow> stack option" where
  "stack_run overlaps \<equiv> guarded_run (stack_step overlaps)"

abbreviation stack_fits :: "(nat \<Rightarrow> nat \<Rightarrow> bool) \<Rightarrow> stack_op list \<Rightarrow> stack \<Rightarrow> bool" where
  "stack_fits overlaps \<equiv> guarded_fits (stack_step overlaps) stack_op_fits"

interpretation window_stack: guarded_machine "stack_step overlaps" stack_op_fits stack_ok for overlaps
  by unfold_locales (rule stack_step_ok)

text \<open>Where a child stands in a stack that is in order, and where the active window is.\<close>

lemma stack_ok_child_above:
  assumes ok: "stack_ok st" and i: "i < length (st_tiles st)" and j: "j < length (st_tiles st)"
    and ch: "is_child_of (st_tiles st ! i) (st_tiles st ! j)"
  shows "i < j"
proof -
  have t: "tiles_ok (st_tiles st)" using ok by (simp add: stack_ok_def)
  have "i \<noteq> j" using acyclic_no_self [OF tiles_ok_parts(2) [OF t]] i ch by auto
  moreover have "\<not> j < i" using tiles_ok_parts(3) [OF t] i ch sorted_wrt_nth_less [of not_over "st_tiles st" j i]
    by (auto simp: not_over_def)
  ultimately show ?thesis by simp
qed

text \<open> C35. From an empty stack, any sequence of adds, removals, activations, raises, lowerings, sizing
  changes, parent changes and frames that respects \<^const>\<open>stack_op_fits\<close> runs without an index panic. In the
  stack it ends in no two tiles have the same window, every window is above its parent, the active
  window is a window of the stack, and there is one exactly when there is a window; and once the next
  frame has been drawn the always-on-top windows and their transients are above all others.\<close>

theorem stack_keeps_transients_above:
  assumes "stack_fits overlaps xs new_stack"
  shows "\<exists>st. stack_run overlaps xs new_stack = Some st \<and>
    distinct (map tl_id (st_tiles st)) \<and>
    (\<forall>i < length (st_tiles st). \<forall>j < length (st_tiles st). is_child_of (st_tiles st ! i) (st_tiles st ! j) \<longrightarrow> i < j) \<and>
    (case st_active st of None \<Rightarrow> st_tiles st = [] | Some a \<Rightarrow> a \<in> tl_id ` set (st_tiles st)) \<and>
    band_first (st_tiles (stack_advance_animations st))"
proof -
  obtain st where r: "stack_run overlaps xs new_stack = Some st" and ok: "stack_ok st"
    using window_stack.guarded_run_ok [OF stack_ok_new assms] by blast
  have "band_first (st_tiles (stack_advance_animations st))"
    using ok by (simp add: stack_advance_animations_def stack_ok_def resettle_ok)
  then show ?thesis using r ok stack_ok_child_above [OF ok] tiles_ok_parts(1) [of "st_tiles st"]
    by (auto simp: stack_ok_def split: option.split)
qed

text \<open>A dialog (3) of a window (2), and a window (4) kept on top.\<close>

definition plain_tile :: "nat \<Rightarrow> nat option \<Rightarrow> tile" where
  "plain_tile i p = \<lparr>tl_id = i, tl_parent = p, tl_sizing = SizeNormal, tl_saved_maximize = False, tl_edge_tiled = False,
     tl_above = False, tl_sticky = False, tl_sticky_home = None\<rparr>"

definition dialog_ops :: "stack_op list" where
  "dialog_ops = [OpAdd (plain_tile 2 None) True, OpAdd (plain_tile 3 (Some 2)) True, OpAdd (plain_tile 4 None) True,
     OpSetAbove 4 True, OpActivate 2, OpLower 4]"

lemma parents_empty: "parents {} = {}"
  by (simp add: parents_def)

lemma parents_insert:
  "parents (insert t S) = (case tl_parent t of None \<Rightarrow> parents S | Some p \<Rightarrow> insert (tl_id t, p) (parents S))"
  by (auto simp: parents_def split: option.split)

lemma acyclic_downward:
  assumes "\<forall>(c, p) \<in> R. p < (c :: nat)"
  shows "acyclic R"
proof -
  have "R\<inverse> \<subseteq> less_than" using assms by auto
  then have "acyclic (R\<inverse>)" using wf_acyclic [OF wf_less_than] acyclic_subset by blast
  then show ?thesis by simp
qed

lemma dialog_steps:
  "stack_step (\<lambda>_ _. False) (OpAdd (plain_tile 2 None) True) new_stack =
     Some \<lparr>st_tiles = [plain_tile 2 None], st_active = Some 2\<rparr>"
  "stack_step (\<lambda>_ _. False) (OpAdd (plain_tile 3 (Some 2)) True) \<lparr>st_tiles = [plain_tile 2 None], st_active = Some 2\<rparr> =
     Some \<lparr>st_tiles = [plain_tile 3 (Some 2), plain_tile 2 None], st_active = Some 3\<rparr>"
  "stack_step (\<lambda>_ _. False) (OpAdd (plain_tile 4 None) True)
       \<lparr>st_tiles = [plain_tile 3 (Some 2), plain_tile 2 None], st_active = Some 3\<rparr> =
     Some \<lparr>st_tiles = [plain_tile 4 None, plain_tile 3 (Some 2), plain_tile 2 None], st_active = Some 4\<rparr>"
  "stack_step (\<lambda>_ _. False) (OpSetAbove 4 True)
       \<lparr>st_tiles = [plain_tile 4 None, plain_tile 3 (Some 2), plain_tile 2 None], st_active = Some 4\<rparr> =
     Some \<lparr>st_tiles = [(plain_tile 4 None)\<lparr>tl_above := True\<rparr>, plain_tile 3 (Some 2), plain_tile 2 None], st_active = Some 4\<rparr>"
  "stack_step (\<lambda>_ _. False) (OpActivate 2)
       \<lparr>st_tiles = [(plain_tile 4 None)\<lparr>tl_above := True\<rparr>, plain_tile 3 (Some 2), plain_tile 2 None], st_active = Some 4\<rparr> =
     Some \<lparr>st_tiles = [(plain_tile 4 None)\<lparr>tl_above := True\<rparr>, plain_tile 3 (Some 2), plain_tile 2 None], st_active = Some 2\<rparr>"
  "stack_step (\<lambda>_ _. False) (OpLower 4)
       \<lparr>st_tiles = [(plain_tile 4 None)\<lparr>tl_above := True\<rparr>, plain_tile 3 (Some 2), plain_tile 2 None], st_active = Some 2\<rparr> =
     Some \<lparr>st_tiles = [(plain_tile 4 None)\<lparr>tl_above := True\<rparr>, plain_tile 3 (Some 2), plain_tile 2 None], st_active = Some 2\<rparr>"
  by code_simp+

lemma dialog_ops_fit: "stack_fits (\<lambda>_ _. False) dialog_ops new_stack"
  unfolding dialog_ops_def
  by (simp add: dialog_steps del: stack_step.simps)
    (simp add: new_stack_def plain_tile_def tile_fits_def parents_insert parents_empty acyclic_downward
      no_parent_here_def is_child_of_def)

theorem stack_keeps_transients_above_witness:
  "stack_fits (\<lambda>_ _. False) dialog_ops new_stack \<and> (\<exists>st. stack_run (\<lambda>_ _. False) dialog_ops new_stack = Some st \<and>
     map tl_id (st_tiles st) = [4, 3, 2] \<and> (\<forall>i < length (st_tiles st). \<forall>j < length (st_tiles st). is_child_of (st_tiles st ! i) (st_tiles st ! j) \<longrightarrow> i < j) \<and>
     band_first (st_tiles (stack_advance_animations st)))"
proof -
  have "map_option (\<lambda>st. map tl_id (st_tiles st)) (stack_run (\<lambda>_ _. False) dialog_ops new_stack) = Some [4, 3, 2]"
    unfolding dialog_ops_def by (simp add: dialog_steps del: stack_step.simps) (simp add: plain_tile_def)
  then obtain st where st: "stack_run (\<lambda>_ _. False) dialog_ops new_stack = Some st" "map tl_id (st_tiles st) = [4, 3, 2]"
    unfolding map_option_eq_Some by (elim exE conjE)
  from stack_keeps_transients_above [OF dialog_ops_fit]
  obtain st1 where "stack_run (\<lambda>_ _. False) dialog_ops new_stack = Some st1"
    "\<forall>i < length (st_tiles st1). \<forall>j < length (st_tiles st1). is_child_of (st_tiles st1 ! i) (st_tiles st1 ! j) \<longrightarrow> i < j"
    "band_first (st_tiles (stack_advance_animations st1))" by (elim exE conjE)
  moreover from this(1) st(1) have "st1 = st" by (simp only: option.inject)
  ultimately show ?thesis
    by (intro conjI exI [of _ st]) (use st dialog_ops_fit in \<open>simp_all only: simp_thms\<close>)
qed


end
