(* ===== verification/Workspaces.thy ===== *)
theory Workspaces
  imports Window_Stack Session_Store
begin

text \<open>
  A workspace, \<open>Workspace\<close> of \<open>src/src/layout/workspace.rs\<close>, in GNOME windowing mode: its stack of
  windows, the minimized ones, its name, and the display it belongs to. In this mode every window is
  in the stack, so the scrolling half is empty and is left out. An output stands for itself by its
  identity. What a workspace tells its windows (outputs entered and left, the minimized state) and
  the overview's picker are left out.
\<close>

section \<open>State\<close>

datatype floating_active = ActiveNo | ActiveNoButRaised | ActiveYes

datatype activate_window = ActYes | ActSmart | ActNo

definition map_smart :: "activate_window \<Rightarrow> bool \<Rightarrow> bool" where
  "map_smart a smart = (case a of ActYes \<Rightarrow> True | ActSmart \<Rightarrow> smart | ActNo \<Rightarrow> False)"

record workspace =
  ws_id :: nat
  ws_name :: "ustr option"
  ws_floating :: stack
  ws_floating_is_active :: floating_active
  ws_minimized :: "tile list"
  ws_home :: output_identity
  ws_home_ordinal :: nat
  ws_claimed :: bool
  ws_output :: "output_identity option"

definition new_workspace :: "output_identity \<Rightarrow> nat \<Rightarrow> workspace" where
  "new_workspace out i = \<lparr>ws_id = i, ws_name = None, ws_floating = new_stack, ws_floating_is_active = ActiveNo,
     ws_minimized = [], ws_home = out, ws_home_ordinal = 0, ws_claimed = False, ws_output = Some out\<rparr>"

text \<open>A workspace of the configuration, with the connector it opens on, made while no display is there.\<close>

definition new_workspace_no_outputs :: "(ustr \<times> ustr option) option \<Rightarrow> nat \<Rightarrow> workspace" where
  "new_workspace_no_outputs config i =
     \<lparr>ws_id = i, ws_name = map_option fst config, ws_floating = new_stack, ws_floating_is_active = ActiveNo,
      ws_minimized = [],
      ws_home = from_connector (case config of Some (_, Some c) \<Rightarrow> c | _ \<Rightarrow> []),
      ws_home_ordinal = 0, ws_claimed = False, ws_output = None\<rparr>"

section \<open>Questions\<close>

definition ws_tiles :: "workspace \<Rightarrow> tile list" where
  "ws_tiles ws = st_tiles (ws_floating ws) @ ws_minimized ws"

definition has_windows :: "workspace \<Rightarrow> bool" where
  "has_windows ws \<longleftrightarrow> ws_tiles ws \<noteq> []"

definition has_windows_or_name :: "workspace \<Rightarrow> bool" where
  "has_windows_or_name ws \<longleftrightarrow> has_windows ws \<or> ws_name ws \<noteq> None"

definition is_minimized :: "nat \<Rightarrow> workspace \<Rightarrow> bool" where
  "is_minimized i ws \<longleftrightarrow> (\<exists>t \<in> set (ws_minimized ws). tl_id t = i)"

definition has_window :: "nat \<Rightarrow> workspace \<Rightarrow> bool" where
  "has_window i ws \<longleftrightarrow> (\<exists>t \<in> set (st_tiles (ws_floating ws)). tl_id t = i)"

definition holds_window :: "nat \<Rightarrow> workspace \<Rightarrow> bool" where
  "holds_window i ws \<longleftrightarrow> (\<exists>t \<in> set (ws_tiles ws). tl_id t = i)"

datatype win_home = HomeFloating | HomeMinimized

definition home_of :: "nat \<Rightarrow> workspace \<Rightarrow> win_home option" where
  "home_of i ws = (if has_window i ws then Some HomeFloating else if is_minimized i ws then Some HomeMinimized else None)"

definition ws_active_window :: "workspace \<Rightarrow> tile option" where
  "ws_active_window ws = (if ws_floating_is_active ws = ActiveYes then active_window (ws_floating ws) else None)"

section \<open>The display it belongs to\<close>

definition adopt_home :: "output_identity \<Rightarrow> workspace \<Rightarrow> workspace" where
  "adopt_home out ws =
     (if oi_connector (ws_home ws) = [] \<or> identity_matches (ws_home ws) out then ws\<lparr>ws_home := out\<rparr> else ws)"

definition unname :: "workspace \<Rightarrow> workspace" where
  "unname ws = ws\<lparr>ws_name := None\<rparr>"

definition set_output :: "output_identity option \<Rightarrow> workspace \<Rightarrow> workspace" where
  "set_output out ws =
     (if ws_output ws = out then ws
      else (let ws1 = ws\<lparr>ws_output := out\<rparr> in
        case out of
          None \<Rightarrow> ws1
        | Some o1 \<Rightarrow> if identity_matches (ws_home ws1) o1 then ws1\<lparr>ws_home := o1\<rparr> else ws1))"

section \<open>Windows\<close>

datatype add_target = ToAuto | ToNewColumn | ToNextTo nat

text \<open>A window named as neighbour counts only while it is laid out. \<open>NextTo\<close> with a smart activation
  unwraps the active window.\<close>

definition ws_add_tile :: "tile \<Rightarrow> add_target \<Rightarrow> activate_window \<Rightarrow> workspace \<Rightarrow> workspace option" where
  "ws_add_tile t target activate ws =
     (case (case target of ToNextTo n \<Rightarrow> if home_of n ws = Some HomeFloating then target else ToAuto | _ \<Rightarrow> target) of
        ToAuto \<Rightarrow>
          map_option (\<lambda>fl. ws\<lparr>ws_floating := fl, ws_floating_is_active := ActiveYes\<rparr>)
            (stack_add_tile t (map_smart activate True) (ws_floating ws))
      | ToNewColumn \<Rightarrow>
          map_option (\<lambda>fl. ws\<lparr>ws_floating := fl, ws_floating_is_active :=
              (if map_smart activate False then ActiveYes else ws_floating_is_active ws)\<rparr>)
            (stack_add_tile t (map_smart activate False) (ws_floating ws))
      | ToNextTo n \<Rightarrow>
          (if activate = ActSmart \<and> ws_active_window ws = None then None
           else map_option (\<lambda>fl. ws\<lparr>ws_floating := fl, ws_floating_is_active := ActiveYes\<rparr>)
             (add_tile_above n t (map_smart activate (map_option tl_id (ws_active_window ws) = Some n)) (ws_floating ws))))"

definition update_focus_after_removing :: "workspace \<Rightarrow> workspace" where
  "update_focus_after_removing ws =
     (if st_tiles (ws_floating ws) = [] then ws\<lparr>ws_floating_is_active := ActiveNo\<rparr> else ws)"

definition ws_remove_tile :: "nat \<Rightarrow> workspace \<Rightarrow> (tile \<times> workspace) option" where
  "ws_remove_tile i ws = (case idx_of i (ws_minimized ws) of
       Some idx \<Rightarrow> map_option (\<lambda>(t, rest). (t, ws\<lparr>ws_minimized := rest\<rparr>)) (vec_remove idx (ws_minimized ws))
     | None \<Rightarrow>
         map_option (\<lambda>(t, fl). (t, update_focus_after_removing (ws\<lparr>ws_floating := fl\<rparr>)))
           (stack_remove_tile i (ws_floating ws)))"

text \<open>\<open>Some None\<close>: no window is active.\<close>

definition ws_remove_active_tile :: "workspace \<Rightarrow> (tile \<times> workspace) option option" where
  "ws_remove_active_tile ws =
     (if ws_floating_is_active ws = ActiveYes
      then map_option (map_option (\<lambda>(t, fl). (t, update_focus_after_removing (ws\<lparr>ws_floating := fl\<rparr>))))
             (stack_remove_active (ws_floating ws))
      else Some None)"

definition ws_minimize :: "nat \<Rightarrow> workspace \<Rightarrow> (workspace \<times> bool) option" where
  "ws_minimize i ws =
     (if is_minimized i ws \<or> home_of i ws \<noteq> Some HomeFloating then Some (ws, False)
      else map_option (\<lambda>(t, ws1). (ws1\<lparr>ws_minimized := ws_minimized ws1 @ [t]\<rparr>, True)) (ws_remove_tile i ws))"

definition ws_unminimize :: "nat \<Rightarrow> activate_window \<Rightarrow> workspace \<Rightarrow> (workspace \<times> bool) option" where
  "ws_unminimize i activate ws = (case idx_of i (ws_minimized ws) of
       None \<Rightarrow> Some (ws, False)
     | Some idx \<Rightarrow>
         Option.bind (vec_remove idx (ws_minimized ws)) (\<lambda>(t, rest).
           map_option (\<lambda>ws1. (ws1, True)) (ws_add_tile t ToAuto activate (ws\<lparr>ws_minimized := rest\<rparr>))))"

definition ws_activate_window :: "nat \<Rightarrow> workspace \<Rightarrow> (workspace \<times> bool) option" where
  "ws_activate_window i ws =
     Option.bind (ws_unminimize i ActYes ws) (\<lambda>(ws1, _).
       map_option (\<lambda>(fl, found). if found then (ws1\<lparr>ws_floating := fl, ws_floating_is_active := ActiveYes\<rparr>, True)
                                 else (ws1\<lparr>ws_floating := fl\<rparr>, False))
         (stack_activate i (ws_floating ws1)))"

definition ws_activate_without_raising :: "nat \<Rightarrow> workspace \<Rightarrow> (workspace \<times> bool) option" where
  "ws_activate_without_raising i ws =
     map_option (\<lambda>(ws1, _).
       (let (fl, found) = activate_without_raising i (ws_floating ws1) in
        if found then (ws1\<lparr>ws_floating := fl, ws_floating_is_active := ActiveYes\<rparr>, True)
        else (ws1\<lparr>ws_floating := fl\<rparr>, False)))
       (ws_unminimize i ActNo ws)"

section \<open>Windows on every workspace\<close>

definition sticky_home :: "nat \<Rightarrow> workspace \<Rightarrow> nat option" where
  "sticky_home i ws = Option.bind (find (\<lambda>t. tl_id t = i) (ws_tiles ws)) tl_sticky_home"

definition put_sticky :: "nat \<Rightarrow> bool \<Rightarrow> tile \<Rightarrow> tile" where
  "put_sticky home on t = t\<lparr>tl_sticky := on, tl_sticky_home := (if on then Some home else tl_sticky_home t)\<rparr>"

definition set_sticky :: "nat \<Rightarrow> bool \<Rightarrow> workspace \<Rightarrow> workspace \<times> bool" where
  "set_sticky i on ws = (case find (\<lambda>t. tl_id t = i) (ws_tiles ws) of
       None \<Rightarrow> (ws, False)
     | Some t \<Rightarrow>
         (if tl_sticky t = on then (ws, False)
          else (let upd = update_first (\<lambda>t. tl_id t = i) (put_sticky (ws_id ws) on) in
                if has_window i ws
                then (ws\<lparr>ws_floating := (ws_floating ws)\<lparr>st_tiles := upd (st_tiles (ws_floating ws))\<rparr>\<rparr>, True)
                else (ws\<lparr>ws_minimized := upd (ws_minimized ws)\<rparr>, True))))"

text \<open>Flagged, or descended from a flagged window of the workspace.\<close>

fun sticky_within :: "nat \<Rightarrow> tile list \<Rightarrow> nat \<Rightarrow> bool" where
  "sticky_within 0 ts cur \<longleftrightarrow> False"
| "sticky_within (Suc n) ts cur \<longleftrightarrow>
     tl_sticky (ts ! cur) \<or> (case parent_idx ts cur of Some p \<Rightarrow> sticky_within n ts p | None \<Rightarrow> False)"

definition sticky_window_ids :: "workspace \<Rightarrow> nat list" where
  "sticky_window_ids ws =
     (let ts = ws_tiles ws in
      map (\<lambda>idx. tl_id (ts ! idx))
        (filter (\<lambda>idx. sticky_within (length ts) ts idx \<and> has_window (tl_id (ts ! idx)) ws) [0..<length ts]))"

section \<open>Invariant\<close>

text \<open>What a window is to the order of the stack: its id and its parent.\<close>

definition wkey :: "tile \<Rightarrow> nat \<times> nat option" where
  "wkey t = (tl_id t, tl_parent t)"

definition wins_ok :: "(nat \<times> nat option) list \<Rightarrow> bool" where
  "wins_ok ks \<longleftrightarrow> distinct (map fst ks) \<and> acyclic {(c, p). (c, Some p) \<in> set ks}"

lemma fst_wkey [simp]: "fst (wkey t) = tl_id t" "fst \<circ> wkey = tl_id"
  by (auto simp: wkey_def)

lemma parents_wkey: "parents S = {(c, p). (c, Some p) \<in> wkey ` S}"
  by (force simp: parents_def wkey_def)

lemma wins_ok_mset:
  assumes "mset ks = mset ls"
  shows "wins_ok ks = wins_ok ls"
proof -
  have "mset (map fst ks) = mset (map fst ls)" using assms by simp
  from mset_eq_imp_distinct_iff [OF this] mset_eq_setD [OF assms] show ?thesis by (simp add: wins_ok_def)
qed

lemma wins_ok_sub:
  assumes "wins_ok (ks @ ls)" shows "wins_ok ks"
proof -
  have "{(c, p). (c, Some p) \<in> set ks} \<subseteq> {(c, p). (c, Some p) \<in> set (ks @ ls)}" by auto
  then show ?thesis using assms acyclic_subset by (auto simp: wins_ok_def)
qed

lemma wins_ok_subset_mset: "wins_ok ls \<Longrightarrow> mset ks \<subseteq># mset ls \<Longrightarrow> wins_ok ks"
proof -
  assume ok: "wins_ok ls" and sub: "mset ks \<subseteq># mset ls"
  from sub obtain M where "mset ls = mset ks + M" by (auto simp: subset_mset.le_iff_add)
  moreover obtain ms where "M = mset ms" using ex_mset by metis
  ultimately have "mset ls = mset (ks @ ms)" by simp
  then show "wins_ok ks" using wins_ok_mset [of ls "ks @ ms"] ok wins_ok_sub by blast
qed

lemma tile_fits_wins:
  assumes "wins_ok (map wkey (t # us))" and "set ts \<subseteq> set us"
  shows "tile_fits t ts"
proof -
  have "parents (insert t (set ts)) \<subseteq> {(c, p). (c, Some p) \<in> set (map wkey (t # us))}"
    using assms(2) by (auto simp: parents_wkey)
  then have "acyclic (parents (insert t (set ts)))"
    using assms(1) acyclic_subset by (auto simp: wins_ok_def)
  then show ?thesis using assms by (auto simp: tile_fits_def wins_ok_def)
qed

definition ws_ok :: "workspace \<Rightarrow> bool" where
  "ws_ok ws \<longleftrightarrow> stack_ok (ws_floating ws) \<and>
     (ws_floating_is_active ws = ActiveYes \<longleftrightarrow> st_tiles (ws_floating ws) \<noteq> [])"

text \<open>Everything but the windows.\<close>

definition ws_meta :: "workspace \<Rightarrow> nat \<times> ustr option \<times> output_identity \<times> nat \<times> bool \<times> output_identity option" where
  "ws_meta ws = (ws_id ws, ws_name ws, ws_home ws, ws_home_ordinal ws, ws_claimed ws, ws_output ws)"

lemma ws_ok_new [simp]: "ws_ok (new_workspace out i)" "ws_ok (new_workspace_no_outputs c i)"
  by (simp_all add: ws_ok_def new_workspace_def new_workspace_no_outputs_def stack_ok_new) (simp_all add: new_stack_def)

lemma ws_tiles_new [simp]: "ws_tiles (new_workspace out i) = []" "ws_tiles (new_workspace_no_outputs c i) = []"
  by (simp_all add: ws_tiles_def new_workspace_def new_workspace_no_outputs_def new_stack_def)

lemma stack_ok_active:
  assumes "stack_ok st" and "st_tiles st \<noteq> []"
  shows "\<exists>t. active_window st = Some t \<and> t \<in> set (st_tiles st)"
proof -
  obtain i where i: "st_active st = Some i" "i \<in> tl_id ` set (st_tiles st)"
    using assms by (auto simp: stack_ok_def)
  then obtain t where "find (\<lambda>t. tl_id t = i) (st_tiles st) = Some t"
    by (cases "find (\<lambda>t. tl_id t = i) (st_tiles st)") (auto simp: find_None_iff)
  then show ?thesis using i by (auto simp: active_window_def find_Some_iff)
qed

section \<open>What the operations keep\<close>

lemma ws_add_ok:
  assumes ok: "ws_ok ws" and wins: "wins_ok (map wkey (t # ws_tiles ws))"
    and col: "target = ToNewColumn \<Longrightarrow> activate = ActYes"
  shows "\<exists>fl. ws_add_tile t target activate ws = Some (ws\<lparr>ws_floating := fl, ws_floating_is_active := ActiveYes\<rparr>) \<and>
    stack_ok fl \<and> mset (st_tiles fl) = add_mset t (mset (st_tiles (ws_floating ws)))"
proof -
  let ?fl = "ws_floating ws"
  have st: "stack_ok ?fl" using ok by (simp add: ws_ok_def)
  have fits: "tile_fits t (st_tiles ?fl)"
    by (rule tile_fits_wins [OF wins]) (simp add: ws_tiles_def)
  note add = stack_add_ok [OF st fits]
  have auto: ?thesis if "target = ToAuto \<or> (\<exists>n. target = ToNextTo n \<and> home_of n ws \<noteq> Some HomeFloating)"
    using that add [of "map_smart activate True"] by (auto simp: ws_add_tile_def)
  show ?thesis
  proof (cases target)
    case ToNewColumn
    then show ?thesis using col add [of True] by (auto simp: ws_add_tile_def map_smart_def)
  next
    case (ToNextTo n)
    show ?thesis
    proof (cases "home_of n ws = Some HomeFloating")
      case True
      then have n: "n \<in> tl_id ` set (st_tiles ?fl)" by (auto simp: home_of_def has_window_def split: if_splits)
      then have "ws_floating_is_active ws = ActiveYes" "st_tiles ?fl \<noteq> []" using ok by (auto simp: ws_ok_def)
      then obtain a where "ws_active_window ws = Some a" using stack_ok_active [OF st] by (auto simp: ws_active_window_def)
      then show ?thesis using True ToNextTo add_above_ok [OF st fits n] by (fastforce simp: ws_add_tile_def)
    qed (use auto ToNextTo in auto)
  qed (use auto in auto)
qed

lemma mset_remove_part: "mset (as @ x # bs) = add_mset x (mset (as @ bs))"
  by simp

lemma ws_remove_floating_ok:
  assumes ok: "ws_ok ws" and i: "has_window i ws" and nm: "\<not> is_minimized i ws"
  shows "\<exists>t fl. ws_remove_tile i ws = Some (t, update_focus_after_removing (ws\<lparr>ws_floating := fl\<rparr>)) \<and> tl_id t = i \<and>
    stack_ok fl \<and> mset (st_tiles (ws_floating ws)) = add_mset t (mset (st_tiles fl))"
proof -
  have "idx_of i (ws_minimized ws) = None" using nm unfolding idx_of_None by (auto simp: is_minimized_def)
  moreover have "i \<in> tl_id ` set (st_tiles (ws_floating ws))" using i by (auto simp: has_window_def)
  ultimately show ?thesis using stack_remove_ok [of "ws_floating ws" i] ok
    by (fastforce simp: ws_remove_tile_def ws_ok_def)
qed

lemma ws_remove_minimized_ok:
  assumes "is_minimized i ws"
  shows "\<exists>t rest. ws_remove_tile i ws = Some (t, ws\<lparr>ws_minimized := rest\<rparr>) \<and> tl_id t = i \<and>
    mset (ws_minimized ws) = add_mset t (mset rest)"
proof -
  obtain idx where idx: "idx_of i (ws_minimized ws) = Some idx"
    using assms idx_of_None [of i "ws_minimized ws"] by (cases "idx_of i (ws_minimized ws)") (auto simp: is_minimized_def)
  note k = idx_of_Some [OF idx]
  let ?m = "ws_minimized ws"
  have "mset ?m = mset (take idx ?m @ ?m ! idx # drop (Suc idx) ?m)" using k by (simp add: id_take_nth_drop [symmetric])
  then have "mset ?m = add_mset (?m ! idx) (mset (take idx ?m @ drop (Suc idx) ?m))" by (simp only: mset_remove_part)
  then show ?thesis using idx k by (auto simp: ws_remove_tile_def vec_remove_def)
qed

lemma update_focus_ok:
  assumes "ws_ok ws" and "stack_ok fl"
    and "st_tiles (ws_floating ws) \<noteq> [] \<or> st_tiles fl = []"
  shows "ws_ok (update_focus_after_removing (ws\<lparr>ws_floating := fl\<rparr>))"
    and "ws_tiles (update_focus_after_removing (ws\<lparr>ws_floating := fl\<rparr>)) = st_tiles fl @ ws_minimized ws"
    and "ws_meta (update_focus_after_removing (ws\<lparr>ws_floating := fl\<rparr>)) = ws_meta ws"
  using assms by (auto simp: update_focus_after_removing_def ws_ok_def ws_tiles_def ws_meta_def)

lemma holds_window_cases: "holds_window i ws \<longleftrightarrow> has_window i ws \<or> is_minimized i ws"
  by (auto simp: holds_window_def has_window_def is_minimized_def ws_tiles_def)

lemma ws_remove_ok:
  assumes ok: "ws_ok ws" and h: "holds_window i ws"
  shows "\<exists>t ws'. ws_remove_tile i ws = Some (t, ws') \<and> tl_id t = i \<and> ws_ok ws' \<and> ws_meta ws' = ws_meta ws \<and>
    mset (ws_tiles ws) = add_mset t (mset (ws_tiles ws'))"
proof (cases "is_minimized i ws")
  case True
  then show ?thesis using ws_remove_minimized_ok [OF True] ok
    by (fastforce simp: ws_ok_def ws_meta_def ws_tiles_def)
next
  case False
  then obtain t fl where r: "ws_remove_tile i ws = Some (t, update_focus_after_removing (ws\<lparr>ws_floating := fl\<rparr>))"
    "tl_id t = i" "stack_ok fl" "mset (st_tiles (ws_floating ws)) = add_mset t (mset (st_tiles fl))"
    using ws_remove_floating_ok [OF ok] h holds_window_cases by blast
  have "st_tiles (ws_floating ws) \<noteq> []" using r(4) by auto
  moreover have "mset (ws_tiles ws) = add_mset t (mset (st_tiles fl @ ws_minimized ws))" using r(4) by (simp add: ws_tiles_def)
  ultimately show ?thesis using r(1,2) update_focus_ok [OF ok r(3)] by auto
qed

lemma ws_remove_active_ok:
  assumes ok: "ws_ok ws"
  shows "ws_remove_active_tile ws = Some None \<and> st_tiles (ws_floating ws) = [] \<or>
    (\<exists>t ws'. ws_remove_active_tile ws = Some (Some (t, ws')) \<and> ws_ok ws' \<and> ws_meta ws' = ws_meta ws \<and>
      mset (ws_tiles ws) = add_mset t (mset (ws_tiles ws')))"
proof (cases "ws_floating_is_active ws = ActiveYes")
  case True
  let ?fl = "ws_floating ws"
  have st: "stack_ok ?fl" "st_tiles ?fl \<noteq> []" using ok True by (auto simp: ws_ok_def)
  then obtain i where i: "st_active ?fl = Some i" "i \<in> tl_id ` set (st_tiles ?fl)" by (auto simp: stack_ok_def)
  from stack_remove_ok [OF st(1) i(2)] obtain t fl where r: "stack_remove_tile i ?fl = Some (t, fl)" "stack_ok fl"
    "mset (st_tiles ?fl) = add_mset t (mset (st_tiles fl))" by blast
  then have "mset (ws_tiles ws) = add_mset t (mset (st_tiles fl @ ws_minimized ws))" by (simp add: ws_tiles_def)
  then show ?thesis using True i r(1) update_focus_ok [OF ok r(2)] st(2)
    by (auto simp: ws_remove_active_tile_def stack_remove_active_def)
qed (use ok in \<open>auto simp: ws_remove_active_tile_def ws_ok_def\<close>)

lemma ws_unminimize_ok:
  assumes ok: "ws_ok ws" and wins: "wins_ok (map wkey (ws_tiles ws))"
  shows "\<exists>ws' b. ws_unminimize i activate ws = Some (ws', b) \<and> ws_ok ws' \<and> ws_meta ws' = ws_meta ws \<and>
    mset (ws_tiles ws') = mset (ws_tiles ws)"
proof (cases "idx_of i (ws_minimized ws)")
  case (Some idx)
  note k = idx_of_Some [OF Some]
  let ?m = "ws_minimized ws"
  define t rest where "t = ?m ! idx" and "rest = take idx ?m @ drop (Suc idx) ?m"
  have r: "vec_remove idx ?m = Some (t, rest)" using k by (simp add: vec_remove_def t_def rest_def)
  have "mset ?m = mset (take idx ?m @ t # drop (Suc idx) ?m)" using k by (simp add: id_take_nth_drop [symmetric] t_def)
  then have m: "mset ?m = add_mset t (mset rest)" unfolding rest_def by (simp only: mset_remove_part)
  let ?ws = "ws\<lparr>ws_minimized := rest\<rparr>"
  have t: "mset (t # ws_tiles ?ws) = mset (ws_tiles ws)" using m by (simp add: ws_tiles_def)
  then have "mset (map wkey (t # ws_tiles ?ws)) = mset (map wkey (ws_tiles ws))" by (simp only: mset_map)
  then have w: "wins_ok (map wkey (t # ws_tiles ?ws))" using wins wins_ok_mset by blast
  have "ws_ok ?ws" using ok by (simp add: ws_ok_def)
  from ws_add_ok [OF this w, of ToAuto activate]
  obtain fl where a: "ws_add_tile t ToAuto activate ?ws = Some (?ws\<lparr>ws_floating := fl, ws_floating_is_active := ActiveYes\<rparr>)"
    "stack_ok fl" "mset (st_tiles fl) = add_mset t (mset (st_tiles (ws_floating ws)))" by auto
  let ?ws' = "?ws\<lparr>ws_floating := fl, ws_floating_is_active := ActiveYes\<rparr>"
  have "mset (ws_tiles ?ws') = mset (ws_tiles ws)" using a(3) m by (simp add: ws_tiles_def)
  moreover have "ws_ok ?ws'" using a(2,3) by (auto simp: ws_ok_def)
  ultimately show ?thesis using Some r a(1) by (auto simp: ws_unminimize_def ws_meta_def)
qed (use ok in \<open>auto simp: ws_unminimize_def\<close>)

lemma ws_activate_ok:
  assumes ok: "ws_ok ws" and wins: "wins_ok (map wkey (ws_tiles ws))"
  shows "\<exists>ws' b. ws_activate_window i ws = Some (ws', b) \<and> ws_ok ws' \<and> ws_meta ws' = ws_meta ws \<and>
    mset (ws_tiles ws') = mset (ws_tiles ws)"
proof -
  obtain ws1 b1 where u: "ws_unminimize i ActYes ws = Some (ws1, b1)" "ws_ok ws1" "ws_meta ws1 = ws_meta ws"
    "mset (ws_tiles ws1) = mset (ws_tiles ws)" using ws_unminimize_ok [OF assms] by blast
  obtain fl found where a: "stack_activate i (ws_floating ws1) = Some (fl, found)" "stack_ok fl"
    "mset (st_tiles fl) = mset (st_tiles (ws_floating ws1))"
    using stack_activate_ok [of "ws_floating ws1" i] u(2) by (auto simp: ws_ok_def)
  have found: "found \<Longrightarrow> st_tiles fl \<noteq> []" and nf: "\<not> found \<Longrightarrow> fl = ws_floating ws1"
    using a by (auto simp: stack_activate_def idx_of_def position_Some split: option.splits)
  show ?thesis
    using u a found nf by (cases found) (auto simp: ws_activate_window_def ws_ok_def ws_meta_def ws_tiles_def)
qed

lemma ws_activate_only_ok:
  assumes ok: "ws_ok ws" and wins: "wins_ok (map wkey (ws_tiles ws))"
  shows "\<exists>ws' b. ws_activate_without_raising i ws = Some (ws', b) \<and> ws_ok ws' \<and> ws_meta ws' = ws_meta ws \<and>
    mset (ws_tiles ws') = mset (ws_tiles ws)"
proof -
  obtain ws1 b1 where u: "ws_unminimize i ActNo ws = Some (ws1, b1)" "ws_ok ws1" "ws_meta ws1 = ws_meta ws"
    "mset (ws_tiles ws1) = mset (ws_tiles ws)" using ws_unminimize_ok [OF assms] by blast
  show ?thesis
  proof (cases "idx_of i (st_tiles (ws_floating ws1))")
    case None
    then show ?thesis using u by (auto simp: ws_activate_without_raising_def activate_without_raising_def ws_ok_def ws_meta_def ws_tiles_def)
  next
    case (Some idx)
    then have "i \<in> tl_id ` set (st_tiles (ws_floating ws1))" using idx_of_None [of i "st_tiles (ws_floating ws1)"] by auto
    then have "stack_ok ((ws_floating ws1)\<lparr>st_active := Some i\<rparr>)" using u(2) by (auto simp: ws_ok_def stack_ok_def)
    moreover have "st_tiles (ws_floating ws1) \<noteq> []" using idx_of_Some [OF Some] by auto
    ultimately show ?thesis using Some u
      by (auto simp: ws_activate_without_raising_def activate_without_raising_def ws_ok_def ws_meta_def ws_tiles_def)
  qed
qed

lemma ws_minimize_ok:
  assumes ok: "ws_ok ws"
  shows "\<exists>ws' b. ws_minimize i ws = Some (ws', b) \<and> ws_ok ws' \<and> ws_meta ws' = ws_meta ws \<and>
    mset (ws_tiles ws') = mset (ws_tiles ws)"
proof (cases "is_minimized i ws \<or> home_of i ws \<noteq> Some HomeFloating")
  case False
  then have "holds_window i ws" by (auto simp: home_of_def holds_window_cases split: if_splits)
  then obtain t ws1 where "ws_remove_tile i ws = Some (t, ws1)" "ws_ok ws1" "ws_meta ws1 = ws_meta ws"
    "mset (ws_tiles ws) = add_mset t (mset (ws_tiles ws1))" using ws_remove_ok [OF ok] by blast
  then show ?thesis using False by (auto simp: ws_minimize_def ws_ok_def ws_meta_def ws_tiles_def)
qed (use ok in \<open>auto simp: ws_minimize_def\<close>)

lemma wkey_put_sticky [simp]: "wkey (put_sticky h on t) = wkey t"
  by (simp add: wkey_def put_sticky_def)

lemma stack_ok_same_keys:
  assumes "stack_ok st" and "map wkey us = map wkey (st_tiles st)"
  shows "stack_ok (st\<lparr>st_tiles := us\<rparr>)"
proof -
  have "map tl_id us = map tl_id (st_tiles st)" using arg_cong [OF assms(2), of "map fst"] by simp
  then have "tl_id ` set us = tl_id ` set (st_tiles st)" by (metis set_map)
  moreover have "us = [] \<longleftrightarrow> st_tiles st = []" using assms(2) by auto
  moreover have "tiles_ok us" using assms tiles_ok_same [of "st_tiles st" us] by (simp add: stack_ok_def wkey_def [abs_def])
  ultimately show ?thesis using assms(1) by (auto simp: stack_ok_def)
qed

lemma set_sticky_ok:
  assumes "ws_ok ws"
  shows "ws_ok (fst (set_sticky i on ws))" and "ws_meta (fst (set_sticky i on ws)) = ws_meta ws"
    and "map wkey (ws_tiles (fst (set_sticky i on ws))) = map wkey (ws_tiles ws)"
proof -
  let ?upd = "update_first (\<lambda>t. tl_id t = i) (put_sticky (ws_id ws) on)"
  have m: "map wkey (?upd xs) = map wkey xs" for xs by (rule update_first_key) simp
  have "stack_ok ((ws_floating ws)\<lparr>st_tiles := ?upd (st_tiles (ws_floating ws))\<rparr>)"
    using assms m by (intro stack_ok_same_keys) (auto simp: ws_ok_def)
  then show "ws_ok (fst (set_sticky i on ws))" using assms
    by (auto simp: set_sticky_def ws_ok_def Let_def split: option.split)
  show "ws_meta (fst (set_sticky i on ws)) = ws_meta ws"
    by (auto simp: set_sticky_def ws_meta_def Let_def split: option.split)
  show "map wkey (ws_tiles (fst (set_sticky i on ws))) = map wkey (ws_tiles ws)"
    using m by (auto simp: set_sticky_def ws_tiles_def Let_def split: option.split)
qed

section \<open>The windows that ride a switch\<close>

inductive rides :: "tile set \<Rightarrow> tile \<Rightarrow> bool" for S where
  flagged: "t \<in> S \<Longrightarrow> tl_sticky t \<Longrightarrow> rides S t"
| inherited: "t \<in> S \<Longrightarrow> p \<in> S \<Longrightarrow> is_child_of t p \<Longrightarrow> rides S p \<Longrightarrow> rides S t"

lemma rides_mono: "rides S t \<Longrightarrow> S \<subseteq> T \<Longrightarrow> rides T t"
  by (induction rule: rides.induct) (auto intro: rides.intros)

lemma parent_idx_child: "parent_idx ts i = Some j \<Longrightarrow> j < length ts \<and> is_child_of (ts ! i) (ts ! j)"
  by (auto simp: parent_idx_def find_Some_iff)

lemma sticky_within_rides: "sticky_within n ts i \<Longrightarrow> i < length ts \<Longrightarrow> rides (set ts) (ts ! i)"
proof (induction n arbitrary: i)
  case (Suc n)
  show ?case
  proof (cases "tl_sticky (ts ! i)")
    case True
    then show ?thesis using Suc.prems(2) by (intro rides.flagged) auto
  next
    case False
    then obtain j where "parent_idx ts i = Some j" "sticky_within n ts j" using Suc.prems(1) by (auto split: option.splits)
    then show ?thesis using Suc.IH [of j] Suc.prems(2) parent_idx_child [of ts i j]
      by (intro rides.inherited [of "ts ! i" _ "ts ! j"]) auto
  qed
qed simp

text \<open>The ids up the chain of parents; shorter for a parent, and fewer than there are tiles.\<close>

definition ancestors :: "tile set \<Rightarrow> tile \<Rightarrow> nat set" where
  "ancestors S t = {q \<in> tl_id ` S. (tl_id t, q) \<in> (parents S)\<^sup>+}"

lemma ancestors_parent:
  assumes "acyclic (parents S)" and "finite S" and "t \<in> S" and "p \<in> S" and "is_child_of t p"
  shows "card (ancestors S p) < card (ancestors S t)"
proof (rule psubset_card_mono)
  show "finite (ancestors S t)" using assms(2) by (simp add: ancestors_def)
  have tp: "(tl_id t, tl_id p) \<in> parents S" using assms(3,5) by (intro parents_child) auto
  then have "ancestors S p \<subseteq> ancestors S t" by (auto simp: ancestors_def intro: trancl_into_trancl2)
  moreover have "tl_id p \<in> ancestors S t" using tp assms(4) by (auto simp: ancestors_def)
  moreover have "tl_id p \<notin> ancestors S p" using assms(1) by (auto simp: ancestors_def acyclic_def)
  ultimately show "ancestors S p \<subset> ancestors S t" by blast
qed

lemma ancestors_few:
  assumes "acyclic (parents (set ts))" and "t \<in> set ts"
  shows "card (ancestors (set ts) t) < length ts"
proof -
  have "ancestors (set ts) t \<subseteq> tl_id ` set ts - {tl_id t}" using assms(1) by (auto simp: ancestors_def acyclic_def)
  then have "card (ancestors (set ts) t) \<le> card (tl_id ` set ts - {tl_id t})" by (intro card_mono) auto
  also have "\<dots> < card (tl_id ` set ts)" using assms(2) by (intro psubset_card_mono) auto
  also have "\<dots> \<le> length ts" using card_image_le [of "set ts" tl_id] card_length [of ts] by simp
  finally show ?thesis .
qed

lemma rides_sticky_within:
  assumes ac: "acyclic (parents (set ts))" and d: "distinct (map tl_id ts)"
  shows "rides (set ts) t \<Longrightarrow> i < length ts \<Longrightarrow> ts ! i = t \<Longrightarrow> card (ancestors (set ts) t) < n \<Longrightarrow> sticky_within n ts i"
proof (induction arbitrary: i n rule: rides.induct)
  case (flagged t)
  then show ?case by (cases n) auto
next
  case (inherited t p)
  then obtain m where n: "n = Suc m" by (cases n) auto
  obtain j where j: "j < length ts" "ts ! j = p" using inherited.hyps(2) by (auto simp: in_set_conv_nth)
  have "j \<noteq> i" using acyclic_no_self [OF ac] inherited j by auto
  then obtain k where k: "parent_idx ts i = Some k"
    using inherited.hyps(3) inherited.prems j by (cases "parent_idx ts i") (auto simp: parent_idx_def find_None_iff)
  then have "k < length ts" "is_child_of (ts ! i) (ts ! k)" using parent_idx_child by auto
  then have "tl_id (ts ! k) = tl_id (ts ! j)" using inherited j by (simp add: is_child_of_def)
  then have "k = j" using d \<open>k < length ts\<close> j by (auto simp: distinct_conv_nth)
  moreover have "card (ancestors (set ts) p) < m"
    using ancestors_parent [OF ac, of t p] inherited n by fastforce
  ultimately show ?case using inherited.IH [of j m] j k n by simp
qed

text \<open>The riding windows are those laid out that are flagged or descend from a flagged one.\<close>

lemma sticky_ids_iff:
  assumes "wins_ok (map wkey (ws_tiles ws))"
  shows "i \<in> set (sticky_window_ids ws) \<longleftrightarrow>
    (\<exists>t \<in> set (ws_tiles ws). tl_id t = i \<and> rides (set (ws_tiles ws)) t \<and> has_window i ws)"
proof -
  let ?ts = "ws_tiles ws"
  have d: "distinct (map tl_id ?ts)" and ac: "acyclic (parents (set ?ts))"
    using assms by (simp_all add: wins_ok_def parents_wkey)
  have "sticky_within (length ?ts) ?ts k \<longleftrightarrow> rides (set ?ts) (?ts ! k)" if "k < length ?ts" for k
    using that sticky_within_rides [of "length ?ts" ?ts k] rides_sticky_within [OF ac d, of "?ts ! k" k "length ?ts"]
      ancestors_few [OF ac, of "?ts ! k"] by auto
  then show ?thesis by (fastforce simp: sticky_window_ids_def Let_def in_set_conv_nth [of _ "ws_tiles ws"])
qed

end
