(* ===== verification/Strips.thy ===== *)
theory Strips
  imports Workspaces
begin

text \<open>
  The strip of workspaces of a display, \<open>Monitor\<close> of \<open>src/src/layout/monitor.rs\<close>: growing, closing,
  reordering and activating workspaces, moving windows between them, and the windows that follow the
  user from one workspace to the next. \<open>WORKSPACE_ID_COUNTER\<close> is the field \<open>mn_next\<close>. Of a workspace
  switch in flight only its kind is kept; where a gesture lands is an argument, the floating-point
  part of it being geometry. The overview and the thumbnails are left out.
\<close>

section \<open>State\<close>

definition MIN_NUM_WORKSPACES :: nat where
  "MIN_NUM_WORKSPACES = 2"

text \<open>A gesture is a drag-and-drop scroll or not.\<close>

datatype ws_switch = SwitchAnimation | SwitchGesture bool

record monitor =
  mn_output :: output_identity
  mn_workspaces :: "workspace list"
  mn_active :: nat
  mn_previous :: "nat option"
  mn_switch :: "ws_switch option"
  mn_next :: nat

definition ws_idx :: "nat \<Rightarrow> workspace list \<Rightarrow> nat option" where
  "ws_idx i wss = position (\<lambda>ws. ws_id ws = i) wss"

definition mon_active_window :: "monitor \<Rightarrow> nat option" where
  "mon_active_window m = map_option tl_id (ws_active_window (mn_workspaces m ! mn_active m))"

section \<open>Home ordinals\<close>

text \<open>The display's own workspaces get their rank; visitors of one display share out the ordinals they
  have in the order they are in.\<close>

fun stamp_own :: "output_identity \<Rightarrow> nat \<Rightarrow> workspace list \<Rightarrow> workspace list" where
  "stamp_own out rank [] = []"
| "stamp_own out rank (ws # wss) =
     (if identity_matches (ws_home ws) out then ws\<lparr>ws_home_ordinal := rank\<rparr> # stamp_own out (rank + 1) wss
      else ws # stamp_own out rank wss)"

fun stamp_visitors :: "nat list \<Rightarrow> nat list \<Rightarrow> workspace list \<Rightarrow> workspace list" where
  "stamp_visitors [] done wss = wss"
| "stamp_visitors (i # is) done wss =
     (if i \<in> set done then stamp_visitors is done wss
      else (let group = filter (\<lambda>j. identity_matches (ws_home (wss ! j)) (ws_home (wss ! i))) (i # is);
                slots = sort (map (\<lambda>j. ws_home_ordinal (wss ! j)) group);
                wss1 = fold (\<lambda>(j, slot) w. w[j := (w ! j)\<lparr>ws_home_ordinal := slot\<rparr>]) (zip group slots) wss
            in stamp_visitors is (group @ done) wss1))"

definition stamp_ordinals :: "output_identity \<Rightarrow> workspace list \<Rightarrow> workspace list" where
  "stamp_ordinals out wss =
     (let visiting = filter (\<lambda>i. \<not> identity_matches (ws_home (wss ! i)) out) [0..<length wss]
      in stamp_visitors visiting [] (stamp_own out 0 wss))"

definition stamp_home_ordinals :: "monitor \<Rightarrow> monitor" where
  "stamp_home_ordinals m = m\<lparr>mn_workspaces := stamp_ordinals (mn_output m) (mn_workspaces m)\<rparr>"

section \<open>Growing\<close>

definition add_workspace_at :: "nat \<Rightarrow> monitor \<Rightarrow> monitor option" where
  "add_workspace_at idx m =
     map_option (\<lambda>wss. stamp_home_ordinals (m\<lparr>mn_workspaces := wss,
         mn_active := (if idx \<le> mn_active m then mn_active m + 1 else mn_active m), mn_next := mn_next m + 1\<rparr>))
       (vec_insert idx (new_workspace (mn_output m) (mn_next m)) (mn_workspaces m))"

definition add_workspace_bottom :: "monitor \<Rightarrow> monitor option" where
  "add_workspace_bottom m = add_workspace_at (length (mn_workspaces m)) m"

fun grow_by :: "nat \<Rightarrow> monitor \<Rightarrow> monitor option" where
  "grow_by 0 m = Some m"
| "grow_by (Suc n) m = Option.bind (add_workspace_bottom m) (grow_by n)"

definition lacks_trailing_empty :: "workspace list \<Rightarrow> bool" where
  "lacks_trailing_empty wss \<longleftrightarrow> wss = [] \<or> has_windows_or_name (last wss)"

definition clean_up_workspaces :: "monitor \<Rightarrow> monitor option" where
  "clean_up_workspaces m =
     (if mn_switch m \<noteq> None then None
      else Option.bind (if lacks_trailing_empty (mn_workspaces m) then add_workspace_bottom m else Some m) (\<lambda>m1.
           Option.bind (grow_by (MIN_NUM_WORKSPACES - length (mn_workspaces m1)) m1) (\<lambda>m2.
           Some (stamp_home_ordinals m2))))"

text \<open>\<open>Monitor::new\<close>: the workspaces given to a display, the trailing empty one, and the minimum.\<close>

definition new_monitor :: "output_identity \<Rightarrow> workspace list \<Rightarrow> nat option \<Rightarrow> nat \<Rightarrow> monitor" where
  "new_monitor out wss activate next =
     (let wss1 = map (set_output (Some out)) wss;
          active = (case activate of None \<Rightarrow> 0
                    | Some i \<Rightarrow> (case filter (\<lambda>k. ws_id (wss1 ! k) = i) [0..<length wss1] of [] \<Rightarrow> 0 | ks \<Rightarrow> last ks));
          n = (if lacks_trailing_empty wss1 then 1 else 0);
          grown = n + (MIN_NUM_WORKSPACES - (length wss1 + n))
      in stamp_home_ordinals \<lparr>mn_output = out, mn_workspaces = wss1 @ map (\<lambda>k. new_workspace out (next + k)) [0..<grown],
           mn_active = active, mn_previous = None, mn_switch = None, mn_next = next + grown\<rparr>)"

section \<open>Placing and moving windows\<close>

datatype monitor_target = OnActive | OnWorkspace nat bool | BesideWindow nat

definition resolve_add_window_target :: "monitor_target \<Rightarrow> monitor \<Rightarrow> (nat \<times> add_target) option" where
  "resolve_add_window_target target m = (case target of
       OnActive \<Rightarrow> Some (mn_active m, ToAuto)
     | OnWorkspace i column \<Rightarrow> map_option (\<lambda>idx. (idx, if column then ToNewColumn else ToAuto)) (ws_idx i (mn_workspaces m))
     | BesideWindow w \<Rightarrow> map_option (\<lambda>idx. (idx, ToNextTo w)) (position (has_window w) (mn_workspaces m)))"

text \<open>Activating a workspace carries windows to it, and placing a window can activate a workspace. The
  two meet only where the carried windows are placed with \<^const>\<open>ActNo\<close>, so what placing does to
  activate is an argument here.\<close>

definition add_tile_with :: "(nat \<Rightarrow> monitor \<Rightarrow> monitor option) \<Rightarrow> tile \<Rightarrow> monitor_target \<Rightarrow> activate_window \<Rightarrow> bool
    \<Rightarrow> monitor \<Rightarrow> monitor option" where
  "add_tile_with act t target activate allow m =
     Option.bind (resolve_add_window_target target m) (\<lambda>(idx, to).
     if length (mn_workspaces m) \<le> idx then None
     else Option.bind (ws_add_tile t to activate (mn_workspaces m ! idx)) (\<lambda>ws.
          let ws1 = (if ws_name ws = None then adopt_home (mn_output m) ws else ws);
              m1 = m\<lparr>mn_workspaces := (mn_workspaces m)[idx := ws1]\<rparr>
          in Option.bind (if idx = length (mn_workspaces m1) - 1 then add_workspace_bottom m1 else Some m1) (\<lambda>m2.
             if allow \<and> map_smart activate False then act idx m2 else Some m2)))"

definition take_window :: "nat option \<Rightarrow> nat \<Rightarrow> monitor \<Rightarrow> (tile \<times> monitor) option option" where
  "take_window w src m =
     (let put = (\<lambda>(t, ws). (t, m\<lparr>mn_workspaces := (mn_workspaces m)[src := ws]\<rparr>)) in
      if length (mn_workspaces m) \<le> src then None
      else case w of
        Some i \<Rightarrow> map_option (\<lambda>r. Some (put r)) (ws_remove_tile i (mn_workspaces m ! src))
      | None \<Rightarrow> map_option (map_option put) (ws_remove_active_tile (mn_workspaces m ! src)))"

definition move_to_workspace_with :: "(nat \<Rightarrow> monitor \<Rightarrow> monitor option) \<Rightarrow> nat option \<Rightarrow> nat \<Rightarrow> activate_window
    \<Rightarrow> monitor \<Rightarrow> monitor option" where
  "move_to_workspace_with act w idx activate m =
     Option.bind (case w of Some i \<Rightarrow> position (has_window i) (mn_workspaces m) | None \<Rightarrow> Some (mn_active m)) (\<lambda>src.
     let new_idx = min idx (length (mn_workspaces m) - 1) in
     if mn_workspaces m = [] then None
     else if new_idx = src then Some m
     else if w \<noteq> None \<and> activate = ActSmart \<and> length (mn_workspaces m) \<le> mn_active m then None
     else let new_id = ws_id (mn_workspaces m ! new_idx);
              yes = map_smart activate (case w of None \<Rightarrow> True | Some i \<Rightarrow> mon_active_window m = Some i)
          in Option.bind (take_window w src m) (\<lambda>taken. case taken of
               None \<Rightarrow> Some m
             | Some (t, m1) \<Rightarrow>
                 Option.bind (add_tile_with act t (OnWorkspace new_id False) (if yes then ActYes else ActNo) True m1) (\<lambda>m2.
                 if mn_switch m2 = None then clean_up_workspaces m2 else Some m2)))"

fun carry_each :: "nat \<Rightarrow> nat option \<Rightarrow> nat list \<Rightarrow> nat option \<Rightarrow> monitor \<Rightarrow> (nat option \<times> monitor) option" where
  "carry_each target was [] keep m = Some (keep, m)"
| "carry_each target was (i # is) keep m =
     (let keep1 = (if Some i = was then Some i else keep) in
      case ws_idx target (mn_workspaces m) of
        None \<Rightarrow> Some (keep1, m)
      | Some idx \<Rightarrow>
          Option.bind (move_to_workspace_with (\<lambda>_ m1. Some m1) (Some i) idx ActNo m) (carry_each target was is keep1))"

definition carry_sticky_to :: "nat \<Rightarrow> monitor \<Rightarrow> (nat option \<times> monitor) option" where
  "carry_sticky_to target m =
     (if length (mn_workspaces m) \<le> mn_active m then None else carry_each target (mon_active_window m)
       (concat (map sticky_window_ids (filter (\<lambda>ws. ws_id ws \<noteq> target) (mn_workspaces m)))) None m)"

section \<open>Activating a workspace\<close>

text \<open>\<open>update_ws\<close> runs an operation on the workspace at an index.\<close>

definition update_ws :: "nat \<Rightarrow> (workspace \<Rightarrow> (workspace \<times> bool) option) \<Rightarrow> monitor \<Rightarrow> monitor option" where
  "update_ws idx f m =
     (if length (mn_workspaces m) \<le> idx then None
      else map_option (\<lambda>(ws, _). m\<lparr>mn_workspaces := (mn_workspaces m)[idx := ws]\<rparr>) (f (mn_workspaces m ! idx)))"

definition keep_focused :: "nat option \<Rightarrow> nat \<Rightarrow> monitor \<Rightarrow> monitor option" where
  "keep_focused keep idx m = (case keep of None \<Rightarrow> Some m | Some i \<Rightarrow> update_ws idx (ws_activate_window i) m)"

definition land_on :: "nat option \<Rightarrow> nat \<Rightarrow> monitor \<Rightarrow> monitor option" where
  "land_on keep idx m =
     (if mn_active m \<noteq> idx \<and> length (mn_workspaces m) \<le> mn_active m then None
      else Option.bind (keep_focused keep idx (m\<lparr>mn_active := idx,
               mn_previous := (if mn_active m \<noteq> idx then Some (ws_id (mn_workspaces m ! mn_active m)) else mn_previous m)\<rparr>)) (\<lambda>m1.
           Some (if mn_switch m1 = Some (SwitchGesture True) \<or> mn_active m = idx then m1
                 else m1\<lparr>mn_switch := Some SwitchAnimation\<rparr>)))"

definition activate_workspace :: "nat \<Rightarrow> monitor \<Rightarrow> monitor option" where
  "activate_workspace idx m =
     (if idx = mn_active m then land_on None idx m
      else if length (mn_workspaces m) \<le> idx then None
      else let target = ws_id (mn_workspaces m ! idx) in
           Option.bind (carry_sticky_to target m) (\<lambda>(keep, m1).
             case ws_idx target (mn_workspaces m1) of
               None \<Rightarrow> Some m1
             | Some found \<Rightarrow> land_on keep found m1))"

definition mon_add_tile :: "tile \<Rightarrow> monitor_target \<Rightarrow> activate_window \<Rightarrow> bool \<Rightarrow> monitor \<Rightarrow> monitor option" where
  "mon_add_tile = add_tile_with activate_workspace"

definition mon_add_window :: "tile \<Rightarrow> monitor_target \<Rightarrow> activate_window \<Rightarrow> monitor \<Rightarrow> monitor option" where
  "mon_add_window t target activate m = (if mn_workspaces m = [] then None else mon_add_tile t target activate True m)"

definition move_to_workspace :: "nat option \<Rightarrow> nat \<Rightarrow> activate_window \<Rightarrow> monitor \<Rightarrow> monitor option" where
  "move_to_workspace = move_to_workspace_with activate_workspace"

text \<open>The active window to a neighbouring workspace.\<close>

definition move_active_to :: "nat \<Rightarrow> bool \<Rightarrow> monitor \<Rightarrow> monitor option" where
  "move_active_to new_idx focus m =
     (if new_idx = mn_active m then Some m
      else if length (mn_workspaces m) \<le> new_idx then None
      else let new_id = ws_id (mn_workspaces m ! new_idx) in
           Option.bind (take_window None (mn_active m) m) (\<lambda>taken. case taken of
               None \<Rightarrow> Some m
             | Some (t, m1) \<Rightarrow> mon_add_tile t (OnWorkspace new_id False) (if focus then ActYes else ActSmart) True m1))"

definition move_to_workspace_up :: "bool \<Rightarrow> monitor \<Rightarrow> monitor option" where
  "move_to_workspace_up focus m = move_active_to (mn_active m - 1) focus m"

definition move_to_workspace_down :: "bool \<Rightarrow> monitor \<Rightarrow> monitor option" where
  "move_to_workspace_down focus m =
     move_active_to (min (mn_active m + 1) (length (mn_workspaces m) - 1)) focus m"

text \<open>During a drag-and-drop scroll the neighbour is that of the position on screen, \<open>apparent\<close>.\<close>

definition clamp_idx :: "int \<Rightarrow> monitor \<Rightarrow> nat" where
  "clamp_idx i m = nat (min (max i 0) (int (length (mn_workspaces m)) - 1))"

definition switch_workspace_up :: "int \<Rightarrow> monitor \<Rightarrow> monitor option" where
  "switch_workspace_up apparent m =
     activate_workspace (if mn_switch m = Some (SwitchGesture True) then clamp_idx (apparent - 1) m else mn_active m - 1) m"

definition switch_workspace_down :: "int \<Rightarrow> monitor \<Rightarrow> monitor option" where
  "switch_workspace_down apparent m =
     activate_workspace (if mn_switch m = Some (SwitchGesture True) then clamp_idx (apparent + 1) m
       else min (mn_active m + 1) (length (mn_workspaces m) - 1)) m"

definition previous_workspace_idx :: "monitor \<Rightarrow> nat option" where
  "previous_workspace_idx m = Option.bind (mn_previous m) (\<lambda>i. ws_idx i (mn_workspaces m))"

definition switch_workspace :: "nat \<Rightarrow> monitor \<Rightarrow> monitor option" where
  "switch_workspace idx m = activate_workspace (min idx (length (mn_workspaces m) - 1)) m"

definition switch_workspace_auto_back_and_forth :: "nat \<Rightarrow> monitor \<Rightarrow> monitor option" where
  "switch_workspace_auto_back_and_forth idx m =
     (let i = min idx (length (mn_workspaces m) - 1) in
      if i = mn_active m
      then (case previous_workspace_idx m of Some p \<Rightarrow> switch_workspace p m | None \<Rightarrow> Some m)
      else switch_workspace i m)"

definition switch_workspace_previous :: "monitor \<Rightarrow> monitor option" where
  "switch_workspace_previous m = (case previous_workspace_idx m of Some p \<Rightarrow> switch_workspace p m | None \<Rightarrow> Some m)"

section \<open>Gestures and frames\<close>

definition workspace_switch_gesture_begin :: "monitor \<Rightarrow> monitor" where
  "workspace_switch_gesture_begin m = m\<lparr>mn_switch := Some (SwitchGesture False)\<rparr>"

definition dnd_scroll_gesture_begin :: "bool \<Rightarrow> monitor \<Rightarrow> monitor" where
  "dnd_scroll_gesture_begin overview_open m =
     (if mn_switch m = Some (SwitchGesture True) \<or> \<not> overview_open then m
      else m\<lparr>mn_switch := Some (SwitchGesture True)\<rparr>)"

text \<open>\<open>same_device\<close>: whether the event that ends the gesture is of the kind that began it. \<open>new_idx\<close> is
  where the swipe comes to rest.\<close>

definition workspace_switch_gesture_end :: "bool \<Rightarrow> nat \<Rightarrow> monitor \<Rightarrow> monitor option" where
  "workspace_switch_gesture_end same_device new_idx m = (case mn_switch m of
       Some (SwitchGesture _) \<Rightarrow>
         if \<not> same_device then Some m
         else Option.bind (if mn_active m \<noteq> new_idx
               then (if length (mn_workspaces m) \<le> new_idx then None
                     else Option.bind (carry_sticky_to (ws_id (mn_workspaces m ! new_idx)) m) (\<lambda>(keep, m1).
                       if length (mn_workspaces m1) \<le> mn_active m1 then None
                       else Some (keep, m1\<lparr>mn_previous := Some (ws_id (mn_workspaces m1 ! mn_active m1))\<rparr>)))
               else Some (None, m)) (\<lambda>(keep, m1).
         map_option (\<lambda>m2. m2\<lparr>mn_switch := Some SwitchAnimation\<rparr>)
           (keep_focused keep new_idx (m1\<lparr>mn_active := new_idx\<rparr>)))
     | _ \<Rightarrow> Some m)"

definition ws_advance_animations :: "workspace \<Rightarrow> workspace" where
  "ws_advance_animations ws = ws\<lparr>ws_floating := stack_advance_animations (ws_floating ws)\<rparr>"

definition mon_advance_animations :: "bool \<Rightarrow> monitor \<Rightarrow> monitor option" where
  "mon_advance_animations switch_done m =
     map_option (\<lambda>m1. m1\<lparr>mn_workspaces := map ws_advance_animations (mn_workspaces m1)\<rparr>)
       (if mn_switch m = Some SwitchAnimation \<and> switch_done then clean_up_workspaces (m\<lparr>mn_switch := None\<rparr>) else Some m)"

section \<open>Windows by id\<close>

text \<open>The first workspace an operation changes, in order.\<close>

fun try_workspaces :: "(workspace \<Rightarrow> (workspace \<times> bool) option) \<Rightarrow> workspace list \<Rightarrow> (workspace list \<times> nat option) option" where
  "try_workspaces f [] = Some ([], None)"
| "try_workspaces f (ws # wss) =
     Option.bind (f ws) (\<lambda>(ws1, changed).
       if changed then Some (ws1 # wss, Some 0)
       else map_option (\<lambda>(rest, found). (ws1 # rest, map_option Suc found)) (try_workspaces f wss))"

text \<open>\<open>swiping_over\<close>: whether a gesture is passing over the workspace that holds the window.\<close>

definition mon_activate_window :: "nat \<Rightarrow> (nat \<Rightarrow> bool) \<Rightarrow> monitor \<Rightarrow> monitor option" where
  "mon_activate_window i swiping_over m =
     Option.bind (try_workspaces (ws_activate_window i) (mn_workspaces m)) (\<lambda>(wss, found).
       let m1 = m\<lparr>mn_workspaces := wss\<rparr> in
       case found of
         None \<Rightarrow> Some m1
       | Some idx \<Rightarrow>
           (case mn_switch m1 of
              Some (SwitchGesture _) \<Rightarrow> if swiping_over idx then Some m1 else switch_workspace idx m1
            | _ \<Rightarrow> switch_workspace idx m1))"

definition mon_minimize_window :: "nat \<Rightarrow> monitor \<Rightarrow> (monitor \<times> bool) option" where
  "mon_minimize_window i m =
     map_option (\<lambda>(wss, found). (m\<lparr>mn_workspaces := wss\<rparr>, found \<noteq> None)) (try_workspaces (ws_minimize i) (mn_workspaces m))"

definition mon_unminimize_window :: "nat \<Rightarrow> activate_window \<Rightarrow> monitor \<Rightarrow> (monitor \<times> bool) option" where
  "mon_unminimize_window i activate m =
     map_option (\<lambda>(wss, found). (m\<lparr>mn_workspaces := wss\<rparr>, found \<noteq> None))
       (try_workspaces (ws_unminimize i activate) (mn_workspaces m))"

definition mon_remove_window :: "nat \<Rightarrow> monitor \<Rightarrow> (tile option \<times> monitor) option" where
  "mon_remove_window i m = (case position (holds_window i) (mn_workspaces m) of
       None \<Rightarrow> Some (None, m)
     | Some idx \<Rightarrow>
         map_option (\<lambda>(t, ws). (Some t, m\<lparr>mn_workspaces := (mn_workspaces m)[idx := ws]\<rparr>))
           (ws_remove_tile i (mn_workspaces m ! idx)))"

text \<open>Unsticking sends home what stopped riding along.\<close>

fun send_home :: "nat \<Rightarrow> nat \<Rightarrow> nat list \<Rightarrow> monitor \<Rightarrow> monitor option" where
  "send_home home here [] m = Some m"
| "send_home home here (i # is) m = (case ws_idx home (mn_workspaces m) of
       None \<Rightarrow> Some m
     | Some idx \<Rightarrow>
         if idx = here then Some m
         else Option.bind (move_to_workspace (Some i) idx ActNo m) (send_home home here is))"

definition set_window_sticky :: "nat \<Rightarrow> bool \<Rightarrow> monitor \<Rightarrow> (monitor \<times> bool) option" where
  "set_window_sticky i on m = (case position (holds_window i) (mn_workspaces m) of
       None \<Rightarrow> Some (m, False)
     | Some idx \<Rightarrow>
         (let ws = mn_workspaces m ! idx;
              (ws1, changed) = set_sticky i on ws;
              m1 = m\<lparr>mn_workspaces := (mn_workspaces m)[idx := ws1]\<rparr>
          in if on \<or> \<not> changed then Some (m1, changed)
             else let leaving = filter (\<lambda>j. j \<notin> set (sticky_window_ids ws1)) (sticky_window_ids ws)
                  in (case sticky_home i ws of
                        None \<Rightarrow> Some (m1, True)
                      | Some home \<Rightarrow> map_option (\<lambda>m2. (m2, True)) (send_home home idx leaving m1))))"

section \<open>Closing, reordering, handing over\<close>

definition workspace_is_closable :: "nat \<Rightarrow> monitor \<Rightarrow> bool" where
  "workspace_is_closable idx m \<longleftrightarrow> idx + 1 < length (mn_workspaces m) \<and> MIN_NUM_WORKSPACES < length (mn_workspaces m) \<and>
     \<not> has_windows (mn_workspaces m ! idx)"

definition close_workspace :: "nat \<Rightarrow> monitor \<Rightarrow> (monitor \<times> bool) option" where
  "close_workspace i m = (case ws_idx i (mn_workspaces m) of
       None \<Rightarrow> Some (m, False)
     | Some idx \<Rightarrow>
         if \<not> workspace_is_closable idx m then Some (m, False)
         else Option.bind (vec_remove idx (mn_workspaces m)) (\<lambda>(_, wss).
                map_option (\<lambda>m1. (m1, True)) (clean_up_workspaces (m\<lparr>mn_switch := None, mn_workspaces := wss,
                  mn_active := (if idx < mn_active m then mn_active m - 1 else mn_active m)\<rparr>))))"

definition unname_workspace :: "nat \<Rightarrow> monitor \<Rightarrow> (monitor \<times> bool) option" where
  "unname_workspace i m = (case ws_idx i (mn_workspaces m) of
       None \<Rightarrow> Some (m, False)
     | Some idx \<Rightarrow>
         (let m1 = m\<lparr>mn_workspaces := (mn_workspaces m)[idx := unname (mn_workspaces m ! idx)]\<rparr> in
          if mn_switch m1 = None then map_option (\<lambda>m2. (m2, True)) (clean_up_workspaces m1) else Some (m1, True)))"

definition remove_workspace_by_idx :: "nat \<Rightarrow> monitor \<Rightarrow> (workspace \<times> monitor) option" where
  "remove_workspace_by_idx idx m =
     (if mn_workspaces m = [] then None
      else Option.bind (if idx = length (mn_workspaces m) - 1 then add_workspace_bottom m else Some m) (\<lambda>m1.
           Option.bind (vec_remove idx (mn_workspaces m1)) (\<lambda>(ws, wss).
           map_option (\<lambda>m2. (set_output None ws, m2))
             (clean_up_workspaces (m1\<lparr>mn_workspaces := wss, mn_switch := None,
                mn_active := (if idx \<le> mn_active m1 \<and> 0 < mn_active m1 then mn_active m1 - 1 else mn_active m1)\<rparr>)))))"

definition insert_workspace :: "workspace \<Rightarrow> nat \<Rightarrow> bool \<Rightarrow> monitor \<Rightarrow> monitor option" where
  "insert_workspace ws idx activate m =
     (if mn_workspaces m = [] \<and> idx = 0 then None
      else let i = (if idx = length (mn_workspaces m) then idx - 1 else idx) in
        Option.bind (vec_insert i (set_output (Some (mn_output m)) ws) (mn_workspaces m)) (\<lambda>wss.
          let m1 = m\<lparr>mn_workspaces := wss, mn_active := (if i \<le> mn_active m then mn_active m + 1 else mn_active m)\<rparr> in
          Option.bind (if activate then activate_workspace i (m1\<lparr>mn_switch := None\<rparr>) else Some m1) (\<lambda>m2.
          clean_up_workspaces (m2\<lparr>mn_switch := None\<rparr>))))"

definition append_workspaces :: "workspace list \<Rightarrow> monitor \<Rightarrow> monitor option" where
  "append_workspaces others m =
     (if others = [] then Some m
      else if mn_workspaces m = [] then None
      else let wss = butlast (mn_workspaces m) @ map (set_output (Some (mn_output m))) others @ [last (mn_workspaces m)]
           in clean_up_workspaces (m\<lparr>mn_workspaces := wss, mn_switch := None,
                mn_active := (if mn_active m = length (mn_workspaces m) - 1 then length wss - 1 else mn_active m)\<rparr>))"

text \<open>The active workspace swaps places with a neighbour. The previous workspace stays the one it was.\<close>

definition swap_at :: "nat \<Rightarrow> nat \<Rightarrow> 'a list \<Rightarrow> 'a list" where
  "swap_at i j xs = xs[i := xs ! j, j := xs ! i]"

definition move_active_workspace :: "nat \<Rightarrow> bool \<Rightarrow> monitor \<Rightarrow> monitor option" where
  "move_active_workspace new_idx into_last m =
     (if new_idx = mn_active m then Some m
      else if length (mn_workspaces m) \<le> max new_idx (mn_active m) then None
      else let m1 = m\<lparr>mn_workspaces := swap_at (mn_active m) new_idx (mn_workspaces m)\<rparr> in
           Option.bind (if into_last then add_workspace_bottom m1 else Some m1) (\<lambda>m2.
           Option.bind (activate_workspace new_idx m2) (\<lambda>m3.
           clean_up_workspaces (m3\<lparr>mn_switch := None, mn_previous := mn_previous m\<rparr>))))"

definition move_workspace_down :: "monitor \<Rightarrow> monitor option" where
  "move_workspace_down m =
     (let new_idx = min (mn_active m + 1) (length (mn_workspaces m) - 1)
      in move_active_workspace new_idx (new_idx = length (mn_workspaces m) - 1) m)"

definition move_workspace_up :: "monitor \<Rightarrow> monitor option" where
  "move_workspace_up m = move_active_workspace (mn_active m - 1) (mn_active m = length (mn_workspaces m) - 1) m"

definition move_workspace_to_idx :: "nat \<Rightarrow> nat \<Rightarrow> monitor \<Rightarrow> monitor option" where
  "move_workspace_to_idx old_idx to_idx m =
     (if length (mn_workspaces m) \<le> old_idx then Some m
      else let new_idx = min to_idx (length (mn_workspaces m) - 1) in
        if old_idx = new_idx then Some m
        else Option.bind (vec_remove old_idx (mn_workspaces m)) (\<lambda>(ws, rest).
             Option.bind (vec_insert new_idx ws rest) (\<lambda>wss.
             let m1 = m\<lparr>mn_workspaces := wss\<rparr> in
             Option.bind (if max new_idx old_idx = length wss - 1 then add_workspace_bottom m1 else Some m1) (\<lambda>m2.
             let active = mn_active m2 in
             clean_up_workspaces (m2\<lparr>mn_switch := None,
               mn_active := (if active = old_idx then new_idx
                             else if new_idx \<le> active \<and> active < old_idx then active + 1
                             else if active \<le> new_idx \<and> old_idx < active then active - 1 else active)\<rparr>)))))"

text \<open>Empties a carried workspace left behind are shed down to the count before; each round removes
  one, so the length of the strip is fuel enough (\<open>shed_ok\<close>).\<close>

definition sheddable :: "workspace list \<Rightarrow> nat option" where
  "sheddable wss = find (\<lambda>i. \<not> has_windows_or_name (wss ! i)) (rev [0..<length wss - 1])"

fun shed_within :: "nat \<Rightarrow> nat \<Rightarrow> monitor \<Rightarrow> monitor option" where
  "shed_within 0 n m = None"
| "shed_within (Suc fuel) n m =
     (if length (mn_workspaces m) \<le> max n MIN_NUM_WORKSPACES then Some m
      else case sheddable (mn_workspaces m) of
        None \<Rightarrow> Some m
      | Some idx \<Rightarrow> Option.bind (remove_workspace_by_idx idx m) (\<lambda>(_, m1). shed_within fuel n m1))"

definition shed_carry_padding_to :: "nat \<Rightarrow> monitor \<Rightarrow> monitor option" where
  "shed_carry_padding_to n m = shed_within (length (mn_workspaces m)) n m"

definition rehome_workspace :: "nat \<Rightarrow> monitor \<Rightarrow> monitor" where
  "rehome_workspace idx m =
     stamp_home_ordinals (if idx < length (mn_workspaces m)
       then m\<lparr>mn_workspaces := (mn_workspaces m)[idx := (mn_workspaces m ! idx)\<lparr>ws_home := mn_output m\<rparr>]\<rparr> else m)"

end
