(* ===== verification/Strip_Invariants.thy ===== *)
theory Strip_Invariants
  imports Strips
begin

text \<open>
  What the strip's operations keep: at least two workspaces, the last one empty and unnamed, an active
  workspace that exists, distinct workspaces, well-ordered stacks, and every window in exactly one
  place. Growth is described once (\<open>grows\<close>): clean-up only appends new empty workspaces and renumbers
  the home ordinals.
\<close>

section \<open>Up to ordinals\<close>

definition ws_core :: "workspace \<Rightarrow> workspace" where
  "ws_core ws = ws\<lparr>ws_home_ordinal := 0\<rparr>"

lemma ws_core_simps [simp]:
  "ws_id (ws_core ws) = ws_id ws" "ws_name (ws_core ws) = ws_name ws" "ws_floating (ws_core ws) = ws_floating ws"
  "ws_floating_is_active (ws_core ws) = ws_floating_is_active ws" "ws_minimized (ws_core ws) = ws_minimized ws"
  "ws_output (ws_core ws) = ws_output ws" "ws_home (ws_core ws) = ws_home ws"
  "ws_core (ws\<lparr>ws_home_ordinal := n\<rparr>) = ws_core ws"
  by (simp_all add: ws_core_def)

lemma ids_core [simp]: "ws_id \<circ> ws_core = ws_id"
  by auto

lemma core_tiles [simp]: "ws_tiles (ws_core ws) = ws_tiles ws"
  by (simp add: ws_tiles_def)

lemma core_ok [simp]: "ws_ok (ws_core ws) = ws_ok ws"
  by (simp add: ws_ok_def)

lemma core_has_windows [simp]: "has_windows_or_name (ws_core ws) = has_windows_or_name ws"
  by (simp add: has_windows_or_name_def has_windows_def)

lemma stamp_own_core: "map ws_core (stamp_own out rank wss) = map ws_core wss"
  by (induction out rank wss rule: stamp_own.induct) auto

lemma fold_ordinals_core:
  "map ws_core (fold (\<lambda>(j, slot) w. w[j := (w ! j)\<lparr>ws_home_ordinal := slot\<rparr>]) ps wss) = map ws_core wss"
proof (induction ps arbitrary: wss)
  case (Cons p ps)
  obtain j slot where p: "p = (j, slot)" by (cases p)
  have "map ws_core (wss[j := (wss ! j)\<lparr>ws_home_ordinal := slot\<rparr>]) = map ws_core wss"
    by (cases "j < length wss") (simp_all add: map_update list_update_same_conv list_update_beyond)
  then show ?case using Cons.IH p by simp
qed simp

lemma stamp_visitors_core: "map ws_core (stamp_visitors is done wss) = map ws_core wss"
  by (induction "is" "done" wss rule: stamp_visitors.induct) (auto simp: Let_def fold_ordinals_core)

lemma stamp_core [simp]: "map ws_core (mn_workspaces (stamp_home_ordinals m)) = map ws_core (mn_workspaces m)"
  by (simp add: stamp_home_ordinals_def stamp_ordinals_def Let_def stamp_visitors_core stamp_own_core)

lemma stamp_rest [simp]:
  "mn_output (stamp_home_ordinals m) = mn_output m" "mn_active (stamp_home_ordinals m) = mn_active m"
  "mn_previous (stamp_home_ordinals m) = mn_previous m" "mn_switch (stamp_home_ordinals m) = mn_switch m"
  "mn_next (stamp_home_ordinals m) = mn_next m"
  by (simp_all add: stamp_home_ordinals_def)

section \<open>The invariant\<close>

definition all_tiles :: "workspace list \<Rightarrow> tile list" where
  "all_tiles wss = concat (map ws_tiles wss)"

definition wss_ok :: "output_identity \<Rightarrow> nat \<Rightarrow> workspace list \<Rightarrow> bool" where
  "wss_ok out next wss \<longleftrightarrow> (\<forall>ws \<in> set wss. ws_ok ws \<and> ws_id ws < next \<and> ws_output ws = Some out) \<and>
     distinct (map ws_id wss) \<and> wins_ok (map wkey (all_tiles wss))"

definition strip_base :: "monitor \<Rightarrow> bool" where
  "strip_base m \<longleftrightarrow> wss_ok (mn_output m) (mn_next m) (mn_workspaces m) \<and> mn_active m < length (mn_workspaces m)"

definition strip_ok :: "monitor \<Rightarrow> bool" where
  "strip_ok m \<longleftrightarrow> strip_base m \<and> MIN_NUM_WORKSPACES \<le> length (mn_workspaces m) \<and> \<not> lacks_trailing_empty (mn_workspaces m)"

lemma all_tiles_core: "all_tiles (map ws_core wss) = all_tiles wss"
  by (simp add: all_tiles_def comp_def)

lemma all_tiles_eq: "map ws_core wss = map ws_core wss' \<Longrightarrow> all_tiles wss = all_tiles wss'"
  using all_tiles_core by metis

lemma wss_ok_core: "wss_ok out next (map ws_core wss) = wss_ok out next wss"
proof -
  have "map ws_id (map ws_core wss) = map ws_id wss" by simp
  then show ?thesis unfolding wss_ok_def all_tiles_core by simp
qed

lemma lacks_core: "lacks_trailing_empty (map ws_core wss) = lacks_trailing_empty wss"
  by (cases "wss = []") (simp_all add: lacks_trailing_empty_def last_map)

lemma core_append:
  assumes "map ws_core wss' = map ws_core wss @ map ws_core news"
  shows "all_tiles wss' = all_tiles wss @ all_tiles news"
    and "map ws_id wss' = map ws_id wss @ map ws_id news"
    and "length wss' = length wss + length news"
proof -
  have e: "map ws_core wss' = map ws_core (wss @ news)" using assms by simp
  then show "all_tiles wss' = all_tiles wss @ all_tiles news" using all_tiles_eq [OF e] by (simp add: all_tiles_def)
  have "map ws_id wss' = map ws_id (map ws_core wss')" by simp
  also have "\<dots> = map ws_id wss @ map ws_id news" unfolding e by simp
  finally show "map ws_id wss' = map ws_id wss @ map ws_id news" .
  show "length wss' = length wss + length news" using arg_cong [OF assms, of length] by simp
qed

section \<open>Growth\<close>

definition fresh_ws :: "output_identity \<Rightarrow> nat \<Rightarrow> nat \<Rightarrow> workspace list" where
  "fresh_ws out next n = map (\<lambda>k. new_workspace out (next + k)) [0..<n]"

definition grows :: "nat \<Rightarrow> monitor \<Rightarrow> monitor \<Rightarrow> bool" where
  "grows n m m' \<longleftrightarrow> mn_output m' = mn_output m \<and> mn_active m' = mn_active m \<and> mn_previous m' = mn_previous m \<and>
     mn_switch m' = mn_switch m \<and> mn_next m' = mn_next m + n \<and>
     map ws_core (mn_workspaces m') = map ws_core (mn_workspaces m) @ map ws_core (fresh_ws (mn_output m) (mn_next m) n)"

lemma upt_shift: "[a..<a + b] = map ((+) a) [0..<b]"
  by (induction b) auto

lemma fresh_ws_add: "fresh_ws out next (a + b) = fresh_ws out next a @ fresh_ws out (next + a) b"
proof -
  have "[0..<a + b] = [0..<a] @ map ((+) a) [0..<b]" by (simp add: upt_add_eq_append [of 0 a b, simplified] upt_shift)
  then show ?thesis by (simp add: fresh_ws_def add.assoc)
qed

lemma grows_trans: "grows a m m1 \<Longrightarrow> grows b m1 m2 \<Longrightarrow> grows (a + b) m m2"
  by (auto simp: grows_def fresh_ws_add)

lemma grows_stamp: "grows n m m' \<Longrightarrow> grows n m (stamp_home_ordinals m')"
  by (simp add: grows_def)

lemma grows_refl: "grows 0 m m"
  by (simp add: grows_def fresh_ws_def)

lemma fresh_ws_empty: "all_tiles (fresh_ws out next n) = []"
  by (simp add: all_tiles_def fresh_ws_def)

lemma ids_fresh: "map ws_id (fresh_ws out next n) = [next..<next + n]"
proof -
  have "map ws_id (fresh_ws out next n) = map ((+) next) [0..<n]" by (simp add: fresh_ws_def new_workspace_def)
  then show ?thesis by (simp add: upt_shift)
qed

lemma grows_map:
  "grows n m m' \<Longrightarrow>
     map ws_core (mn_workspaces m') = map ws_core (mn_workspaces m) @ map ws_core (fresh_ws (mn_output m) (mn_next m) n)"
  by (simp only: grows_def)

lemma grows_tiles: "grows n m m' \<Longrightarrow> all_tiles (mn_workspaces m') = all_tiles (mn_workspaces m)"
  using core_append(1) [OF grows_map, of n m m'] by (simp add: fresh_ws_empty)

lemma grows_length: "grows n m m' \<Longrightarrow> length (mn_workspaces m') = length (mn_workspaces m) + n"
  using core_append(3) [OF grows_map, of n m m'] by (simp add: fresh_ws_def)

lemma grows_ids: "grows n m m' \<Longrightarrow> map ws_id (mn_workspaces m') = map ws_id (mn_workspaces m) @ [mn_next m..<mn_next m + n]"
  using core_append(2) [OF grows_map, of n m m'] by (simp add: ids_fresh)

lemma wss_ok_append_fresh:
  assumes "wss_ok out next wss"
  shows "wss_ok out (next + n) (wss @ fresh_ws out next n)"
proof -
  have "distinct (map ws_id (wss @ fresh_ws out next n))"
    using assms by (auto simp: wss_ok_def ids_fresh)
  moreover have "all_tiles (wss @ fresh_ws out next n) = all_tiles wss"
    using fresh_ws_empty by (simp add: all_tiles_def)
  moreover have "ws_ok ws \<and> ws_id ws < next + n \<and> ws_output ws = Some out" if f: "ws \<in> set (fresh_ws out next n)" for ws
  proof -
    obtain k where "ws = new_workspace out (next + k)" "k < n" using f by (auto simp: fresh_ws_def)
    then show ?thesis by (simp add: ws_ok_new(1)) (simp add: new_workspace_def)
  qed
  moreover have "ws_id ws < next + n" if "ws \<in> set wss" for ws using assms that by (auto simp: wss_ok_def)
  ultimately show ?thesis using assms unfolding wss_ok_def set_append ball_Un by simp
qed

lemma grows_base:
  assumes "grows n m m'" and "strip_base m"
  shows "strip_base m'"
proof -
  have "wss_ok (mn_output m) (mn_next m + n) (mn_workspaces m @ fresh_ws (mn_output m) (mn_next m) n)"
    using assms(2) by (intro wss_ok_append_fresh) (simp add: strip_base_def)
  then have "wss_ok (mn_output m) (mn_next m + n) (map ws_core (mn_workspaces m'))"
    using assms(1) wss_ok_core [of _ _ "mn_workspaces m @ fresh_ws (mn_output m) (mn_next m) n"] by (simp add: grows_def)
  then show ?thesis using assms grows_length [OF assms(1)] by (simp add: strip_base_def wss_ok_core grows_def)
qed

lemma grows_trailing:
  assumes "grows n m m'" and "\<not> lacks_trailing_empty (mn_workspaces m) \<or> 0 < n"
  shows "\<not> lacks_trailing_empty (mn_workspaces m')"
proof -
  let ?f = "fresh_ws (mn_output m) (mn_next m) n"
  have "lacks_trailing_empty (mn_workspaces m') = lacks_trailing_empty (mn_workspaces m @ ?f)"
    using assms(1) lacks_core [of "mn_workspaces m'"] lacks_core [of "mn_workspaces m @ ?f"] by (simp add: grows_def)
  moreover have "?f = [] \<longleftrightarrow> n = 0" by (simp add: fresh_ws_def)
  moreover have "\<not> has_windows_or_name (last ?f)" if "?f \<noteq> []"
  proof -
    have "last ?f \<in> set ?f" using that by simp
    then show ?thesis by (auto simp: fresh_ws_def has_windows_or_name_def has_windows_def) (simp add: new_workspace_def)
  qed
  ultimately show ?thesis using assms(2) by (auto simp: lacks_trailing_empty_def)
qed

lemma add_bottom_grows:
  assumes "mn_active m < length (mn_workspaces m)"
  shows "\<exists>m'. add_workspace_bottom m = Some m' \<and> grows 1 m m'"
  using assms by (simp add: add_workspace_bottom_def add_workspace_at_def vec_insert_def grows_def fresh_ws_def)

lemma grow_by_grows:
  "mn_active m < length (mn_workspaces m) \<Longrightarrow> \<exists>m'. grow_by n m = Some m' \<and> grows n m m'"
proof (induction n arbitrary: m)
  case 0
  then show ?case by (simp add: grows_refl)
next
  case (Suc n)
  obtain m1 where m1: "add_workspace_bottom m = Some m1" "grows 1 m m1" using add_bottom_grows [OF Suc.prems] by blast
  have "mn_active m1 < length (mn_workspaces m1)" using Suc.prems m1(2) grows_length [OF m1(2)] by (simp add: grows_def)
  then obtain m2 where "grow_by n m1 = Some m2" "grows n m1 m2" using Suc.IH by blast
  then show ?case using m1 grows_trans [OF m1(2)] by fastforce
qed

lemma clean_up_ok:
  assumes base: "strip_base m" and sw: "mn_switch m = None"
  shows "\<exists>m' n. clean_up_workspaces m = Some m' \<and> grows n m m' \<and> strip_ok m'"
proof -
  have act: "mn_active m < length (mn_workspaces m)" using base by (simp add: strip_base_def)
  obtain m1 a where m1: "(if lacks_trailing_empty (mn_workspaces m) then add_workspace_bottom m else Some m) = Some m1"
    "grows a m m1" "\<not> lacks_trailing_empty (mn_workspaces m1)"
  proof (cases "lacks_trailing_empty (mn_workspaces m)")
    case True
    obtain m1 where "add_workspace_bottom m = Some m1" "grows 1 m m1" using add_bottom_grows [OF act] by blast
    then show ?thesis using that [of m1 1] True grows_trailing by fastforce
  next
    case False
    then show ?thesis using that [of m 0] grows_refl by simp
  qed
  define k where "k = MIN_NUM_WORKSPACES - length (mn_workspaces m1)"
  have "mn_active m1 < length (mn_workspaces m1)" using act m1(2) grows_length [OF m1(2)] by (simp add: grows_def)
  then obtain m2 where m2: "grow_by k m1 = Some m2" "grows k m1 m2" using grow_by_grows by blast
  have g: "grows (a + k) m (stamp_home_ordinals m2)" using grows_stamp [OF grows_trans [OF m1(2) m2(2)]] .
  have "MIN_NUM_WORKSPACES \<le> length (mn_workspaces (stamp_home_ordinals m2))"
    using grows_length [OF g] grows_length [OF m1(2)] by (simp add: k_def)
  moreover have "\<not> lacks_trailing_empty (mn_workspaces (stamp_home_ordinals m2))"
    using grows_trailing [OF grows_stamp [OF m2(2)]] m1(3) by blast
  ultimately have "strip_ok (stamp_home_ordinals m2)" using grows_base [OF g base] by (simp add: strip_ok_def)
  then show ?thesis using g sw m1(1) m2(1) by (auto simp: clean_up_workspaces_def k_def)
qed

section \<open>Changing one workspace\<close>

lemma all_tiles_update:
  "idx < length wss \<Longrightarrow> mset (all_tiles (wss[idx := w])) + mset (ws_tiles (wss ! idx)) = mset (all_tiles wss) + mset (ws_tiles w)"
  by (induction wss arbitrary: idx) (auto simp: all_tiles_def nth_Cons split: nat.split)

lemma ws_tiles_sub: "idx < length wss \<Longrightarrow> mset (ws_tiles (wss ! idx)) \<subseteq># mset (all_tiles wss)"
proof (induction wss arbitrary: idx)
  case (Cons w wss)
  then show ?case by (cases idx) (auto simp: all_tiles_def intro: subset_mset.add_increasing)
qed simp

lemma map_update_same: "idx < length xs \<Longrightarrow> f y = f (xs ! idx) \<Longrightarrow> map f (xs[idx := y]) = map f xs"
  by (simp add: map_update list_update_same_conv)

lemma wss_ok_update:
  assumes "wss_ok out next wss" and "idx < length wss" and "ws_ok w" and "ws_id w = ws_id (wss ! idx)"
    and "ws_output w = Some out" and "wins_ok (map wkey (all_tiles (wss[idx := w])))"
  shows "wss_ok out next (wss[idx := w])"
proof -
  have "map ws_id (wss[idx := w]) = map ws_id wss" using assms(2,4) by (rule map_update_same)
  moreover have "ws_id (wss ! idx) < next" using assms(1,2) by (auto simp: wss_ok_def)
  ultimately show ?thesis using assms set_update_subset_insert [of wss idx w] by (auto simp: wss_ok_def)
qed

lemma ws_in_strip:
  assumes "wss_ok out next wss" and "idx < length wss"
  shows "ws_ok (wss ! idx)" and "ws_output (wss ! idx) = Some out" and "wins_ok (map wkey (ws_tiles (wss ! idx)))"
proof -
  show "ws_ok (wss ! idx)" "ws_output (wss ! idx) = Some out" using assms by (auto simp: wss_ok_def)
  have "mset (map wkey (ws_tiles (wss ! idx))) \<subseteq># mset (map wkey (all_tiles wss))"
    using ws_tiles_sub [OF assms(2)] by (simp add: image_mset_subseteq_mono)
  then show "wins_ok (map wkey (ws_tiles (wss ! idx)))" using assms(1) wins_ok_subset_mset by (auto simp: wss_ok_def)
qed

lemma trailing_update:
  assumes "\<not> lacks_trailing_empty wss" and "idx < length wss"
    and "idx = length wss - 1 \<Longrightarrow> \<not> has_windows_or_name w"
  shows "\<not> lacks_trailing_empty (wss[idx := w])"
proof -
  have "last (wss[idx := w]) = (if idx = length wss - 1 then w else last wss)"
    using assms(2) last_list_update [of wss idx w] by (cases "wss = []") auto
  then show ?thesis using assms by (auto simp: lacks_trailing_empty_def)
qed

text \<open>A change that keeps the windows of the workspace.\<close>

lemma strip_put_same:
  assumes ok: "strip_ok m" and i: "idx < length (mn_workspaces m)" and w: "ws_ok w" "ws_meta w = ws_meta (mn_workspaces m ! idx)"
    and k: "mset (map wkey (ws_tiles w)) = mset (map wkey (ws_tiles (mn_workspaces m ! idx)))"
  defines "m' \<equiv> m\<lparr>mn_workspaces := (mn_workspaces m)[idx := w]\<rparr>"
  shows "strip_ok m'" and "mset (map wkey (all_tiles (mn_workspaces m'))) = mset (map wkey (all_tiles (mn_workspaces m)))"
proof -
  let ?wss = "mn_workspaces m"
  have b: "wss_ok (mn_output m) (mn_next m) ?wss" using ok by (simp add: strip_ok_def strip_base_def)
  have id: "ws_id w = ws_id (?wss ! idx)" "ws_name w = ws_name (?wss ! idx)" "ws_output w = ws_output (?wss ! idx)"
    using w(2) by (simp_all add: ws_meta_def)
  show keys: "mset (map wkey (all_tiles (mn_workspaces m'))) = mset (map wkey (all_tiles ?wss))"
    using arg_cong [OF all_tiles_update [OF i, of w], of "image_mset wkey"] k by (simp add: m'_def)
  have wins: "wins_ok (map wkey (all_tiles (?wss[idx := w])))"
    using wins_ok_mset [OF keys] b by (simp add: m'_def wss_ok_def)
  have "wss_ok (mn_output m) (mn_next m) (?wss[idx := w])"
    using ws_in_strip [OF b i] id w(1) by (intro wss_ok_update [OF b i _ _ _ wins]) auto
  moreover have "\<not> lacks_trailing_empty (?wss[idx := w])"
  proof (rule trailing_update [OF _ i])
    show l: "\<not> lacks_trailing_empty ?wss" using ok by (simp add: strip_ok_def)
    assume "idx = length ?wss - 1"
    then have "\<not> has_windows_or_name (?wss ! idx)" using l by (auto simp: lacks_trailing_empty_def last_conv_nth)
    moreover have "ws_tiles w = [] \<longleftrightarrow> ws_tiles (?wss ! idx) = []" using arg_cong [OF k, of size] by simp (metis length_0_conv)
    ultimately show "\<not> has_windows_or_name w" using id by (simp add: has_windows_or_name_def has_windows_def)
  qed
  ultimately show "strip_ok m'" using ok i by (simp add: strip_ok_def strip_base_def m'_def)
qed

text \<open>A window less.\<close>

lemma strip_put_less:
  assumes ok: "strip_ok m" and i: "idx < length (mn_workspaces m)" and w: "ws_ok w" "ws_meta w = ws_meta (mn_workspaces m ! idx)"
    and t: "mset (ws_tiles (mn_workspaces m ! idx)) = add_mset t (mset (ws_tiles w))"
  defines "m' \<equiv> m\<lparr>mn_workspaces := (mn_workspaces m)[idx := w]\<rparr>"
  shows "strip_ok m'" and "mset (all_tiles (mn_workspaces m)) = add_mset t (mset (all_tiles (mn_workspaces m')))"
proof -
  let ?wss = "mn_workspaces m"
  have b: "wss_ok (mn_output m) (mn_next m) ?wss" using ok by (simp add: strip_ok_def strip_base_def)
  show tiles: "mset (all_tiles ?wss) = add_mset t (mset (all_tiles (mn_workspaces m')))"
    using all_tiles_update [OF i, of w] t by (simp add: m'_def)
  then have "mset (map wkey (all_tiles ?wss)) = add_mset (wkey t) (mset (map wkey (all_tiles (mn_workspaces m'))))" by simp
  then have "mset (map wkey (all_tiles (mn_workspaces m'))) \<subseteq># mset (map wkey (all_tiles ?wss))" by (metis add_mset_add_single mset_subset_eq_add_left)
  then have wins: "wins_ok (map wkey (all_tiles (?wss[idx := w])))"
    using b wins_ok_subset_mset by (auto simp: m'_def wss_ok_def)
  have "wss_ok (mn_output m) (mn_next m) (?wss[idx := w])"
    using ws_in_strip [OF b i] w by (intro wss_ok_update [OF b i _ _ _ wins]) (auto simp: ws_meta_def)
  moreover have "\<not> lacks_trailing_empty (?wss[idx := w])"
  proof (rule trailing_update [OF _ i])
    show l: "\<not> lacks_trailing_empty ?wss" using ok by (simp add: strip_ok_def)
    assume "idx = length ?wss - 1"
    then have "ws_tiles (?wss ! idx) = []"
      using l by (auto simp: lacks_trailing_empty_def last_conv_nth has_windows_or_name_def has_windows_def)
    then show "\<not> has_windows_or_name w" using t by simp
  qed
  ultimately show "strip_ok m'" using ok i by (simp add: strip_ok_def strip_base_def m'_def)
qed

section \<open>Placing a window\<close>

definition keeps :: "monitor \<Rightarrow> monitor \<Rightarrow> bool" where
  "keeps m m' \<longleftrightarrow> strip_ok m' \<and> mn_output m' = mn_output m \<and>
     mset (map wkey (all_tiles (mn_workspaces m'))) = mset (map wkey (all_tiles (mn_workspaces m))) \<and>
     (\<exists>ids. map ws_id (mn_workspaces m') = map ws_id (mn_workspaces m) @ ids)"

lemma keeps_refl: "strip_ok m \<Longrightarrow> keeps m m"
  by (simp add: keeps_def)

lemma keeps_trans: "keeps m m1 \<Longrightarrow> keeps m1 m2 \<Longrightarrow> keeps m m2"
  by (auto simp: keeps_def)

lemma keeps_grows: "strip_ok m' \<Longrightarrow> grows n m m' \<Longrightarrow> keeps m m'"
  using grows_tiles grows_ids by (fastforce simp: keeps_def grows_def)

lemma keeps_length: "keeps m m' \<Longrightarrow> length (mn_workspaces m) \<le> length (mn_workspaces m')"
  by (auto simp: keeps_def dest: arg_cong [where f = length])

lemma keeps_id_at:
  assumes "keeps m m'" and "idx < length (mn_workspaces m)"
  shows "ws_id (mn_workspaces m' ! idx) = ws_id (mn_workspaces m ! idx)"
proof -
  obtain ids where "map ws_id (mn_workspaces m') = map ws_id (mn_workspaces m) @ ids" using assms(1) by (auto simp: keeps_def)
  from arg_cong [OF this, of "\<lambda>xs. xs ! idx"] show ?thesis
    using assms keeps_length [OF assms(1)] by (simp add: nth_append)
qed

lemma strip_ok_bits:
  "strip_ok m \<Longrightarrow> mn_active m < length (mn_workspaces m) \<and> mn_workspaces m \<noteq> [] \<and>
     wss_ok (mn_output m) (mn_next m) (mn_workspaces m)"
  by (auto simp: strip_ok_def strip_base_def)

lemma strip_ok_fields [simp]:
  "strip_ok (m\<lparr>mn_previous := p\<rparr>) = strip_ok m" "strip_ok (m\<lparr>mn_switch := s\<rparr>) = strip_ok m"
  "mn_active m < length (mn_workspaces m) \<Longrightarrow> strip_ok (m\<lparr>mn_active := a\<rparr>) = (strip_ok m \<and> a < length (mn_workspaces m))"
  by (auto simp: strip_ok_def strip_base_def)

lemma adopt_home_ok:
  "ws_ok (adopt_home out ws) = ws_ok ws" "ws_tiles (adopt_home out ws) = ws_tiles ws" "ws_id (adopt_home out ws) = ws_id ws"
  "ws_name (adopt_home out ws) = ws_name ws" "ws_output (adopt_home out ws) = ws_output ws"
  "ws_floating (adopt_home out ws) = ws_floating ws"
  by (simp_all add: adopt_home_def ws_ok_def ws_tiles_def)

text \<open>The tile is placed, and a new empty workspace is added if it went to the last.\<close>

lemma place_quiet:
  assumes ok: "strip_ok m" and wins: "wins_ok (map wkey (t # all_tiles (mn_workspaces m)))"
    and res: "resolve_add_window_target target m = Some (idx, to)" and idx: "idx < length (mn_workspaces m)"
    and col: "to = ToNewColumn \<Longrightarrow> activate = ActYes"
  shows "\<exists>m2 ws n. add_tile_with (\<lambda>_ m1. Some m1) t target activate allow m = Some m2 \<and> strip_ok m2 \<and>
    grows n (m\<lparr>mn_workspaces := (mn_workspaces m)[idx := ws]\<rparr>) m2 \<and> ws_id ws = ws_id (mn_workspaces m ! idx) \<and>
    mset (ws_tiles ws) = add_mset t (mset (ws_tiles (mn_workspaces m ! idx))) \<and>
    mset (st_tiles (ws_floating ws)) = add_mset t (mset (st_tiles (ws_floating (mn_workspaces m ! idx))))"
proof -
  let ?wss = "mn_workspaces m"
  note b = strip_ok_bits [OF ok]
  have wb: "wss_ok (mn_output m) (mn_next m) ?wss" using b by simp
  note w0 = ws_in_strip [OF wb idx]
  have "mset (t # ws_tiles (?wss ! idx)) \<subseteq># mset (t # all_tiles ?wss)" using ws_tiles_sub [OF idx] by simp
  then have "mset (map wkey (t # ws_tiles (?wss ! idx))) \<subseteq># mset (map wkey (t # all_tiles ?wss))"
    by (simp only: mset_map image_mset_subseteq_mono)
  then have wins1: "wins_ok (map wkey (t # ws_tiles (?wss ! idx)))" using wins_ok_subset_mset [OF wins] by blast
  obtain fl where a: "ws_add_tile t to activate (?wss ! idx)
      = Some ((?wss ! idx)\<lparr>ws_floating := fl, ws_floating_is_active := ActiveYes\<rparr>)" "stack_ok fl"
    "mset (st_tiles fl) = add_mset t (mset (st_tiles (ws_floating (?wss ! idx))))"
    using ws_add_ok [OF w0(1) wins1 col] by blast
  define ws0 ws where "ws0 = (?wss ! idx)\<lparr>ws_floating := fl, ws_floating_is_active := ActiveYes\<rparr>"
    and "ws = (if ws_name ws0 = None then adopt_home (mn_output m) ws0 else ws0)"
  have st: "st_tiles fl \<noteq> []" using a(3) by auto
  have "ws_ok ws0" "ws_id ws0 = ws_id (?wss ! idx)" "ws_output ws0 = Some (mn_output m)"
    "mset (ws_tiles ws0) = add_mset t (mset (ws_tiles (?wss ! idx)))"
    "mset (st_tiles (ws_floating ws0)) = add_mset t (mset (st_tiles (ws_floating (?wss ! idx))))"
    using a(2,3) st w0(2) by (auto simp: ws0_def ws_ok_def ws_tiles_def)
  then have ws: "ws_ok ws" "ws_id ws = ws_id (?wss ! idx)" "ws_output ws = Some (mn_output m)"
    "mset (ws_tiles ws) = add_mset t (mset (ws_tiles (?wss ! idx)))"
    "mset (st_tiles (ws_floating ws)) = add_mset t (mset (st_tiles (ws_floating (?wss ! idx))))"
    by (simp_all add: ws_def adopt_home_ok)
  define m1 where "m1 = m\<lparr>mn_workspaces := ?wss[idx := ws]\<rparr>"
  have tiles: "mset (all_tiles (?wss[idx := ws])) = add_mset t (mset (all_tiles ?wss))"
    using all_tiles_update [OF idx, of ws] ws(4) by simp
  then have "mset (map wkey (all_tiles (?wss[idx := ws]))) = mset (map wkey (t # all_tiles ?wss))" by simp
  then have "wins_ok (map wkey (all_tiles (?wss[idx := ws])))" using wins wins_ok_mset by blast
  then have base: "strip_base m1" using wss_ok_update [OF wb idx ws(1,2,3)] b by (simp add: strip_base_def m1_def)
  have add: "add_tile_with (\<lambda>_ m1. Some m1) t target activate allow m
      = (if idx = length ?wss - 1 then add_workspace_bottom m1 else Some m1)"
    using res idx a(1) by (auto simp: add_tile_with_def Let_def m1_def ws_def ws0_def split: bind_splits)
  show ?thesis
  proof (cases "idx = length ?wss - 1")
    case True
    obtain m2 where m2: "add_workspace_bottom m1 = Some m2" "grows 1 m1 m2"
      using add_bottom_grows [of m1] base by (auto simp: strip_base_def)
    have "strip_ok m2" using grows_base [OF m2(2) base] grows_length [OF m2(2)] grows_trailing [OF m2(2)] ok
      by (simp add: strip_ok_def m1_def)
    then show ?thesis using add True m2 ws by (auto simp: m1_def)
  next
    case False
    have "\<not> lacks_trailing_empty (?wss[idx := ws])"
      by (rule trailing_update) (use ok idx False in \<open>auto simp: strip_ok_def\<close>)
    then have "strip_ok m1" using base ok by (simp add: strip_ok_def m1_def)
    then show ?thesis using add False grows_refl [of m1] ws by (auto simp: m1_def)
  qed
qed

lemma add_tile_with_act:
  "add_tile_with act t target a allow m =
     Option.bind (resolve_add_window_target target m) (\<lambda>(idx, to).
     Option.bind (add_tile_with (\<lambda>_ m1. Some m1) t target a allow m) (\<lambda>m2.
       if allow \<and> map_smart a False then act idx m2 else Some m2))"
proof (cases "resolve_add_window_target target m")
  case (Some r)
  obtain idx to where r: "r = (idx, to)" by (cases r)
  show ?thesis
    unfolding add_tile_with_def Some r Let_def
    by (cases "length (mn_workspaces m) \<le> idx"; cases "ws_add_tile t to a (mn_workspaces m ! idx)") simp_all
qed (simp add: add_tile_with_def)

lemma quiet_place_facts:
  assumes g: "grows n (m\<lparr>mn_workspaces := (mn_workspaces m)[idx := ws]\<rparr>) m2" and idx: "idx < length (mn_workspaces m)"
    and ws: "ws_id ws = ws_id (mn_workspaces m ! idx)" "mset (ws_tiles ws) = add_mset t (mset (ws_tiles (mn_workspaces m ! idx)))"
  shows "mset (all_tiles (mn_workspaces m2)) = add_mset t (mset (all_tiles (mn_workspaces m)))"
    and "\<exists>ids. map ws_id (mn_workspaces m2) = map ws_id (mn_workspaces m) @ ids"
    and "mn_output m2 = mn_output m" "mn_active m2 = mn_active m" "mn_previous m2 = mn_previous m" "mn_switch m2 = mn_switch m"
proof -
  show "mset (all_tiles (mn_workspaces m2)) = add_mset t (mset (all_tiles (mn_workspaces m)))"
    using grows_tiles [OF g] all_tiles_update [OF idx, of ws] ws(2) by simp
  show "\<exists>ids. map ws_id (mn_workspaces m2) = map ws_id (mn_workspaces m) @ ids"
    using grows_ids [OF g] map_update_same [OF idx, of ws_id ws] ws(1) by auto
  show "mn_output m2 = mn_output m" "mn_active m2 = mn_active m" "mn_previous m2 = mn_previous m" "mn_switch m2 = mn_switch m"
    using g by (simp_all add: grows_def)
qed

text \<open>What activating a workspace has to promise.\<close>

definition act_ok :: "(nat \<Rightarrow> monitor \<Rightarrow> monitor option) \<Rightarrow> bool" where
  "act_ok act \<longleftrightarrow> (\<forall>m idx. strip_ok m \<and> idx < length (mn_workspaces m) \<longrightarrow> (\<exists>m'. act idx m = Some m' \<and> keeps m m'))"

lemma act_ok_quiet: "act_ok (\<lambda>_ m. Some m)"
  by (simp add: act_ok_def keeps_refl)

lemma place_with:
  assumes act: "act_ok act" and ok: "strip_ok m" and wins: "wins_ok (map wkey (t # all_tiles (mn_workspaces m)))"
    and res: "resolve_add_window_target target m = Some (idx, to)" and idx: "idx < length (mn_workspaces m)"
    and col: "to = ToNewColumn \<Longrightarrow> activate = ActYes"
  shows "\<exists>m'. add_tile_with act t target activate allow m = Some m' \<and> strip_ok m' \<and> mn_output m' = mn_output m \<and>
    mset (map wkey (all_tiles (mn_workspaces m'))) = mset (map wkey (t # all_tiles (mn_workspaces m))) \<and>
    (\<exists>ids. map ws_id (mn_workspaces m') = map ws_id (mn_workspaces m) @ ids)"
proof -
  obtain m2 ws n where q: "add_tile_with (\<lambda>_ m1. Some m1) t target activate allow m = Some m2" "strip_ok m2"
    "grows n (m\<lparr>mn_workspaces := (mn_workspaces m)[idx := ws]\<rparr>) m2" "ws_id ws = ws_id (mn_workspaces m ! idx)"
    "mset (ws_tiles ws) = add_mset t (mset (ws_tiles (mn_workspaces m ! idx)))"
    using place_quiet [OF ok wins res idx col] by blast
  note f = quiet_place_facts [OF q(3) idx q(4,5)]
  have keys: "mset (map wkey (all_tiles (mn_workspaces m2))) = mset (map wkey (t # all_tiles (mn_workspaces m)))"
    using f(1) by simp
  obtain m' where m': "(if allow \<and> map_smart activate False then act idx m2 else Some m2) = Some m'" "keeps m2 m'"
  proof (cases "allow \<and> map_smart activate False")
    case True
    have "idx < length (mn_workspaces m2)" using f(2) idx by (auto dest: arg_cong [where f = length])
    then show ?thesis using act q(2) that True by (auto simp: act_ok_def)
  next
    case False
    show ?thesis by (rule that [OF if_not_P [OF False] keeps_refl [OF q(2)]])
  qed
  have "add_tile_with act t target activate allow m = Some m'"
    unfolding add_tile_with_act [of act] using res q(1) m'(1) by simp
  then show ?thesis using m'(2) keys f(2,3) by (auto simp: keeps_def)
qed

lemma take_ok:
  assumes ok: "strip_ok m" and src: "src < length (mn_workspaces m)"
    and w: "\<And>i. w = Some i \<Longrightarrow> has_window i (mn_workspaces m ! src)"
  shows "take_window w src m = Some None \<and> w = None \<or>
    (\<exists>t ws. take_window w src m = Some (Some (t, m\<lparr>mn_workspaces := (mn_workspaces m)[src := ws]\<rparr>)) \<and>
       (\<forall>i. w = Some i \<longrightarrow> tl_id t = i) \<and> strip_ok (m\<lparr>mn_workspaces := (mn_workspaces m)[src := ws]\<rparr>) \<and>
       ws_meta ws = ws_meta (mn_workspaces m ! src) \<and>
       mset (ws_tiles (mn_workspaces m ! src)) = add_mset t (mset (ws_tiles ws)))"
proof -
  let ?ws = "mn_workspaces m ! src"
  have wok: "ws_ok ?ws" using ws_in_strip(1) strip_ok_bits [OF ok] src by blast
  show ?thesis
  proof (cases w)
    case None
    consider "ws_remove_active_tile ?ws = Some None" | (gone) t ws where "ws_remove_active_tile ?ws = Some (Some (t, ws))"
      "ws_ok ws" "ws_meta ws = ws_meta ?ws" "mset (ws_tiles ?ws) = add_mset t (mset (ws_tiles ws))"
      using ws_remove_active_ok [OF wok] by blast
    then show ?thesis
    proof cases
      case gone
      then show ?thesis using None src strip_put_less(1) [OF ok src gone(2,3,4)] by (auto simp: take_window_def Let_def)
    qed (use None src in \<open>simp add: take_window_def Let_def\<close>)
  next
    case (Some i)
    then have "holds_window i ?ws" using w holds_window_cases by blast
    then obtain t ws where r: "ws_remove_tile i ?ws = Some (t, ws)" "tl_id t = i" "ws_ok ws" "ws_meta ws = ws_meta ?ws"
      "mset (ws_tiles ?ws) = add_mset t (mset (ws_tiles ws))" using ws_remove_ok [OF wok] by blast
    then show ?thesis using Some src strip_put_less(1) [OF ok src r(3,4,5)] by (auto simp: take_window_def Let_def)
  qed
qed

lemma wss_id_unique:
  assumes "wss_ok out next wss" and "i < length wss" and "j < length wss" and "ws_id (wss ! i) = ws_id (wss ! j)"
  shows "i = j"
  using assms by (auto simp: wss_ok_def distinct_conv_nth)

lemma ws_idx_at:
  assumes "distinct (map ws_id wss)" and "idx < length wss"
  shows "ws_idx (ws_id (wss ! idx)) wss = Some idx"
proof (cases "ws_idx (ws_id (wss ! idx)) wss")
  case None
  then show ?thesis using assms(2) by (auto simp: ws_idx_def position_None)
next
  case (Some k)
  then have k: "k < length wss" "ws_id (wss ! k) = ws_id (wss ! idx)" by (auto simp: ws_idx_def position_Some)
  then have "map ws_id wss ! k = map ws_id wss ! idx" using assms(2) by simp
  then have "k = idx" by (rule nth_eq_iff_index_eq [OF assms(1), THEN iffD1, rotated 2]) (use k assms(2) in simp_all)
  then show ?thesis using Some by simp
qed

lemma ws_idx_Some: "ws_idx i wss = Some k \<Longrightarrow> k < length wss \<and> ws_id (wss ! k) = i"
  by (simp add: ws_idx_def position_Some)

lemma taken_keys:
  assumes "idx < length wss" and "mset (ws_tiles (wss ! idx)) = add_mset t (mset (ws_tiles ws))"
  shows "mset (map wkey (t # all_tiles (wss[idx := ws]))) = mset (map wkey (all_tiles wss))"
proof -
  have "mset (t # all_tiles (wss[idx := ws])) = mset (all_tiles wss)"
    using all_tiles_update [OF assms(1), of ws] assms(2) by simp
  then show ?thesis by (simp only: mset_map)
qed

text \<open>A window taken from one workspace and placed on another.\<close>

lemma take_then_place:
  assumes act: "act_ok act" and ok: "strip_ok m" and src: "src < length (mn_workspaces m)" and idx: "idx < length (mn_workspaces m)"
    and m1: "strip_ok (m\<lparr>mn_workspaces := (mn_workspaces m)[src := ws]\<rparr>)"
    and ws: "ws_meta ws = ws_meta (mn_workspaces m ! src)"
      "mset (ws_tiles (mn_workspaces m ! src)) = add_mset t (mset (ws_tiles ws))"
  shows "\<exists>m'. add_tile_with act t (OnWorkspace (ws_id (mn_workspaces m ! idx)) False) activate allow
      (m\<lparr>mn_workspaces := (mn_workspaces m)[src := ws]\<rparr>) = Some m' \<and> keeps m m'"
proof -
  let ?m1 = "m\<lparr>mn_workspaces := (mn_workspaces m)[src := ws]\<rparr>"
  have ids: "map ws_id ((mn_workspaces m)[src := ws]) = map ws_id (mn_workspaces m)"
    using src ws(1) by (intro map_update_same) (auto simp: ws_meta_def)
  have keys: "mset (map wkey (t # all_tiles (mn_workspaces ?m1))) = mset (map wkey (all_tiles (mn_workspaces m)))"
    using taken_keys [OF src ws(2)] by simp
  have "wins_ok (map wkey (all_tiles (mn_workspaces m)))" using strip_ok_bits [OF ok] by (simp add: wss_ok_def)
  then have wins: "wins_ok (map wkey (t # all_tiles (mn_workspaces ?m1)))" using keys wins_ok_mset by blast
  have "ws_id ((mn_workspaces m)[src := ws] ! idx) = ws_id (mn_workspaces m ! idx)"
    using arg_cong [OF ids, of "\<lambda>xs. xs ! idx"] idx by simp
  moreover have "distinct (map ws_id ((mn_workspaces m)[src := ws]))" using ids strip_ok_bits [OF ok] by (simp add: wss_ok_def)
  ultimately have "ws_idx (ws_id (mn_workspaces m ! idx)) (mn_workspaces ?m1) = Some idx"
    using ws_idx_at [of "mn_workspaces ?m1" idx] idx by simp
  then have "resolve_add_window_target (OnWorkspace (ws_id (mn_workspaces m ! idx)) False) ?m1 = Some (idx, ToAuto)"
    by (simp add: resolve_add_window_target_def)
  note pl = place_with [OF act m1 wins this]
  have "\<exists>m'. add_tile_with act t (OnWorkspace (ws_id (mn_workspaces m ! idx)) False) activate allow ?m1 = Some m' \<and> strip_ok m' \<and>
    mn_output m' = mn_output ?m1 \<and>
    mset (map wkey (all_tiles (mn_workspaces m'))) = mset (map wkey (t # all_tiles (mn_workspaces ?m1))) \<and>
    (\<exists>e. map ws_id (mn_workspaces m') = map ws_id (mn_workspaces ?m1) @ e)"
    by (rule pl) (use idx in simp_all)
  then show ?thesis unfolding keeps_def keys [symmetric] ids [symmetric] by simp
qed

lemma strip_ok_clean:
  assumes "strip_ok m"
  shows "\<exists>m'. (if mn_switch m = None then clean_up_workspaces m else Some m) = Some m' \<and> keeps m m' \<and> mn_active m' = mn_active m
    \<and> mn_previous m' = mn_previous m \<and> mn_switch m' = mn_switch m"
proof (cases "mn_switch m = None")
  case True
  have "strip_base m" using assms by (simp add: strip_ok_def)
  then obtain m' n where "clean_up_workspaces m = Some m'" "grows n m m'" "strip_ok m'"
    using clean_up_ok [OF _ True] by blast
  then show ?thesis using True keeps_grows by (auto simp: grows_def)
qed (use assms in \<open>auto intro: keeps_refl\<close>)

lemma move_with_ok:
  assumes act: "act_ok act" and ok: "strip_ok m"
    and w: "\<And>i. w = Some i \<Longrightarrow> \<exists>ws \<in> set (mn_workspaces m). has_window i ws"
  shows "\<exists>m'. move_to_workspace_with act w idx activate m = Some m' \<and> keeps m m'"
proof -
  note b = strip_ok_bits [OF ok]
  obtain src where src: "(case w of Some i \<Rightarrow> position (has_window i) (mn_workspaces m) | None \<Rightarrow> Some (mn_active m)) = Some src"
    "src < length (mn_workspaces m)" "\<And>i. w = Some i \<Longrightarrow> has_window i (mn_workspaces m ! src)"
  proof (cases w)
    case None
    then show ?thesis using that [of "mn_active m"] b by simp
  next
    case (Some i)
    then obtain k where "position (has_window i) (mn_workspaces m) = Some k"
      using w [OF Some] position_None [of "has_window i" "mn_workspaces m"] by (cases "position (has_window i) (mn_workspaces m)") auto
    then show ?thesis using that [of k] Some position_Some [of "has_window i" "mn_workspaces m" k] by simp
  qed
  define new_idx where "new_idx = min idx (length (mn_workspaces m) - 1)"
  have new: "new_idx < length (mn_workspaces m)" using b by (cases "mn_workspaces m") (auto simp: new_idx_def)
  consider "new_idx = src" | "new_idx \<noteq> src" "take_window w src m = Some None"
    | (moved) t ws where "new_idx \<noteq> src" "take_window w src m = Some (Some (t, m\<lparr>mn_workspaces := (mn_workspaces m)[src := ws]\<rparr>))"
      "strip_ok (m\<lparr>mn_workspaces := (mn_workspaces m)[src := ws]\<rparr>)" "ws_meta ws = ws_meta (mn_workspaces m ! src)"
      "mset (ws_tiles (mn_workspaces m ! src)) = add_mset t (mset (ws_tiles ws))"
    using take_ok [OF ok src(2,3)] by blast
  then show ?thesis
  proof cases
    case moved
    obtain m2 where m2: "add_tile_with act t (OnWorkspace (ws_id (mn_workspaces m ! new_idx)) False)
        (if map_smart activate (case w of None \<Rightarrow> True | Some i \<Rightarrow> mon_active_window m = Some i) then ActYes else ActNo) True
        (m\<lparr>mn_workspaces := (mn_workspaces m)[src := ws]\<rparr>) = Some m2" "keeps m m2"
      using take_then_place [OF act ok src(2) new moved(3,4,5)] by blast
    then obtain m' where "(if mn_switch m2 = None then clean_up_workspaces m2 else Some m2) = Some m'" "keeps m2 m'"
      using strip_ok_clean [of m2] by (auto simp: keeps_def)
    then show ?thesis using m2 moved(1,2) src(1) b keeps_trans [OF m2(2)]
      by (auto simp: move_to_workspace_with_def Let_def new_idx_def)
  qed (use src(1) b ok keeps_refl in \<open>auto simp: move_to_workspace_with_def Let_def new_idx_def\<close>)
qed

section \<open>Carrying windows along\<close>

lemma in_grown:
  assumes "grows n m m'" and "ws' \<in> set (mn_workspaces m')"
  shows "(\<exists>ws \<in> set (mn_workspaces m). ws_core ws = ws_core ws') \<or> ws_tiles ws' = []"
proof -
  have "ws_core ws' \<in> set (map ws_core (mn_workspaces m'))" using assms(2) by simp
  then consider ws where "ws \<in> set (mn_workspaces m)" "ws_core ws' = ws_core ws"
    | k where "ws_core ws' = ws_core (new_workspace (mn_output m) k)"
    unfolding grows_map [OF assms(1)] by (auto simp: fresh_ws_def)
  then show ?thesis
  proof cases
    case (2 k)
    then have "ws_tiles ws' = ws_tiles (new_workspace (mn_output m) k)" using core_tiles by metis
    then show ?thesis by simp
  qed fastforce
qed

lemma grown_has:
  assumes "grows n m m'" and "ws \<in> set (mn_workspaces m)"
  shows "\<exists>ws' \<in> set (mn_workspaces m'). ws_core ws' = ws_core ws"
proof -
  have "ws_core ws \<in> set (map ws_core (mn_workspaces m'))" unfolding grows_map [OF assms(1)] using assms(2) by simp
  then show ?thesis by auto
qed

text \<open>A window is in one place.\<close>

lemma all_tiles_mem: "t \<in> set (all_tiles wss) \<longleftrightarrow> (\<exists>i < length wss. t \<in> set (ws_tiles (wss ! i)))"
  unfolding all_tiles_def by simp (metis in_set_conv_nth)

lemma one_place:
  assumes "distinct (map tl_id (all_tiles wss))" and "i < length wss" and "j < length wss"
    and "s \<in> set (ws_tiles (wss ! i))" and "t \<in> set (ws_tiles (wss ! j))" and "tl_id s = tl_id t"
  shows "i = j \<and> s = t"
  using assms
proof (induction wss arbitrary: i j)
  case (Cons w wss)
  have d: "distinct (map tl_id (all_tiles wss))" "distinct (map tl_id (ws_tiles w))"
    "tl_id ` set (ws_tiles w) \<inter> tl_id ` set (all_tiles wss) = {}"
    using Cons.prems(1) by (simp_all add: all_tiles_def)
  have out: "x \<in> set (ws_tiles w) \<Longrightarrow> y \<in> set (all_tiles wss) \<Longrightarrow> tl_id x \<noteq> tl_id y" for x y using d(3) by auto
  show ?case
  proof (cases i; cases j)
    assume "i = 0" "j = 0"
    then show ?thesis using Cons.prems(4-6) d(2) by (simp add: distinct_map inj_on_def)
  next
    fix k assume "i = 0" "j = Suc k"
    then show ?thesis using out [of s t] Cons.prems all_tiles_mem [of t wss] by auto
  next
    fix k assume "i = Suc k" "j = 0"
    then show ?thesis using out [of t s] Cons.prems all_tiles_mem [of s wss] by auto
  next
    fix k l assume "i = Suc k" "j = Suc l"
    then show ?thesis using Cons.IH [OF d(1), of k l] Cons.prems by simp
  qed
qed simp

lemma strip_distinct: "wss_ok out next wss \<Longrightarrow> distinct (map tl_id (all_tiles wss))"
  by (simp add: wss_ok_def wins_ok_def)

definition laid_out :: "nat \<Rightarrow> monitor \<Rightarrow> bool" where
  "laid_out i m \<longleftrightarrow> (\<exists>ws \<in> set (mn_workspaces m). has_window i ws)"

text \<open>The other workspaces hold no more than before, and not the window \<open>i\<close>.\<close>

definition sheds :: "nat \<Rightarrow> nat set \<Rightarrow> monitor \<Rightarrow> monitor \<Rightarrow> bool" where
  "sheds T I m m' \<longleftrightarrow> (\<forall>ws' \<in> set (mn_workspaces m'). ws_id ws' \<noteq> T \<longrightarrow>
     tl_id ` set (ws_tiles ws') \<inter> I = {} \<and>
     (ws_tiles ws' = [] \<or> (\<exists>ws \<in> set (mn_workspaces m). ws_id ws = ws_id ws' \<and> set (ws_tiles ws') \<subseteq> set (ws_tiles ws) \<and>
       set (st_tiles (ws_floating ws')) \<subseteq> set (st_tiles (ws_floating ws)))))"

lemma sheds_trans:
  assumes "sheds T I m m1" and "sheds T J m1 m2"
  shows "sheds T (I \<union> J) m m2"
  unfolding sheds_def
proof (intro ballI impI)
  fix ws2 assume w: "ws2 \<in> set (mn_workspaces m2)" "ws_id ws2 \<noteq> T"
  show "tl_id ` set (ws_tiles ws2) \<inter> (I \<union> J) = {} \<and> (ws_tiles ws2 = [] \<or> (\<exists>ws \<in> set (mn_workspaces m). ws_id ws = ws_id ws2 \<and>
    set (ws_tiles ws2) \<subseteq> set (ws_tiles ws) \<and> set (st_tiles (ws_floating ws2)) \<subseteq> set (st_tiles (ws_floating ws))))"
  proof (cases "ws_tiles ws2 = []")
    case False
    then obtain ws1 where 1: "ws1 \<in> set (mn_workspaces m1)" "ws_id ws1 = ws_id ws2" "set (ws_tiles ws2) \<subseteq> set (ws_tiles ws1)"
      "set (st_tiles (ws_floating ws2)) \<subseteq> set (st_tiles (ws_floating ws1))" and J: "tl_id ` set (ws_tiles ws2) \<inter> J = {}"
      using assms(2) w by (auto simp: sheds_def)
    have ne: "ws_tiles ws1 \<noteq> []" using 1(3) False by auto
    then obtain ws where I: "tl_id ` set (ws_tiles ws1) \<inter> I = {}" and ws: "ws \<in> set (mn_workspaces m)" "ws_id ws = ws_id ws1"
      "set (ws_tiles ws1) \<subseteq> set (ws_tiles ws)" "set (st_tiles (ws_floating ws1)) \<subseteq> set (st_tiles (ws_floating ws))"
      using assms(1) 1(1,2) w(2) by (auto simp: sheds_def)
    have "tl_id ` set (ws_tiles ws2) \<subseteq> tl_id ` set (ws_tiles ws1)" using 1(3) by (rule image_mono)
    then have "tl_id ` set (ws_tiles ws2) \<inter> (I \<union> J) = {}" using I J by blast
    then show ?thesis using ws 1 by (intro conjI disjI2 bexI [of _ ws]) simp_all
  qed simp
qed

lemma minimized_not_laid_out:
  assumes "wins_ok (map wkey (ws_tiles ws))" and "has_window i ws"
  shows "\<not> is_minimized i ws"
proof
  assume m: "is_minimized i ws"
  have "distinct (map tl_id (st_tiles (ws_floating ws) @ ws_minimized ws))" using assms(1) by (simp add: wins_ok_def ws_tiles_def)
  then have "tl_id ` set (st_tiles (ws_floating ws)) \<inter> tl_id ` set (ws_minimized ws) = {}" by simp
  then show False using m assms(2) by (auto simp: is_minimized_def has_window_def)
qed

lemma update_focus_floating [simp]:
  "ws_floating (update_focus_after_removing ws) = ws_floating ws" "ws_minimized (update_focus_after_removing ws) = ws_minimized ws"
  by (simp_all add: update_focus_after_removing_def)

text \<open>One carried window: it leaves the workspace it was on for the target, and the rest stays.\<close>

lemma relocate:
  assumes ok: "strip_ok m" and src: "position (has_window i) (mn_workspaces m) = Some src"
    and idx: "idx < length (mn_workspaces m)" and ne: "idx \<noteq> src"
  shows "\<exists>m' t a b n. move_to_workspace_with (\<lambda>_ m1. Some m1) (Some i) idx ActNo m = Some m' \<and> strip_ok m' \<and> tl_id t = i \<and>
    grows n (m\<lparr>mn_workspaces := (mn_workspaces m)[src := a, idx := b]\<rparr>) m' \<and>
    ws_id a = ws_id (mn_workspaces m ! src) \<and> ws_id b = ws_id (mn_workspaces m ! idx) \<and>
    mset (ws_tiles (mn_workspaces m ! src)) = add_mset t (mset (ws_tiles a)) \<and>
    mset (ws_tiles b) = add_mset t (mset (ws_tiles (mn_workspaces m ! idx))) \<and>
    mset (st_tiles (ws_floating (mn_workspaces m ! src))) = add_mset t (mset (st_tiles (ws_floating a))) \<and>
    mset (st_tiles (ws_floating b)) = add_mset t (mset (st_tiles (ws_floating (mn_workspaces m ! idx))))"
proof -
  let ?wss = "mn_workspaces m"
  have s: "src < length ?wss" "has_window i (?wss ! src)" using src by (simp_all add: position_Some)
  have wb: "wss_ok (mn_output m) (mn_next m) ?wss" using strip_ok_bits [OF ok] by simp
  note w = ws_in_strip [OF wb s(1)]
  obtain t fl where r: "ws_remove_tile i (?wss ! src) = Some (t, update_focus_after_removing ((?wss ! src)\<lparr>ws_floating := fl\<rparr>))"
    "tl_id t = i" "stack_ok fl" "mset (st_tiles (ws_floating (?wss ! src))) = add_mset t (mset (st_tiles fl))"
    using ws_remove_floating_ok [OF w(1) s(2) minimized_not_laid_out [OF w(3) s(2)]] by auto
  define a where "a = update_focus_after_removing ((?wss ! src)\<lparr>ws_floating := fl\<rparr>)"
  have ne0: "st_tiles (ws_floating (?wss ! src)) \<noteq> []" using s(2) by (auto simp: has_window_def)
  have a: "ws_ok a" "ws_meta a = ws_meta (?wss ! src)" "mset (ws_tiles (?wss ! src)) = add_mset t (mset (ws_tiles a))"
    using update_focus_ok [OF w(1) r(3)] ne0 r(4) by (auto simp: a_def ws_tiles_def)
  define m1 where "m1 = m\<lparr>mn_workspaces := ?wss[src := a]\<rparr>"
  have m1: "strip_ok m1" using strip_put_less(1) [OF ok s(1) a] by (simp add: m1_def)
  have ids: "map ws_id (?wss[src := a]) = map ws_id ?wss" using s(1) a(2) by (intro map_update_same) (auto simp: ws_meta_def)
  have b_idx: "?wss[src := a] ! idx = ?wss ! idx" using ne by simp
  have "mset (map wkey (t # all_tiles (mn_workspaces m1))) = mset (map wkey (all_tiles ?wss))"
    using taken_keys [OF s(1) a(3)] by (simp add: m1_def)
  from wins_ok_mset [OF this] have wins: "wins_ok (map wkey (t # all_tiles (mn_workspaces m1)))" using wb by (simp add: wss_ok_def)
  have "distinct (map ws_id (?wss[src := a]))" using ids wb by (simp add: wss_ok_def)
  then have res: "resolve_add_window_target (OnWorkspace (ws_id (?wss ! idx)) False) m1 = Some (idx, ToAuto)"
    using ws_idx_at [of "?wss[src := a]" idx] idx b_idx by (simp add: resolve_add_window_target_def m1_def)
  have l1: "idx < length (mn_workspaces m1)" using idx by (simp add: m1_def)
  obtain m2 b k where m2: "add_tile_with (\<lambda>_ m1. Some m1) t (OnWorkspace (ws_id (?wss ! idx)) False) ActNo True m1 = Some m2"
    "strip_ok m2" "grows k (m1\<lparr>mn_workspaces := (mn_workspaces m1)[idx := b]\<rparr>) m2" "ws_id b = ws_id (mn_workspaces m1 ! idx)"
    "mset (ws_tiles b) = add_mset t (mset (ws_tiles (mn_workspaces m1 ! idx)))"
    "mset (st_tiles (ws_floating b)) = add_mset t (mset (st_tiles (ws_floating (mn_workspaces m1 ! idx))))"
    using place_quiet [OF m1 wins res l1, of ActNo True] by auto
  obtain m' l where m': "(if mn_switch m2 = None then clean_up_workspaces m2 else Some m2) = Some m'" "grows l m2 m'" "strip_ok m'"
  proof (cases "mn_switch m2 = None")
    case True
    have "strip_base m2" using m2(2) by (simp add: strip_ok_def)
    then show ?thesis using clean_up_ok [OF _ True] that True by auto
  qed (use m2(2) grows_refl that [of m2 0] in auto)
  have tk: "take_window (Some i) src m = Some (Some (t, m1))" using s(1) r(1) by (simp add: take_window_def Let_def m1_def a_def)
  have "min idx (length ?wss - 1) = idx" "?wss \<noteq> []" using idx by auto
  then have "move_to_workspace_with (\<lambda>_ m1. Some m1) (Some i) idx ActNo m = Some m'"
    using src ne tk m2(1) m'(1) by (simp add: move_to_workspace_with_def Let_def map_smart_def)
  moreover have "grows (k + l) (m\<lparr>mn_workspaces := ?wss[src := a, idx := b]\<rparr>) m'"
    using grows_trans [OF m2(3) m'(2)] by (simp add: m1_def)
  ultimately show ?thesis using m'(3) r(2,4) a m2(4-6) b_idx
    by (intro exI [of _ m'] exI [of _ t] exI [of _ a] exI [of _ b] exI [of _ "k + l"]) (auto simp: m1_def ws_meta_def a_def)
qed

lemma relocate_sheds:
  assumes ok: "strip_ok m" and s: "src < length (mn_workspaces m)" and idx: "idx < length (mn_workspaces m)" and ne: "idx \<noteq> src"
    and g: "grows n (m\<lparr>mn_workspaces := (mn_workspaces m)[src := a, idx := b]\<rparr>) m'"
    and id: "ws_id a = ws_id (mn_workspaces m ! src)" "ws_id b = ws_id (mn_workspaces m ! idx)"
    and ta: "mset (ws_tiles (mn_workspaces m ! src)) = add_mset t (mset (ws_tiles a))"
    and fa: "mset (st_tiles (ws_floating (mn_workspaces m ! src))) = add_mset t (mset (st_tiles (ws_floating a)))"
  shows "sheds (ws_id (mn_workspaces m ! idx)) {tl_id t} m m'"
  unfolding sheds_def
proof (intro ballI impI)
  let ?wss = "mn_workspaces m"
  have wb: "wss_ok (mn_output m) (mn_next m) ?wss" using strip_ok_bits [OF ok] by simp
  have t: "t \<in> set (ws_tiles (?wss ! src))" using arg_cong [OF ta, of set_mset] by simp
  have "distinct (map tl_id (ws_tiles (?wss ! src)))" using ws_in_strip(3) [OF wb s] by (simp add: wins_ok_def)
  then have "distinct (map tl_id (t # ws_tiles a))"
    using mset_eq_imp_distinct_iff [of "map tl_id (ws_tiles (?wss ! src))" "map tl_id (t # ws_tiles a)"] ta by simp
  then have na: "tl_id t \<notin> tl_id ` set (ws_tiles a)" by simp
  have sub: "set (ws_tiles a) \<subseteq> set (ws_tiles (?wss ! src))" "set (st_tiles (ws_floating a)) \<subseteq> set (st_tiles (ws_floating (?wss ! src)))"
    using arg_cong [OF ta, of set_mset] arg_cong [OF fa, of set_mset] by auto
  fix ws' assume w: "ws' \<in> set (mn_workspaces m')" "ws_id ws' \<noteq> ws_id (?wss ! idx)"
  show "tl_id ` set (ws_tiles ws') \<inter> {tl_id t} = {} \<and> (ws_tiles ws' = [] \<or> (\<exists>ws \<in> set ?wss. ws_id ws = ws_id ws' \<and>
    set (ws_tiles ws') \<subseteq> set (ws_tiles ws) \<and> set (st_tiles (ws_floating ws')) \<subseteq> set (st_tiles (ws_floating ws))))"
  proof (cases "ws_tiles ws' = []")
    case False
    then obtain ws where ws: "ws \<in> set (?wss[src := a, idx := b])" "ws_core ws = ws_core ws'"
      using in_grown [OF g w(1)] by auto
    have eq: "ws_tiles ws = ws_tiles ws'" "ws_floating ws = ws_floating ws'" "ws_id ws = ws_id ws'"
      using ws(2) core_tiles ws_core_simps(1,3) by metis+
    obtain k where k: "k < length ?wss" "ws = ?wss[src := a, idx := b] ! k" using ws(1) by (auto simp: in_set_conv_nth)
    have "k \<noteq> idx" using k idx w(2) id(2) eq(3) by auto
    show ?thesis
    proof (cases "k = src")
      case True
      then have "ws = a" using k ne by simp
      then show ?thesis using na sub eq s id(1) by (intro conjI disjI2 bexI [of _ "?wss ! src"]) auto
    next
      case False
      then have ws_k: "ws = ?wss ! k" using k \<open>k \<noteq> idx\<close> by simp
      have "tl_id x \<noteq> tl_id t" if "x \<in> set (ws_tiles ws)" for x
        using one_place [OF strip_distinct [OF wb] k(1) s _ t] that ws_k False by auto
      then have "tl_id t \<notin> tl_id ` set (ws_tiles ws')" using eq(1) by force
      then show ?thesis using eq k(1) ws_k by (intro conjI disjI2 bexI [of _ "?wss ! k"]) simp_all
    qed
  qed simp
qed

lemma relocate_laid_out:
  assumes s: "src < length (mn_workspaces m)" and idx: "idx < length (mn_workspaces m)" and ne: "idx \<noteq> src"
    and g: "grows n (m\<lparr>mn_workspaces := (mn_workspaces m)[src := a, idx := b]\<rparr>) m'"
    and fa: "mset (st_tiles (ws_floating (mn_workspaces m ! src))) = add_mset t (mset (st_tiles (ws_floating a)))"
    and fb: "mset (st_tiles (ws_floating b)) = add_mset t (mset (st_tiles (ws_floating (mn_workspaces m ! idx))))"
    and j: "laid_out j m"
  shows "laid_out j m'"
proof -
  let ?wss = "mn_workspaces m"
  let ?new = "?wss[src := a, idx := b]"
  obtain k where k: "k < length ?wss" "has_window j (?wss ! k)" using j by (auto simp: laid_out_def in_set_conv_nth)
  have mem: "?new ! src = a" "?new ! idx = b" using ne s idx by simp_all
  have fs: "set (st_tiles (ws_floating (?wss ! src))) = insert t (set (st_tiles (ws_floating a)))"
    "set (st_tiles (ws_floating b)) = insert t (set (st_tiles (ws_floating (?wss ! idx))))"
    using arg_cong [OF fa, of set_mset] arg_cong [OF fb, of set_mset] by simp_all
  have "\<exists>q < length ?wss. has_window j (?new ! q)"
  proof (cases "k = src")
    case True
    then have "has_window j a \<or> has_window j b" using k(2) fs by (auto simp: has_window_def)
    then show ?thesis using mem s idx by auto
  next
    case False
    show ?thesis
    proof (cases "k = idx")
      case True
      then have "has_window j b" using k(2) fs(2) by (auto simp: has_window_def)
      then show ?thesis using mem idx by auto
    next
      case False
      then show ?thesis using k \<open>k \<noteq> src\<close> by auto
    qed
  qed
  then obtain ws where ws: "ws \<in> set ?new" "has_window j ws" by (auto simp: in_set_conv_nth)
  then obtain ws' where "ws' \<in> set (mn_workspaces m')" "ws_core ws' = ws_core ws" using grown_has [OF g] by auto
  moreover then have "ws_floating ws' = ws_floating ws" using ws_core_simps(3) by metis
  ultimately have "has_window j ws'" "ws' \<in> set (mn_workspaces m')" using ws(2) by (simp_all add: has_window_def)
  then show ?thesis by (auto simp: laid_out_def)
qed

definition unmoved_view :: "monitor \<Rightarrow> monitor \<Rightarrow> bool" where
  "unmoved_view m m' \<longleftrightarrow> mn_active m' = mn_active m \<and> mn_previous m' = mn_previous m \<and> mn_switch m' = mn_switch m"

lemma laid_out_position:
  assumes "laid_out i m"
  shows "\<exists>src. position (has_window i) (mn_workspaces m) = Some src"
  using assms position_None [of "has_window i" "mn_workspaces m"]
  by (cases "position (has_window i) (mn_workspaces m)") (auto simp: laid_out_def)

lemma sheds_held:
  assumes ok: "strip_ok m" and idx: "idx < length (mn_workspaces m)" and i: "has_window i (mn_workspaces m ! idx)"
  shows "sheds (ws_id (mn_workspaces m ! idx)) {i} m m"
  unfolding sheds_def
proof (intro ballI impI)
  let ?wss = "mn_workspaces m"
  have wb: "wss_ok (mn_output m) (mn_next m) ?wss" using strip_ok_bits [OF ok] by simp
  obtain t where t: "t \<in> set (ws_tiles (?wss ! idx))" "tl_id t = i" using i by (auto simp: has_window_def ws_tiles_def)
  fix ws assume w: "ws \<in> set ?wss" "ws_id ws \<noteq> ws_id (?wss ! idx)"
  then obtain k where k: "k < length ?wss" "ws = ?wss ! k" by (auto simp: in_set_conv_nth)
  have "k \<noteq> idx" using w(2) k(2) by auto
  then have "tl_id x \<noteq> i" if "x \<in> set (ws_tiles ws)" for x
    using one_place [OF strip_distinct [OF wb] k(1) idx _ t(1)] that k(2) t(2) by auto
  then have "i \<notin> tl_id ` set (ws_tiles ws)" by force
  then show "tl_id ` set (ws_tiles ws) \<inter> {i} = {} \<and> (ws_tiles ws = [] \<or> (\<exists>ws1 \<in> set ?wss. ws_id ws1 = ws_id ws \<and>
    set (ws_tiles ws) \<subseteq> set (ws_tiles ws1) \<and> set (st_tiles (ws_floating ws)) \<subseteq> set (st_tiles (ws_floating ws1))))"
    using w(1) by (intro conjI disjI2 bexI [of _ ws]) simp_all
qed

lemma carry_move:
  assumes ok: "strip_ok m" and i: "laid_out i m" and idx: "idx < length (mn_workspaces m)"
  shows "\<exists>m'. move_to_workspace_with (\<lambda>_ m1. Some m1) (Some i) idx ActNo m = Some m' \<and> keeps m m' \<and> unmoved_view m m' \<and>
    sheds (ws_id (mn_workspaces m ! idx)) {i} m m' \<and> (\<forall>j. laid_out j m \<longrightarrow> laid_out j m')"
proof -
  obtain src where src: "position (has_window i) (mn_workspaces m) = Some src" using laid_out_position [OF i] by blast
  have s: "src < length (mn_workspaces m)" "has_window i (mn_workspaces m ! src)" using src by (simp_all add: position_Some)
  show ?thesis
  proof (cases "idx = src")
    case True
    have "min idx (length (mn_workspaces m) - 1) = idx" "mn_workspaces m \<noteq> []" using idx by auto
    then have "move_to_workspace_with (\<lambda>_ m1. Some m1) (Some i) idx ActNo m = Some m"
      using src True by (simp add: move_to_workspace_with_def Let_def)
    then show ?thesis using keeps_refl [OF ok] sheds_held [OF ok s] True by (simp add: unmoved_view_def)
  next
    case False
    obtain m' t a b n where r: "move_to_workspace_with (\<lambda>_ m1. Some m1) (Some i) idx ActNo m = Some m'" "tl_id t = i"
      "grows n (m\<lparr>mn_workspaces := (mn_workspaces m)[src := a, idx := b]\<rparr>) m'"
      "ws_id a = ws_id (mn_workspaces m ! src)" "ws_id b = ws_id (mn_workspaces m ! idx)"
      "mset (ws_tiles (mn_workspaces m ! src)) = add_mset t (mset (ws_tiles a))"
      "mset (st_tiles (ws_floating (mn_workspaces m ! src))) = add_mset t (mset (st_tiles (ws_floating a)))"
      "mset (st_tiles (ws_floating b)) = add_mset t (mset (st_tiles (ws_floating (mn_workspaces m ! idx))))"
      using relocate [OF ok src idx False] by blast
    have "\<exists>ws \<in> set (mn_workspaces m). has_window i ws" using i by (simp add: laid_out_def)
    then have "keeps m m'" using move_with_ok [OF act_ok_quiet ok, of "Some i" idx ActNo] r(1) by auto
    moreover have "unmoved_view m m'" using r(3) by (simp add: unmoved_view_def grows_def)
    ultimately show ?thesis using r(1) relocate_sheds [OF ok s(1) idx False r(3,4,5,6,7)] r(2)
        relocate_laid_out [OF s(1) idx False r(3,7,8)] by auto
  qed
qed

lemma keeps_ws_idx:
  assumes "keeps m m'" and "strip_ok m" and "ws_idx T (mn_workspaces m) = Some idx"
  shows "ws_idx T (mn_workspaces m') = Some idx"
proof -
  have idx: "idx < length (mn_workspaces m)" "ws_id (mn_workspaces m ! idx) = T" using ws_idx_Some [OF assms(3)] by auto
  have "distinct (map ws_id (mn_workspaces m'))" using assms(1) strip_ok_bits [of m'] by (auto simp: keeps_def wss_ok_def)
  then show ?thesis using ws_idx_at [of "mn_workspaces m'" idx] keeps_id_at [OF assms(1) idx(1)] keeps_length [OF assms(1)] idx by simp
qed

lemma carry_each_ok:
  "strip_ok m \<Longrightarrow> \<forall>i \<in> set is. laid_out i m \<Longrightarrow> ws_idx T (mn_workspaces m) = Some idx \<Longrightarrow>
     \<exists>m'. carry_each T was is keep m = Some (if was \<in> Some ` set is then was else keep, m') \<and> keeps m m' \<and> unmoved_view m m' \<and>
       (is \<noteq> [] \<longrightarrow> sheds T (set is) m m') \<and> (\<forall>j. laid_out j m \<longrightarrow> laid_out j m')"
proof (induction "is" arbitrary: m keep)
  case Nil
  then show ?case by (simp add: keeps_refl unmoved_view_def)
next
  case (Cons i "is")
  have idx: "idx < length (mn_workspaces m)" "ws_id (mn_workspaces m ! idx) = T" using ws_idx_Some [OF Cons.prems(3)] by auto
  obtain m1 where m1: "move_to_workspace_with (\<lambda>_ m1. Some m1) (Some i) idx ActNo m = Some m1" "keeps m m1" "unmoved_view m m1"
    "sheds T {i} m m1" "\<forall>j. laid_out j m \<longrightarrow> laid_out j m1"
    using carry_move [OF Cons.prems(1) _ idx(1), of i] Cons.prems(2) idx(2) by auto
  have ok1: "strip_ok m1" using m1(2) by (simp add: keeps_def)
  have laid1: "\<forall>i \<in> set is. laid_out i m1" using Cons.prems(2) m1(5) by auto
  define keep1 where "keep1 = (if Some i = was then Some i else keep)"
  obtain m2 where m2: "carry_each T was is keep1 m1 = Some (if was \<in> Some ` set is then was else keep1, m2)" "keeps m1 m2"
    "unmoved_view m1 m2" "is \<noteq> [] \<longrightarrow> sheds T (set is) m1 m2" "\<forall>j. laid_out j m1 \<longrightarrow> laid_out j m2"
    using Cons.IH [OF ok1 laid1 keeps_ws_idx [OF m1(2) Cons.prems(1,3)], of keep1] by blast
  have c: "carry_each T was (i # is) keep m = carry_each T was is keep1 m1"
    using Cons.prems(3) m1(1) by (simp add: Let_def keep1_def)
  have k: "(if was \<in> Some ` set is then was else keep1) = (if was \<in> Some ` set (i # is) then was else keep)"
    by (auto simp: keep1_def)
  have "sheds T (set (i # is)) m m2"
  proof (cases "is = []")
    case True
    then have "m2 = m1" using m2(1) by simp
    then show ?thesis using True m1(4) by simp
  qed (use sheds_trans [OF m1(4), of "set is" m2] m2(4) in simp)
  then show ?case using c k m2(1,5) m1(5) keeps_trans [OF m1(2) m2(2)] m1(3) m2(3) by (auto simp: unmoved_view_def)
qed

lemma riding_laid_out:
  assumes "ws \<in> set (mn_workspaces m)" and "i \<in> set (sticky_window_ids ws)"
  shows "laid_out i m"
  using assms by (auto simp: sticky_window_ids_def Let_def laid_out_def)

text \<open>After the carry no other workspace has a window that rides along.\<close>

lemma sheds_no_riders:
  assumes ok: "strip_ok m" and ok': "strip_ok m'"
    and sh: "sheds T I m m'" and I: "\<forall>ws \<in> set (mn_workspaces m). ws_id ws \<noteq> T \<longrightarrow> set (sticky_window_ids ws) \<subseteq> I"
    and w: "ws' \<in> set (mn_workspaces m')" "ws_id ws' \<noteq> T"
  shows "sticky_window_ids ws' = []"
proof (rule ccontr)
  assume "sticky_window_ids ws' \<noteq> []"
  then obtain i where i: "i \<in> set (sticky_window_ids ws')" by (cases "sticky_window_ids ws'") auto
  have okw: "wins_ok (map wkey (ws_tiles ws))" if "ws \<in> set (mn_workspaces m0)" "strip_ok m0" for ws m0
    using that strip_ok_bits [OF that(2)] ws_in_strip(3) by (metis in_set_conv_nth)
  obtain t where t: "t \<in> set (ws_tiles ws')" "tl_id t = i" "rides (set (ws_tiles ws')) t" "has_window i ws'"
    using i sticky_ids_iff [OF okw [OF w(1) ok']] by blast
  then have "ws_tiles ws' \<noteq> []" by auto
  then obtain ws where ws: "ws \<in> set (mn_workspaces m)" "ws_id ws = ws_id ws'" "set (ws_tiles ws') \<subseteq> set (ws_tiles ws)"
    "set (st_tiles (ws_floating ws')) \<subseteq> set (st_tiles (ws_floating ws))" and nI: "tl_id ` set (ws_tiles ws') \<inter> I = {}"
    using sh w by (auto simp: sheds_def)
  have "has_window i ws" using t(4) ws(4) by (auto simp: has_window_def)
  then have "i \<in> set (sticky_window_ids ws)"
    using sticky_ids_iff [OF okw [OF ws(1) ok]] t rides_mono [OF t(3) ws(3)] ws(3) by blast
  then have "i \<in> I" using I ws(1,2) w(2) by auto
  moreover have "i \<in> tl_id ` set (ws_tiles ws')" using t(1,2) by blast
  ultimately show False using nI by blast
qed

lemma sheds_out:
  "sheds T I m m' \<Longrightarrow> ws \<in> set (mn_workspaces m') \<Longrightarrow> i \<in> tl_id ` set (ws_tiles ws) \<Longrightarrow> i \<in> I \<Longrightarrow> ws_id ws = T"
  unfolding sheds_def by blast

lemma carry_sticky_ok:
  assumes ok: "strip_ok m" and T: "ws_idx T (mn_workspaces m) = Some idx"
  shows "\<exists>keep m'. carry_sticky_to T m = Some (keep, m') \<and> keeps m m' \<and> unmoved_view m m' \<and>
    (\<forall>ws \<in> set (mn_workspaces m'). ws_id ws \<noteq> T \<longrightarrow> sticky_window_ids ws = []) \<and>
    (\<forall>i. keep = Some i \<longrightarrow> has_window i (mn_workspaces m' ! idx)) \<and>
    (\<forall>i ws. mon_active_window m = Some i \<and> ws \<in> set (mn_workspaces m) \<and> ws_id ws \<noteq> T \<and> i \<in> set (sticky_window_ids ws) \<longrightarrow> keep = Some i)"
proof -
  let ?is = "concat (map sticky_window_ids (filter (\<lambda>ws. ws_id ws \<noteq> T) (mn_workspaces m)))"
  have laid: "\<forall>i \<in> set ?is. laid_out i m" using riding_laid_out by fastforce
  obtain m' where c: "carry_each T (mon_active_window m) ?is None m
      = Some (if mon_active_window m \<in> Some ` set ?is then mon_active_window m else None, m')" "keeps m m'" "unmoved_view m m'"
    "?is \<noteq> [] \<longrightarrow> sheds T (set ?is) m m'" "\<forall>j. laid_out j m \<longrightarrow> laid_out j m'"
    using carry_each_ok [OF ok laid T] by blast
  let ?keep = "if mon_active_window m \<in> Some ` set ?is then mon_active_window m else None"
  have carry: "carry_sticky_to T m = Some (?keep, m')" using c(1) strip_ok_bits [OF ok] by (simp add: carry_sticky_to_def)
  have ok': "strip_ok m'" using c(2) by (simp add: keeps_def)
  have sub: "\<forall>ws \<in> set (mn_workspaces m). ws_id ws \<noteq> T \<longrightarrow> set (sticky_window_ids ws) \<subseteq> set ?is" by auto
  have none: "\<forall>ws \<in> set (mn_workspaces m'). ws_id ws \<noteq> T \<longrightarrow> sticky_window_ids ws = []"
  proof (cases "?is = []")
    case True
    have "m' = m" using c(1) unfolding True by simp
    then show ?thesis using True by auto
  next
    case False
    then show ?thesis using sheds_no_riders [OF ok ok' _ sub] c(4) by blast
  qed
  have idx': "ws_idx T (mn_workspaces m') = Some idx" by (rule keeps_ws_idx [OF c(2) ok T])
  have "has_window i (mn_workspaces m' ! idx)" if k: "?keep = Some i" for i
  proof -
    have i: "i \<in> set ?is" using k by (auto split: if_splits)
    then have "laid_out i m'" using laid c(5) by blast
    then obtain ws where ws: "ws \<in> set (mn_workspaces m')" "has_window i ws" by (auto simp: laid_out_def)
    then have "i \<in> tl_id ` set (ws_tiles ws)" by (auto simp: has_window_def ws_tiles_def)
    moreover have "?is \<noteq> []" using i by auto
    ultimately have "ws_id ws = T" using c(4) ws(1) i sheds_out by blast
    then have "ws = mn_workspaces m' ! idx"
      using ws(1) idx' ws_idx_at strip_ok_bits [OF ok'] by (fastforce simp: in_set_conv_nth wss_ok_def)
    then show ?thesis using ws(2) by simp
  qed
  moreover have "?keep = Some i" if "mon_active_window m = Some i" "ws \<in> set (mn_workspaces m)" "ws_id ws \<noteq> T"
    "i \<in> set (sticky_window_ids ws)" for i ws
    using that sub by (auto 0 3)
  ultimately show ?thesis using carry c(2,3) none by blast
qed

section \<open>Activating a workspace\<close>

lemma ws_activate_focus:
  assumes ok: "ws_ok ws" and wins: "wins_ok (map wkey (ws_tiles ws))" and i: "has_window i ws"
  shows "\<exists>ws'. ws_activate_window i ws = Some (ws', True) \<and> map_option tl_id (ws_active_window ws') = Some i"
proof -
  let ?fl = "ws_floating ws"
  have "idx_of i (ws_minimized ws) = None"
    using minimized_not_laid_out [OF wins i] unfolding idx_of_None by (auto simp: is_minimized_def)
  then have u: "ws_unminimize i ActYes ws = Some (ws, False)" by (simp add: ws_unminimize_def)
  have mem: "i \<in> tl_id ` set (st_tiles ?fl)" using i by (auto simp: has_window_def)
  then obtain idx where "idx_of i (st_tiles ?fl) = Some idx" using idx_of_None [of i "st_tiles ?fl"] by auto
  moreover obtain fl b where a: "stack_activate i ?fl = Some (fl, b)" "mset (st_tiles fl) = mset (st_tiles ?fl)"
    using stack_activate_ok [of ?fl i] ok by (auto simp: ws_ok_def)
  ultimately have fl: "b" "st_active fl = Some i" by (auto simp: stack_activate_def)
  have "i \<in> tl_id ` set (st_tiles fl)" using mem mset_eq_setD [OF a(2)] by simp
  then obtain t where "find (\<lambda>t. tl_id t = i) (st_tiles fl) = Some t"
    by (cases "find (\<lambda>t. tl_id t = i) (st_tiles fl)") (auto simp: find_None_iff)
  moreover from this have "tl_id t = i" by (auto simp: find_Some_iff)
  ultimately show ?thesis using u a(1) fl by (simp add: ws_activate_window_def ws_active_window_def active_window_def)
qed

lemma keep_focused_ok:
  assumes ok: "strip_ok m" and idx: "idx < length (mn_workspaces m)"
    and k: "\<And>i. keep = Some i \<Longrightarrow> has_window i (mn_workspaces m ! idx)"
  shows "\<exists>ws. keep_focused keep idx m = Some (m\<lparr>mn_workspaces := (mn_workspaces m)[idx := ws]\<rparr>) \<and>
    keeps m (m\<lparr>mn_workspaces := (mn_workspaces m)[idx := ws]\<rparr>) \<and> ws_id ws = ws_id (mn_workspaces m ! idx) \<and>
    (\<forall>i. keep = Some i \<longrightarrow> map_option tl_id (ws_active_window ws) = Some i)"
proof (cases keep)
  case None
  then show ?thesis using idx keeps_refl [OF ok] by (intro exI [of _ "mn_workspaces m ! idx"]) (simp add: keep_focused_def)
next
  case (Some i)
  have wb: "wss_ok (mn_output m) (mn_next m) (mn_workspaces m)" using strip_ok_bits [OF ok] by simp
  note w = ws_in_strip [OF wb idx]
  obtain ws where f: "ws_activate_window i (mn_workspaces m ! idx) = Some (ws, True)"
    "map_option tl_id (ws_active_window ws) = Some i" using ws_activate_focus [OF w(1,3) k [OF Some]] by blast
  have a: "ws_ok ws" "ws_meta ws = ws_meta (mn_workspaces m ! idx)" "mset (ws_tiles ws) = mset (ws_tiles (mn_workspaces m ! idx))"
    using ws_activate_ok [OF w(1,3), of i] f(1) by auto
  have keys: "mset (map wkey (ws_tiles ws)) = mset (map wkey (ws_tiles (mn_workspaces m ! idx)))" using a(3) by simp
  note p = strip_put_same [OF ok idx a(1,2) keys]
  have id: "ws_id ws = ws_id (mn_workspaces m ! idx)" using a(2) by (simp add: ws_meta_def)
  have "map ws_id ((mn_workspaces m)[idx := ws]) = map ws_id (mn_workspaces m)" using idx id by (rule map_update_same)
  then have "keeps m (m\<lparr>mn_workspaces := (mn_workspaces m)[idx := ws]\<rparr>)" using p by (simp add: keeps_def)
  then show ?thesis using Some f idx id by (auto simp: keep_focused_def update_ws_def)
qed

lemma keeps_view [simp]:
  "keeps m (m'\<lparr>mn_previous := p\<rparr>) = keeps m m'" "keeps m (m'\<lparr>mn_switch := s\<rparr>) = keeps m m'"
  "keeps (m\<lparr>mn_previous := p\<rparr>) m' = keeps m m'" "keeps (m\<lparr>mn_switch := s\<rparr>) m' = keeps m m'"
  "keeps (m\<lparr>mn_active := a\<rparr>) m' = keeps m m'"
  by (simp_all add: keeps_def)

lemma land_on_ok:
  assumes ok: "strip_ok m" and idx: "idx < length (mn_workspaces m)"
    and k: "\<And>i. keep = Some i \<Longrightarrow> has_window i (mn_workspaces m ! idx)"
  shows "\<exists>m' ws. land_on keep idx m = Some m' \<and> keeps m m' \<and> mn_active m' = idx \<and>
    mn_workspaces m' = (mn_workspaces m)[idx := ws] \<and> ws_id ws = ws_id (mn_workspaces m ! idx) \<and>
    (\<forall>i. keep = Some i \<longrightarrow> mon_active_window m' = Some i)"
proof -
  define m0 where "m0 = m\<lparr>mn_active := idx,
    mn_previous := (if mn_active m \<noteq> idx then Some (ws_id (mn_workspaces m ! mn_active m)) else mn_previous m)\<rparr>"
  have b: "mn_active m < length (mn_workspaces m)" using strip_ok_bits [OF ok] by simp
  have ok0: "strip_ok m0" using ok idx b by (simp add: m0_def)
  have w0: "mn_workspaces m0 = mn_workspaces m" by (simp add: m0_def)
  obtain ws where ws: "keep_focused keep idx m0 = Some (m0\<lparr>mn_workspaces := (mn_workspaces m)[idx := ws]\<rparr>)"
    "keeps m0 (m0\<lparr>mn_workspaces := (mn_workspaces m)[idx := ws]\<rparr>)" "ws_id ws = ws_id (mn_workspaces m ! idx)"
    "\<forall>i. keep = Some i \<longrightarrow> map_option tl_id (ws_active_window ws) = Some i"
    using keep_focused_ok [OF ok0, of idx keep] idx k unfolding w0 by auto
  let ?m1 = "m0\<lparr>mn_workspaces := (mn_workspaces m)[idx := ws]\<rparr>"
  have k1: "keeps m ?m1" using ws(2) by (simp add: m0_def)
  have l: "land_on keep idx m = Some (if mn_switch ?m1 = Some (SwitchGesture True) \<or> mn_active m = idx then ?m1
      else ?m1\<lparr>mn_switch := Some SwitchAnimation\<rparr>)"
    using ws(1) b by (simp add: land_on_def m0_def)
  have "mon_active_window m' = Some i" if "mn_active m' = idx" "mn_workspaces m' = (mn_workspaces m)[idx := ws]" "keep = Some i" for m' i
    using that ws(4) idx by (simp add: mon_active_window_def)
  then show ?thesis using l k1 ws(3) by (auto simp: m0_def)
qed

lemma activate_ok:
  assumes ok: "strip_ok m" and idx: "idx < length (mn_workspaces m)"
  shows "\<exists>m'. activate_workspace idx m = Some m' \<and> keeps m m' \<and> mn_active m' = idx \<and>
    (idx \<noteq> mn_active m \<longrightarrow>
      (\<forall>ws \<in> set (mn_workspaces m'). ws_id ws \<noteq> ws_id (mn_workspaces m ! idx) \<longrightarrow> sticky_window_ids ws = []) \<and>
      (\<forall>i. mon_active_window m = Some i \<and> i \<in> set (sticky_window_ids (mn_workspaces m ! mn_active m)) \<longrightarrow>
         mon_active_window m' = Some i))"
proof (cases "idx = mn_active m")
  case True
  obtain m' where "land_on None idx m = Some m'" "keeps m m'" "mn_active m' = idx" using land_on_ok [OF ok idx, of None] by auto
  then show ?thesis using True by (simp add: activate_workspace_def)
next
  case False
  let ?T = "ws_id (mn_workspaces m ! idx)"
  have wb: "wss_ok (mn_output m) (mn_next m) (mn_workspaces m)" "mn_active m < length (mn_workspaces m)"
    using strip_ok_bits [OF ok] by simp_all
  have T: "ws_idx ?T (mn_workspaces m) = Some idx" using ws_idx_at idx wb(1) by (auto simp: wss_ok_def)
  obtain keep m1 where c: "carry_sticky_to ?T m = Some (keep, m1)" "keeps m m1"
    "\<forall>ws \<in> set (mn_workspaces m1). ws_id ws \<noteq> ?T \<longrightarrow> sticky_window_ids ws = []"
    "\<forall>i. keep = Some i \<longrightarrow> has_window i (mn_workspaces m1 ! idx)"
    "\<forall>i ws. mon_active_window m = Some i \<and> ws \<in> set (mn_workspaces m) \<and> ws_id ws \<noteq> ?T \<and> i \<in> set (sticky_window_ids ws) \<longrightarrow> keep = Some i"
    using carry_sticky_ok [OF ok T] by blast
  have ok1: "strip_ok m1" using c(2) by (simp add: keeps_def)
  have T1: "ws_idx ?T (mn_workspaces m1) = Some idx" by (rule keeps_ws_idx [OF c(2) ok T])
  have idx1: "idx < length (mn_workspaces m1)" using idx keeps_length [OF c(2)] by simp
  obtain m' ws where m': "land_on keep idx m1 = Some m'" "keeps m1 m'" "mn_active m' = idx"
    "mn_workspaces m' = (mn_workspaces m1)[idx := ws]" "ws_id ws = ws_id (mn_workspaces m1 ! idx)"
    "\<forall>i. keep = Some i \<longrightarrow> mon_active_window m' = Some i"
    using land_on_ok [OF ok1 idx1, of keep] c(4) by blast
  have "\<forall>w \<in> set (mn_workspaces m'). ws_id w \<noteq> ?T \<longrightarrow> sticky_window_ids w = []"
  proof (intro ballI impI)
    fix w assume "w \<in> set (mn_workspaces m')" "ws_id w \<noteq> ?T"
    then have "w \<in> set (mn_workspaces m1)"
      using m'(4,5) keeps_id_at [OF c(2) idx] set_update_subset_insert [of "mn_workspaces m1" idx ws] by auto
    then show "sticky_window_ids w = []" using c(3) \<open>ws_id w \<noteq> ?T\<close> by blast
  qed
  moreover have "ws_id (mn_workspaces m ! mn_active m) \<noteq> ?T"
    using wss_id_unique [OF wb(1) wb(2) idx] False by auto
  then have "\<forall>i. mon_active_window m = Some i \<and> i \<in> set (sticky_window_ids (mn_workspaces m ! mn_active m)) \<longrightarrow> keep = Some i"
    using c(5) wb(2) nth_mem by blast
  moreover have "activate_workspace idx m = Some m'"
    using False idx c(1) T1 m'(1) by (simp add: activate_workspace_def Let_def)
  ultimately show ?thesis using m'(3,6) keeps_trans [OF c(2) m'(2)] by auto
qed

lemma act_ok_activate: "act_ok activate_workspace"
  using activate_ok unfolding act_ok_def by blast

section \<open>The other operations\<close>

definition conserves :: "monitor \<Rightarrow> monitor \<Rightarrow> bool" where
  "conserves m m' \<longleftrightarrow> strip_ok m' \<and> mn_output m' = mn_output m \<and>
     mset (map wkey (all_tiles (mn_workspaces m'))) = mset (map wkey (all_tiles (mn_workspaces m)))"

lemma keeps_conserves: "keeps m m' \<Longrightarrow> conserves m m'"
  by (simp add: keeps_def conserves_def)

lemma conserves_trans: "conserves m m1 \<Longrightarrow> conserves m1 m2 \<Longrightarrow> conserves m m2"
  by (simp add: conserves_def)

lemma conserves_refl: "strip_ok m \<Longrightarrow> conserves m m"
  by (simp add: conserves_def)

lemma activate_conserves:
  "strip_ok m \<Longrightarrow> idx < length (mn_workspaces m) \<Longrightarrow> \<exists>m'. activate_workspace idx m = Some m' \<and> conserves m m'"
  using activate_ok keeps_conserves by blast

lemma move_to_workspace_ok:
  assumes "strip_ok m" and "\<And>i. w = Some i \<Longrightarrow> laid_out i m"
  shows "\<exists>m'. move_to_workspace w idx activate m = Some m' \<and> conserves m m'"
  unfolding move_to_workspace_def
  using move_with_ok [OF act_ok_activate assms(1), of w idx activate] assms(2) keeps_conserves by (auto simp: laid_out_def)

lemma move_active_to_ok:
  assumes ok: "strip_ok m" and idx: "idx < length (mn_workspaces m)"
  shows "\<exists>m'. move_active_to idx focus m = Some m' \<and> conserves m m'"
proof (cases "idx = mn_active m")
  case True
  then show ?thesis using ok conserves_refl by (simp add: move_active_to_def)
next
  case False
  have b: "mn_active m < length (mn_workspaces m)" using strip_ok_bits [OF ok] by simp
  consider "take_window None (mn_active m) m = Some None"
    | (moved) t ws where "take_window None (mn_active m) m = Some (Some (t, m\<lparr>mn_workspaces := (mn_workspaces m)[mn_active m := ws]\<rparr>))"
      "strip_ok (m\<lparr>mn_workspaces := (mn_workspaces m)[mn_active m := ws]\<rparr>)" "ws_meta ws = ws_meta (mn_workspaces m ! mn_active m)"
      "mset (ws_tiles (mn_workspaces m ! mn_active m)) = add_mset t (mset (ws_tiles ws))"
    using take_ok [OF ok b, of None] by blast
  then show ?thesis
  proof cases
    case moved
    show ?thesis using take_then_place [OF act_ok_activate ok b idx moved(2-4)] moved(1) False idx keeps_conserves
      by (fastforce simp: move_active_to_def mon_add_tile_def Let_def)
  qed (use False idx ok conserves_refl in \<open>simp add: move_active_to_def Let_def\<close>)
qed

lemma strip_ok_length: "strip_ok m \<Longrightarrow> 2 \<le> length (mn_workspaces m)"
  by (simp add: strip_ok_def MIN_NUM_WORKSPACES_def)

lemma clamp_idx_less: "strip_ok m \<Longrightarrow> clamp_idx i m < length (mn_workspaces m)"
  using strip_ok_length [of m] by (simp add: clamp_idx_def nat_less_iff)

lemma min_last_less: "strip_ok m \<Longrightarrow> min k (length (mn_workspaces m) - 1) < length (mn_workspaces m)"
  using strip_ok_length [of m] by linarith

lemma switch_ok: "strip_ok m \<Longrightarrow> \<exists>m'. switch_workspace idx m = Some m' \<and> conserves m m'"
  unfolding switch_workspace_def by (rule activate_conserves) (simp_all only: min_last_less)

lemma switch_back_ok:
  assumes "strip_ok m"
  shows "\<exists>m'. switch_workspace_auto_back_and_forth idx m = Some m' \<and> conserves m m'"
    and "\<exists>m'. switch_workspace_previous m = Some m' \<and> conserves m m'"
  using switch_ok [OF assms] conserves_refl [OF assms]
  by (auto simp: switch_workspace_auto_back_and_forth_def switch_workspace_previous_def Let_def split: option.split)

lemma switch_up_down_ok:
  assumes "strip_ok m"
  shows "\<exists>m'. switch_workspace_up i m = Some m' \<and> conserves m m'" and "\<exists>m'. switch_workspace_down i m = Some m' \<and> conserves m m'"
  using assms clamp_idx_less [OF assms] min_last_less [OF assms] strip_ok_bits [OF assms]
  unfolding switch_workspace_up_def switch_workspace_down_def by (auto intro!: activate_conserves)

lemma gesture_end_ok:
  assumes ok: "strip_ok m" and idx: "idx < length (mn_workspaces m)"
  shows "\<exists>m'. workspace_switch_gesture_end same_device idx m = Some m' \<and> conserves m m'"
proof (cases "same_device \<and> (\<exists>d. mn_switch m = Some (SwitchGesture d))")
  case False
  then show ?thesis using ok conserves_refl by (auto simp: workspace_switch_gesture_end_def split: option.split ws_switch.split)
next
  case True
  have wb: "wss_ok (mn_output m) (mn_next m) (mn_workspaces m)" "mn_active m < length (mn_workspaces m)"
    using strip_ok_bits [OF ok] by simp_all
  have T: "ws_idx (ws_id (mn_workspaces m ! idx)) (mn_workspaces m) = Some idx" using ws_idx_at idx wb(1) by (auto simp: wss_ok_def)
  obtain keep m1 where c: "(if mn_active m \<noteq> idx
               then (if length (mn_workspaces m) \<le> idx then None
                     else Option.bind (carry_sticky_to (ws_id (mn_workspaces m ! idx)) m) (\<lambda>(keep, m1).
                       if length (mn_workspaces m1) \<le> mn_active m1 then None
                       else Some (keep, m1\<lparr>mn_previous := Some (ws_id (mn_workspaces m1 ! mn_active m1))\<rparr>)))
               else Some (None, m)) = Some (keep, m1)" "keeps m m1" "\<forall>i. keep = Some i \<longrightarrow> has_window i (mn_workspaces m1 ! idx)"
  proof (cases "mn_active m = idx")
    case True
    show ?thesis by (rule that [of None m]) (use True keeps_refl [OF ok] in simp_all)
  next
    case False
    obtain keep m1 where 1: "carry_sticky_to (ws_id (mn_workspaces m ! idx)) m = Some (keep, m1)" "keeps m m1"
      "\<forall>i. keep = Some i \<longrightarrow> has_window i (mn_workspaces m1 ! idx)" using carry_sticky_ok [OF ok T] by blast
    then have "mn_active m1 < length (mn_workspaces m1)" using strip_ok_bits [of m1] by (simp add: keeps_def)
    then show ?thesis
      by (intro that [of keep "m1\<lparr>mn_previous := Some (ws_id (mn_workspaces m1 ! mn_active m1))\<rparr>"]) (use 1 False idx in simp_all)
  qed
  have ok1: "strip_ok m1" using c(2) by (simp add: keeps_def)
  have idx1: "idx < length (mn_workspaces m1)" using idx keeps_length [OF c(2)] by simp
  have ok2: "strip_ok (m1\<lparr>mn_active := idx\<rparr>)" using ok1 idx1 strip_ok_bits [OF ok1] by simp
  obtain m2 where "keep_focused keep idx (m1\<lparr>mn_active := idx\<rparr>) = Some m2" "keeps m1 m2"
    using keep_focused_ok [OF ok2, of idx keep] idx1 c(3) by auto
  then show ?thesis using True c(1) keeps_trans [OF c(2)] keeps_conserves
    by (fastforce simp: workspace_switch_gesture_end_def)
qed

text \<open>Every workspace changed in a way that keeps its windows.\<close>

definition ws_like :: "workspace \<Rightarrow> workspace \<Rightarrow> bool" where
  "ws_like ws ws' \<longleftrightarrow> ws_ok ws' \<and> ws_meta ws' = ws_meta ws \<and> mset (map wkey (ws_tiles ws')) = mset (map wkey (ws_tiles ws))"

lemma all2_keys: "list_all2 ws_like wss wss' \<Longrightarrow> mset (map wkey (all_tiles wss')) = mset (map wkey (all_tiles wss))"
  by (induction rule: list_all2_induct) (simp_all add: all_tiles_def ws_like_def)

lemma all2_strip:
  assumes ok: "strip_ok m" and l: "list_all2 ws_like (mn_workspaces m) wss"
  shows "conserves m (m\<lparr>mn_workspaces := wss\<rparr>)"
proof -
  let ?wss = "mn_workspaces m"
  have len: "length wss = length ?wss" using l by (simp add: list_all2_lengthD)
  have nth: "ws_like (?wss ! k) (wss ! k)" if "k < length wss" for k using l that len by (simp add: list_all2_conv_all_nth)
  have wb: "wss_ok (mn_output m) (mn_next m) ?wss" using strip_ok_bits [OF ok] by simp
  have keys: "mset (map wkey (all_tiles wss)) = mset (map wkey (all_tiles ?wss))" by (rule all2_keys [OF l])
  have "map ws_id wss = map ws_id ?wss" using nth len by (intro nth_equalityI) (auto simp: ws_like_def ws_meta_def)
  moreover have "\<forall>ws \<in> set wss. ws_ok ws \<and> ws_id ws < mn_next m \<and> ws_output ws = Some (mn_output m)"
    using nth len wb by (fastforce simp: in_set_conv_nth ws_like_def ws_meta_def wss_ok_def)
  ultimately have "wss_ok (mn_output m) (mn_next m) wss" using wb wins_ok_mset [OF keys] by (simp add: wss_ok_def)
  moreover have "lacks_trailing_empty wss = lacks_trailing_empty ?wss"
  proof (cases "wss = []")
    case False
    then have "?wss \<noteq> []" using len by auto
    then have "ws_like (last ?wss) (last wss)" using nth [of "length wss - 1"] len False by (simp add: last_conv_nth)
    moreover have "ws_tiles (last wss) = [] \<longleftrightarrow> ws_tiles (last ?wss) = []" if "ws_like (last ?wss) (last wss)"
      using that arg_cong [of _ _ size] by (fastforce simp: ws_like_def)
    ultimately show ?thesis using len False by (auto simp: lacks_trailing_empty_def has_windows_or_name_def has_windows_def ws_like_def ws_meta_def)
  qed (use len in \<open>auto simp: lacks_trailing_empty_def\<close>)
  ultimately show ?thesis using ok keys len by (simp add: conserves_def strip_ok_def strip_base_def)
qed

lemma try_ok:
  assumes "\<And>ws. ws \<in> set wss \<Longrightarrow> ws_ok ws \<and> (\<exists>ws' b. f ws = Some (ws', b) \<and> ws_like ws ws')"
  shows "\<exists>wss' found. try_workspaces f wss = Some (wss', found) \<and> list_all2 ws_like wss wss' \<and>
    (\<forall>k. found = Some k \<longrightarrow> k < length wss)"
  using assms
proof (induction wss)
  case (Cons ws wss)
  obtain ws1 b where 1: "f ws = Some (ws1, b)" "ws_like ws ws1" using Cons.prems [of ws] by auto
  obtain wss' found where 2: "try_workspaces f wss = Some (wss', found)" "list_all2 ws_like wss wss'"
    "\<forall>k. found = Some k \<longrightarrow> k < length wss" using Cons by auto
  have refl: "list_all2 ws_like wss wss" using Cons.prems by (auto simp: list_all2_same ws_like_def)
  show ?case using 1 2 refl by (cases b) auto
qed simp

lemma try_strip_ok:
  assumes ok: "strip_ok m"
    and f: "\<And>ws. ws_ok ws \<Longrightarrow> wins_ok (map wkey (ws_tiles ws)) \<Longrightarrow> \<exists>ws' b. f ws = Some (ws', b) \<and> ws_ok ws' \<and> ws_meta ws' = ws_meta ws \<and>
      mset (ws_tiles ws') = mset (ws_tiles ws)"
  shows "\<exists>wss found. try_workspaces f (mn_workspaces m) = Some (wss, found) \<and> conserves m (m\<lparr>mn_workspaces := wss\<rparr>) \<and>
    length wss = length (mn_workspaces m) \<and> (\<forall>k. found = Some k \<longrightarrow> k < length (mn_workspaces m))"
proof -
  have wb: "wss_ok (mn_output m) (mn_next m) (mn_workspaces m)" using strip_ok_bits [OF ok] by simp
  have "ws_ok ws \<and> (\<exists>ws' b. f ws = Some (ws', b) \<and> ws_like ws ws')" if ws: "ws \<in> set (mn_workspaces m)" for ws
  proof -
    obtain k where "k < length (mn_workspaces m)" "ws = mn_workspaces m ! k" using ws by (auto simp: in_set_conv_nth)
    then have "ws_ok ws" "wins_ok (map wkey (ws_tiles ws))" using ws_in_strip [OF wb] by auto
    then show ?thesis using f [of ws] by (auto simp: ws_like_def)
  qed
  from try_ok [of "mn_workspaces m" f, OF this] obtain wss found where
    "try_workspaces f (mn_workspaces m) = Some (wss, found)" "list_all2 ws_like (mn_workspaces m) wss"
    "\<forall>k. found = Some k \<longrightarrow> k < length (mn_workspaces m)" by blast
  then show ?thesis using all2_strip [OF ok] list_all2_lengthD by fastforce
qed

end
