(* ===== verification/Strip_Machine.thy ===== *)
theory Strip_Machine
  imports Strip_Invariants
begin

text \<open>
  The strip as a machine: every operation of a monitor that changes its workspaces, in any order, keeps
  the strip's invariant, and all but the ones that add or take windows or workspaces keep the windows.
\<close>

section \<open>Windows by id\<close>

lemma activate_window_ok:
  assumes ok: "strip_ok m"
  shows "\<exists>m'. mon_activate_window i swiping m = Some m' \<and> conserves m m'"
proof -
  obtain wss found where t: "try_workspaces (ws_activate_window i) (mn_workspaces m) = Some (wss, found)"
    "conserves m (m\<lparr>mn_workspaces := wss\<rparr>)" using try_strip_ok [OF ok, of "ws_activate_window i"] ws_activate_ok by blast
  let ?m1 = "m\<lparr>mn_workspaces := wss\<rparr>"
  have "strip_ok ?m1" using t(2) by (simp add: conserves_def)
  then show ?thesis using t switch_ok [of ?m1] conserves_trans [OF t(2)]
    by (auto simp: mon_activate_window_def Let_def split: option.split ws_switch.split)
qed

lemma minimize_window_ok:
  assumes ok: "strip_ok m"
  shows "\<exists>r. mon_minimize_window i m = Some r \<and> conserves m (fst r)"
proof -
  obtain wss found where "try_workspaces (ws_minimize i) (mn_workspaces m) = Some (wss, found)"
    "conserves m (m\<lparr>mn_workspaces := wss\<rparr>)" using try_strip_ok [OF ok, of "ws_minimize i"] ws_minimize_ok by blast
  then show ?thesis by (auto simp: mon_minimize_window_def)
qed

lemma unminimize_window_ok:
  assumes ok: "strip_ok m"
  shows "\<exists>r. mon_unminimize_window i activate m = Some r \<and> conserves m (fst r)"
proof -
  obtain wss found where "try_workspaces (ws_unminimize i activate) (mn_workspaces m) = Some (wss, found)"
    "conserves m (m\<lparr>mn_workspaces := wss\<rparr>)" using try_strip_ok [OF ok, of "ws_unminimize i activate"] ws_unminimize_ok by blast
  then show ?thesis by (auto simp: mon_unminimize_window_def)
qed

lemma remove_window_ok:
  assumes ok: "strip_ok m"
  shows "\<exists>t m'. mon_remove_window i m = Some (t, m') \<and> strip_ok m' \<and> mn_output m' = mn_output m \<and>
    mset (all_tiles (mn_workspaces m)) = mset (case t of None \<Rightarrow> [] | Some x \<Rightarrow> [x]) + mset (all_tiles (mn_workspaces m'))"
proof (cases "position (holds_window i) (mn_workspaces m)")
  case (Some idx)
  then have idx: "idx < length (mn_workspaces m)" "holds_window i (mn_workspaces m ! idx)" by (simp_all add: position_Some)
  have wb: "wss_ok (mn_output m) (mn_next m) (mn_workspaces m)" using strip_ok_bits [OF ok] by simp
  obtain t ws where r: "ws_remove_tile i (mn_workspaces m ! idx) = Some (t, ws)" "ws_ok ws" "ws_meta ws = ws_meta (mn_workspaces m ! idx)"
    "mset (ws_tiles (mn_workspaces m ! idx)) = add_mset t (mset (ws_tiles ws))"
    using ws_remove_ok [OF ws_in_strip(1) [OF wb idx(1)] idx(2)] by blast
  then show ?thesis using Some strip_put_less [OF ok idx(1) r(2-4)] by (auto simp: mon_remove_window_def)
qed (use ok in \<open>simp add: mon_remove_window_def\<close>)

lemma move_ActNo: "move_to_workspace_with act w idx ActNo m = move_to_workspace_with (\<lambda>_ m1. Some m1) w idx ActNo m"
proof -
  have no: "map_smart ActNo b = False" for b by (simp add: map_smart_def)
  have "add_tile_with act t target ActNo True m1 = add_tile_with (\<lambda>_ m1. Some m1) t target ActNo True m1" for t target m1
    unfolding add_tile_with_def no simp_thms if_False ..
  then show ?thesis unfolding move_to_workspace_with_def no Let_def if_False by (simp only:)
qed

lemma send_home_ok:
  "strip_ok m \<Longrightarrow> \<forall>i \<in> set is. laid_out i m \<Longrightarrow> \<exists>m'. send_home home here is m = Some m' \<and> conserves m m'"
proof (induction "is" arbitrary: m)
  case Nil
  then show ?case by (simp add: conserves_refl)
next
  case (Cons i "is")
  show ?case
  proof (cases "ws_idx home (mn_workspaces m)")
    case None
    then show ?thesis using Cons.prems(1) conserves_refl by simp
  next
    case (Some idx)
    obtain m1 where m1: "move_to_workspace (Some i) idx ActNo m = Some m1" "keeps m m1" "\<forall>j. laid_out j m \<longrightarrow> laid_out j m1"
      using carry_move [OF Cons.prems(1), of i idx] Cons.prems(2) ws_idx_Some [OF Some] move_ActNo [of activate_workspace]
      by (auto simp: move_to_workspace_def)
    have "strip_ok m1" using m1(2) by (simp add: keeps_def)
    then obtain m2 where "send_home home here is m1 = Some m2" "conserves m1 m2" using Cons.IH [of m1] m1(3) Cons.prems(2) by (meson list.set_intros(2))
    then show ?thesis using Some m1 Cons.prems(1) conserves_refl conserves_trans [OF keeps_conserves [OF m1(2)]] by auto
  qed
qed

lemma put_like:
  assumes ok: "strip_ok m" and idx: "idx < length (mn_workspaces m)" and l: "ws_like (mn_workspaces m ! idx) w"
  shows "conserves m (m\<lparr>mn_workspaces := (mn_workspaces m)[idx := w]\<rparr>)"
  using strip_put_same [OF ok idx] l by (simp add: ws_like_def conserves_def)

lemma set_sticky_like: "ws_ok ws \<Longrightarrow> ws_like ws (fst (set_sticky i on ws))"
  using set_sticky_ok [of ws i on] by (simp add: ws_like_def)

lemma set_sticky_floating:
  "has_window j (fst (set_sticky i on ws)) = has_window j ws"
proof -
  have "tl_id ` set (update_first (\<lambda>t. tl_id t = i) (put_sticky h on) xs) = tl_id ` set xs" for h xs
    by (induction xs) (auto simp: put_sticky_def)
  moreover have "has_window j w \<longleftrightarrow> j \<in> tl_id ` set (st_tiles (ws_floating w))" for w by (auto simp: has_window_def)
  ultimately show ?thesis by (auto simp: set_sticky_def Let_def split: option.split)
qed

lemma set_window_sticky_ok:
  assumes ok: "strip_ok m"
  shows "\<exists>r. set_window_sticky i on m = Some r \<and> conserves m (fst r)"
proof (cases "position (holds_window i) (mn_workspaces m)")
  case (Some idx)
  then have idx: "idx < length (mn_workspaces m)" by (simp add: position_Some)
  let ?ws = "mn_workspaces m ! idx"
  obtain ws1 changed where s: "set_sticky i on ?ws = (ws1, changed)" by (cases "set_sticky i on ?ws")
  let ?m1 = "m\<lparr>mn_workspaces := (mn_workspaces m)[idx := ws1]\<rparr>"
  have wok: "ws_ok ?ws" using ws_in_strip(1) strip_ok_bits [OF ok] idx by blast
  have c: "conserves m ?m1" using put_like [OF ok idx set_sticky_like [OF wok, of i on]] s by simp
  then have ok1: "strip_ok ?m1" by (simp add: conserves_def)
  have "laid_out j ?m1" if "j \<in> set (sticky_window_ids ?ws)" for j
  proof -
    have "has_window j ws1" using that set_sticky_floating [of j i on ?ws] s by (auto simp: sticky_window_ids_def Let_def)
    then show ?thesis using idx by (auto simp: laid_out_def intro!: bexI [of _ ws1] set_update_memI)
  qed
  then have home: "\<exists>m'. send_home home idx (filter (\<lambda>j. j \<notin> set (sticky_window_ids ws1)) (sticky_window_ids ?ws)) ?m1 = Some m' \<and>
      conserves ?m1 m'" for home by (intro send_home_ok [OF ok1]) simp
  show ?thesis
  proof (cases "on \<or> \<not> changed \<or> sticky_home i ?ws = None")
    case True
    then show ?thesis using Some s c by (auto simp: set_window_sticky_def Let_def)
  next
    case False
    then obtain h where h: "sticky_home i ?ws = Some h" by auto
    obtain m' where "send_home h idx (filter (\<lambda>j. j \<notin> set (sticky_window_ids ws1)) (sticky_window_ids ?ws)) ?m1 = Some m'"
      "conserves ?m1 m'" using home [of h] by blast
    then show ?thesis using Some s h False conserves_trans [OF c] by (simp add: set_window_sticky_def Let_def)
  qed
qed (use ok conserves_refl in \<open>simp add: set_window_sticky_def\<close>)

section \<open>Workspaces\<close>

lemma all_tiles_perm:
  assumes "mset wss = mset wss'"
  shows "mset (all_tiles wss) = mset (all_tiles wss')"
proof -
  have e: "mset (all_tiles xs) = sum_mset (image_mset (\<lambda>w. mset (ws_tiles w)) (mset xs))" for xs
    by (induction xs) (simp_all add: all_tiles_def)
  show ?thesis unfolding e assms ..
qed

lemma wss_ok_perm:
  assumes "mset wss = mset wss'"
  shows "wss_ok out next wss = wss_ok out next wss'"
proof -
  have "mset (map ws_id wss) = mset (map ws_id wss')" using assms by simp
  note d = mset_eq_imp_distinct_iff [OF this]
  have "mset (map wkey (all_tiles wss)) = mset (map wkey (all_tiles wss'))" using all_tiles_perm [OF assms] by simp
  note w = wins_ok_mset [OF this]
  show ?thesis using mset_eq_setD [OF assms] d w by (simp add: wss_ok_def)
qed

lemma wss_ok_Cons:
  "wss_ok out next (w # wss) \<longleftrightarrow> ws_ok w \<and> ws_id w < next \<and> ws_output w = Some out \<and> ws_id w \<notin> ws_id ` set wss \<and>
     (\<forall>ws \<in> set wss. ws_ok ws \<and> ws_id ws < next \<and> ws_output ws = Some out) \<and> distinct (map ws_id wss) \<and>
     wins_ok (map wkey (ws_tiles w @ all_tiles wss))"
  by (auto simp: wss_ok_def all_tiles_def)

lemma wss_ok_tail: "wss_ok out next (w # wss) \<Longrightarrow> wss_ok out next wss"
  using wins_ok_subset_mset [of "map wkey (ws_tiles w @ all_tiles wss)" "map wkey (all_tiles wss)"]
  unfolding wss_ok_Cons by (simp add: wss_ok_def)

lemma vec_remove_perm: "vec_remove idx xs = Some (x, ys) \<Longrightarrow> mset xs = mset (x # ys)"
  by (auto simp: vec_remove_Some)

lemma vec_insert_perm: "vec_insert idx x xs = Some ys \<Longrightarrow> mset ys = mset (x # xs)"
  by (auto simp: vec_insert_Some)

text \<open>Clean-up after the workspaces were rearranged.\<close>

lemma clean_up_conserves:
  assumes "wss_ok (mn_output m) (mn_next m) (mn_workspaces m)" and "mn_active m < length (mn_workspaces m)" and "mn_switch m = None"
  shows "\<exists>m'. clean_up_workspaces m = Some m' \<and> conserves m m'"
proof -
  have "strip_base m" using assms by (simp add: strip_base_def)
  then obtain m' n where "clean_up_workspaces m = Some m'" "grows n m m'" "strip_ok m'" using clean_up_ok assms(3) by blast
  then show ?thesis using grows_tiles [of n m m'] by (simp add: conserves_def grows_def)
qed

lemma close_workspace_ok:
  assumes ok: "strip_ok m"
  shows "\<exists>r. close_workspace i m = Some r \<and> conserves m (fst r)"
proof (cases "\<exists>idx. ws_idx i (mn_workspaces m) = Some idx \<and> workspace_is_closable idx m")
  case True
  then obtain idx where idx: "ws_idx i (mn_workspaces m) = Some idx" "workspace_is_closable idx m" by blast
  then have c: "idx + 1 < length (mn_workspaces m)" "ws_tiles (mn_workspaces m ! idx) = []"
    by (auto simp: workspace_is_closable_def has_windows_def)
  then obtain wss where r: "vec_remove idx (mn_workspaces m) = Some (mn_workspaces m ! idx, wss)" by (simp add: vec_remove_def)
  have p: "mset (mn_workspaces m) = mset ((mn_workspaces m ! idx) # wss)" by (rule vec_remove_perm [OF r])
  have wb: "wss_ok (mn_output m) (mn_next m) wss" "mn_active m < length (mn_workspaces m)"
    using strip_ok_bits [OF ok] wss_ok_perm [OF p] wss_ok_tail by blast+
  have len: "length (mn_workspaces m) = Suc (length wss)" using arg_cong [OF p, of size] by simp
  have keys: "mset (map wkey (all_tiles wss)) = mset (map wkey (all_tiles (mn_workspaces m)))"
    using all_tiles_perm [OF p] c(2) by (simp add: all_tiles_def)
  let ?m1 = "m\<lparr>mn_switch := None, mn_workspaces := wss,
    mn_active := (if idx < mn_active m then mn_active m - 1 else mn_active m)\<rparr>"
  have "(if idx < mn_active m then mn_active m - 1 else mn_active m) < length wss" using wb(2) len c(1) by auto
  then obtain m' where "clean_up_workspaces ?m1 = Some m'" "conserves ?m1 m'"
    using clean_up_conserves [of ?m1] wb(1) by auto
  then show ?thesis using idx r keys by (auto simp: close_workspace_def conserves_def)
next
  case False
  then show ?thesis using ok conserves_refl by (auto simp: close_workspace_def split: option.split)
qed

lemma put_dressed:
  assumes ok: "strip_ok m" and idx: "idx < length (mn_workspaces m)"
    and w: "ws_ok w" "ws_tiles w = ws_tiles (mn_workspaces m ! idx)" "ws_id w = ws_id (mn_workspaces m ! idx)"
      "ws_output w = ws_output (mn_workspaces m ! idx)"
      "has_windows_or_name w \<Longrightarrow> has_windows_or_name (mn_workspaces m ! idx)"
  shows "conserves m (m\<lparr>mn_workspaces := (mn_workspaces m)[idx := w]\<rparr>)"
proof -
  let ?wss = "mn_workspaces m"
  have wb: "wss_ok (mn_output m) (mn_next m) ?wss" using strip_ok_bits [OF ok] by simp
  have "mset (all_tiles (?wss[idx := w])) = mset (all_tiles ?wss)" using all_tiles_update [OF idx, of w] w(2) by simp
  then have keys: "mset (map wkey (all_tiles (?wss[idx := w]))) = mset (map wkey (all_tiles ?wss))" by simp
  have "wss_ok (mn_output m) (mn_next m) (?wss[idx := w])"
    using w wins_ok_mset [OF keys] wb ws_in_strip(2) [OF wb idx] by (intro wss_ok_update [OF wb idx]) (auto simp: wss_ok_def)
  moreover have "\<not> lacks_trailing_empty (?wss[idx := w])"
  proof (rule trailing_update [OF _ idx])
    show l: "\<not> lacks_trailing_empty ?wss" using ok by (simp add: strip_ok_def)
    show "\<not> has_windows_or_name w" if "idx = length ?wss - 1"
      using l that w(5) by (auto simp: lacks_trailing_empty_def last_conv_nth)
  qed
  ultimately show ?thesis using ok keys by (simp add: conserves_def strip_ok_def strip_base_def)
qed

lemma unname_ok:
  assumes ok: "strip_ok m"
  shows "\<exists>r. unname_workspace i m = Some r \<and> conserves m (fst r)"
proof (cases "ws_idx i (mn_workspaces m)")
  case (Some idx)
  let ?m1 = "m\<lparr>mn_workspaces := (mn_workspaces m)[idx := unname (mn_workspaces m ! idx)]\<rparr>"
  have idx: "idx < length (mn_workspaces m)" using ws_idx_Some [OF Some] by simp
  have "ws_ok (mn_workspaces m ! idx)" using ws_in_strip(1) strip_ok_bits [OF ok] idx by blast
  then have c: "conserves m ?m1"
    by (intro put_dressed [OF ok idx]) (auto simp: unname_def ws_ok_def ws_tiles_def has_windows_or_name_def has_windows_def)
  then have "strip_ok ?m1" by (simp add: conserves_def)
  then obtain m' where m': "(if mn_switch ?m1 = None then clean_up_workspaces ?m1 else Some ?m1) = Some m'" "keeps ?m1 m'"
    using strip_ok_clean [of ?m1] by blast
  then have "unname_workspace i m = Some (m', True)" using Some by (auto simp: unname_workspace_def Let_def split: if_splits)
  then show ?thesis using conserves_trans [OF c keeps_conserves [OF m'(2)]] by simp
qed (use ok conserves_refl in \<open>simp add: unname_workspace_def\<close>)

lemma stamp_conserves: "strip_ok m \<Longrightarrow> conserves m (stamp_home_ordinals m)"
  using keeps_conserves keeps_grows grows_stamp [OF grows_refl, of m]
  by (metis add.right_neutral grows_base grows_length grows_trailing strip_ok_def)

lemma rehome_ok:
  assumes ok: "strip_ok m"
  shows "conserves m (rehome_workspace idx m)"
proof (cases "idx < length (mn_workspaces m)")
  case True
  let ?m1 = "m\<lparr>mn_workspaces := (mn_workspaces m)[idx := (mn_workspaces m ! idx)\<lparr>ws_home := mn_output m\<rparr>]\<rparr>"
  have "ws_ok (mn_workspaces m ! idx)" using ws_in_strip(1) strip_ok_bits [OF ok] True by blast
  then have c: "conserves m ?m1"
    by (intro put_dressed [OF ok True]) (auto simp: ws_ok_def ws_tiles_def has_windows_or_name_def has_windows_def)
  then have "conserves ?m1 (stamp_home_ordinals ?m1)" using stamp_conserves by (simp add: conserves_def)
  then show ?thesis using conserves_trans [OF c] True by (simp add: rehome_workspace_def)
qed (use stamp_conserves [OF ok] in \<open>simp add: rehome_workspace_def\<close>)

lemma advance_like: "ws_ok ws \<Longrightarrow> ws_like ws (ws_advance_animations ws)"
proof -
  assume ok: "ws_ok ws"
  let ?fl = "ws_floating ws"
  have m: "mset (st_tiles (stack_advance_animations ?fl)) = mset (st_tiles ?fl)"
    using ok resettle_ok(2) by (simp add: stack_advance_animations_def ws_ok_def stack_ok_def)
  then have "mset (map wkey (ws_tiles (ws_advance_animations ws))) = mset (map wkey (ws_tiles ws))"
    by (simp add: ws_tiles_def ws_advance_animations_def)
  moreover have "(st_tiles (stack_advance_animations ?fl) = []) = (st_tiles ?fl = [])" using m mset_zero_iff by metis
  ultimately show ?thesis using ok frame_ok
    by (auto simp: ws_like_def ws_ok_def ws_meta_def ws_advance_animations_def)
qed

lemma advance_ok:
  assumes ok: "strip_ok m"
  shows "\<exists>m'. mon_advance_animations done m = Some m' \<and> conserves m m'"
proof -
  have frame: "conserves m1 (m1\<lparr>mn_workspaces := map ws_advance_animations (mn_workspaces m1)\<rparr>)" if "strip_ok m1" for m1
  proof (rule all2_strip [OF that])
    have "\<forall>ws \<in> set (mn_workspaces m1). ws_ok ws" using strip_ok_bits [OF that] by (simp add: wss_ok_def)
    then show "list_all2 ws_like (mn_workspaces m1) (map ws_advance_animations (mn_workspaces m1))"
      using advance_like by (simp add: list_all2_conv_all_nth)
  qed
  show ?thesis
  proof (cases "mn_switch m = Some SwitchAnimation \<and> done")
    case True
    let ?m0 = "m\<lparr>mn_switch := None\<rparr>"
    obtain m1 where m1: "clean_up_workspaces ?m0 = Some m1" "keeps ?m0 m1"
      using strip_ok_clean [of ?m0] ok by auto
    then have c: "conserves m m1" using keeps_conserves by simp
    then show ?thesis using True m1(1) frame [of m1] conserves_trans [OF c] by (simp add: mon_advance_animations_def conserves_def)
  qed (use frame [OF ok] in \<open>auto simp: mon_advance_animations_def\<close>)
qed

lemma gesture_begin_ok:
  assumes "strip_ok m"
  shows "conserves m (workspace_switch_gesture_begin m)" and "conserves m (dnd_scroll_gesture_begin b m)"
  using assms by (simp_all add: workspace_switch_gesture_begin_def dnd_scroll_gesture_begin_def conserves_def)

section \<open>Workspaces come and go\<close>

text \<open>Workspaces that can join a strip: in order themselves, with ids already given out and not in use on it,
  and with none of its windows.\<close>

definition can_join :: "workspace list \<Rightarrow> nat \<Rightarrow> workspace list \<Rightarrow> bool" where
  "can_join others next wss \<longleftrightarrow> (\<forall>ws \<in> set others. ws_ok ws \<and> ws_id ws < next) \<and> distinct (map ws_id (others @ wss)) \<and>
     wins_ok (map wkey (all_tiles (others @ wss)))"

lemma set_output_simps [simp]:
  "ws_id (set_output out ws) = ws_id ws" "ws_tiles (set_output out ws) = ws_tiles ws" "ws_ok (set_output out ws) = ws_ok ws"
  "ws_output (set_output out ws) = out" "has_windows_or_name (set_output out ws) = has_windows_or_name ws"
  by (auto simp: set_output_def Let_def ws_tiles_def ws_ok_def has_windows_or_name_def has_windows_def split: option.split)

lemma set_output_tiles [simp]: "all_tiles (map (set_output out) wss) = all_tiles wss"
  by (simp add: all_tiles_def comp_def)

lemma all_tiles_append [simp]: "all_tiles (xs @ ys) = all_tiles xs @ all_tiles ys"
  by (simp add: all_tiles_def)

lemma can_join_ok:
  assumes "wss_ok out next wss" and "can_join others next wss"
  shows "wss_ok out next (map (set_output (Some out)) others @ wss)"
  using assms by (auto simp: wss_ok_def can_join_def comp_def)

lemma vec_insert_ok: "i \<le> length xs \<Longrightarrow> \<exists>ys. vec_insert i x xs = Some ys"
  by (simp add: vec_insert_def)

lemma last_vec_insert: "vec_insert i x xs = Some ys \<Longrightarrow> i < length xs \<Longrightarrow> last ys = last xs"
  by (auto simp: vec_insert_Some)

lemma wss_ok_new:
  assumes "wss_ok out next wss" and "mset wss' = mset (new_workspace out next # wss)"
  shows "wss_ok out (next + 1) wss'"
proof -
  have n: "fresh_ws out next 1 = [new_workspace out next]" by (simp add: fresh_ws_def)
  have "mset wss' = mset (wss @ fresh_ws out next 1)" using assms(2) unfolding n by simp
  then show ?thesis using wss_ok_append_fresh [OF assms(1), of 1] wss_ok_perm by blast
qed

lemma new_workspace_empty [simp]: "\<not> has_windows_or_name (new_workspace out i)"
  by (simp add: has_windows_or_name_def has_windows_def) (simp add: new_workspace_def)

lemma add_at_ok:
  assumes ok: "strip_ok m" and idx: "idx \<le> length (mn_workspaces m)"
  shows "\<exists>m'. add_workspace_at idx m = Some m' \<and> conserves m m'"
proof -
  obtain wss where w: "vec_insert idx (new_workspace (mn_output m) (mn_next m)) (mn_workspaces m) = Some wss"
    using vec_insert_ok [OF idx] by blast
  note p = vec_insert_perm [OF w]
  let ?m1 = "m\<lparr>mn_workspaces := wss, mn_active := (if idx \<le> mn_active m then mn_active m + 1 else mn_active m), mn_next := mn_next m + 1\<rparr>"
  have b: "wss_ok (mn_output m) (mn_next m) (mn_workspaces m)" "mn_active m < length (mn_workspaces m)" using strip_ok_bits [OF ok] by simp_all
  have len: "length wss = Suc (length (mn_workspaces m))" using arg_cong [OF p, of size] by simp
  have "\<not> has_windows_or_name (last wss)"
  proof (cases "idx = length (mn_workspaces m)")
    case True
    then show ?thesis using w by (auto simp: vec_insert_def)
  next
    case False
    then show ?thesis using last_vec_insert [OF w] idx ok by (simp add: strip_ok_def lacks_trailing_empty_def)
  qed
  then have "\<not> lacks_trailing_empty wss" using len by (auto simp: lacks_trailing_empty_def)
  then have "strip_ok ?m1" using ok len wss_ok_new [OF b(1) p] b(2) by (simp add: strip_ok_def strip_base_def)
  moreover have "mset (map wkey (all_tiles wss)) = mset (map wkey (all_tiles (mn_workspaces m)))"
    using all_tiles_perm [OF p] by (simp add: all_tiles_def)
  ultimately have "conserves m ?m1" by (simp add: conserves_def)
  then show ?thesis using w stamp_conserves [of ?m1] conserves_trans [of m ?m1] by (simp add: add_workspace_at_def conserves_def)
qed

text \<open>A workspace taken off a strip, with its windows.\<close>

lemma clean_up_noop:
  assumes "mn_switch m = None" and "\<not> lacks_trailing_empty (mn_workspaces m)" and "MIN_NUM_WORKSPACES \<le> length (mn_workspaces m)"
  shows "clean_up_workspaces m = Some (stamp_home_ordinals m)"
  using assms by (simp add: clean_up_workspaces_def)

lemma remove_at_ok:
  assumes ok: "strip_ok m" and idx: "idx < length (mn_workspaces m)"
  shows "\<exists>ws m'. remove_workspace_by_idx idx m = Some (ws, m') \<and> strip_ok m' \<and> mn_output m' = mn_output m \<and>
    mset (map wkey (all_tiles (mn_workspaces m))) = mset (map wkey (ws_tiles ws)) + mset (map wkey (all_tiles (mn_workspaces m')))"
proof -
  have b: "wss_ok (mn_output m) (mn_next m) (mn_workspaces m)" "mn_active m < length (mn_workspaces m)"
    "2 \<le> length (mn_workspaces m)" using strip_ok_bits [OF ok] strip_ok_length [OF ok] by simp_all
  obtain m1 n where m1: "(if idx = length (mn_workspaces m) - 1 then add_workspace_bottom m else Some m) = Some m1" "grows n m m1"
    using add_bottom_grows [OF b(2)] grows_refl by (cases "idx = length (mn_workspaces m) - 1") auto
  have len1: "length (mn_workspaces m1) = length (mn_workspaces m) + n" by (rule grows_length [OF m1(2)])
  have b1: "wss_ok (mn_output m1) (mn_next m1) (mn_workspaces m1)"
    using grows_base [OF m1(2)] ok by (simp add: strip_ok_def strip_base_def)
  have a1: "mn_active m1 = mn_active m" "mn_output m1 = mn_output m" using m1(2) by (simp_all add: grows_def)
  obtain ws wss where r: "vec_remove idx (mn_workspaces m1) = Some (ws, wss)" using idx len1 by (simp add: vec_remove_def)
  note p = vec_remove_perm [OF r]
  have len: "length (mn_workspaces m1) = Suc (length wss)" using arg_cong [OF p, of size] by simp
  let ?m2 = "m1\<lparr>mn_workspaces := wss, mn_switch := None,
    mn_active := (if idx \<le> mn_active m1 \<and> 0 < mn_active m1 then mn_active m1 - 1 else mn_active m1)\<rparr>"
  have "mn_active ?m2 < length wss" using b idx len len1 by (auto simp: a1)
  moreover have "wss_ok (mn_output m1) (mn_next m1) wss" using b1 wss_ok_perm [OF p] wss_ok_tail by blast
  ultimately obtain m' where m': "clean_up_workspaces ?m2 = Some m'" "conserves ?m2 m'" using clean_up_conserves [of ?m2] by auto
  have "mset (all_tiles (mn_workspaces m)) = mset (ws_tiles ws) + mset (all_tiles wss)"
    using all_tiles_perm [OF p] grows_tiles [OF m1(2)] by (simp add: all_tiles_def)
  then have "mset (map wkey (all_tiles (mn_workspaces m))) = mset (map wkey (ws_tiles ws)) + mset (map wkey (all_tiles wss))" by simp
  moreover have "remove_workspace_by_idx idx m = Some (set_output None ws, m')"
    unfolding remove_workspace_by_idx_def m1(1) using r m'(1) b(3) by auto
  ultimately show ?thesis using m'(2) a1(2) by (simp add: conserves_def)
qed

lemma conserves_ok: "conserves m m' \<Longrightarrow> strip_ok m'"
  by (simp add: conserves_def)

lemma clean_after: "strip_ok m \<Longrightarrow> \<exists>m'. clean_up_workspaces (m\<lparr>mn_switch := None\<rparr>) = Some m' \<and> conserves m m'"
  using strip_ok_clean [of "m\<lparr>mn_switch := None\<rparr>"] keeps_conserves by fastforce

lemma insert_ok:
  assumes ok: "strip_ok m" and join: "can_join [ws] (mn_next m) (mn_workspaces m)" and idx: "idx \<le> length (mn_workspaces m)"
  shows "\<exists>m'. insert_workspace ws idx activate m = Some m' \<and> strip_ok m' \<and> mn_output m' = mn_output m \<and>
    mset (map wkey (all_tiles (mn_workspaces m'))) = mset (map wkey (ws_tiles ws)) + mset (map wkey (all_tiles (mn_workspaces m)))"
proof -
  define i where "i = (if idx = length (mn_workspaces m) then idx - 1 else idx)"
  have b: "wss_ok (mn_output m) (mn_next m) (mn_workspaces m)" "mn_active m < length (mn_workspaces m)"
    "2 \<le> length (mn_workspaces m)" using strip_ok_bits [OF ok] strip_ok_length [OF ok] by simp_all
  then have i: "i < length (mn_workspaces m)" using idx by (auto simp: i_def)
  then obtain wss where w: "vec_insert i (set_output (Some (mn_output m)) ws) (mn_workspaces m) = Some wss"
    using vec_insert_ok [of i "mn_workspaces m"] by auto
  note p = vec_insert_perm [OF w]
  have len: "length wss = Suc (length (mn_workspaces m))" using arg_cong [OF p, of size] by simp
  define m1 where "m1 = m\<lparr>mn_workspaces := wss, mn_active := (if i \<le> mn_active m then mn_active m + 1 else mn_active m)\<rparr>"
  have "wss_ok (mn_output m) (mn_next m) wss" using can_join_ok [OF b(1) join] wss_ok_perm [OF p] by simp
  moreover have "\<not> lacks_trailing_empty wss"
    using last_vec_insert [OF w i] ok len by (auto simp: lacks_trailing_empty_def strip_ok_def)
  ultimately have ok1: "strip_ok m1" using ok len b(2) by (simp add: m1_def strip_ok_def strip_base_def)
  have keys: "mset (map wkey (all_tiles wss)) = mset (map wkey (ws_tiles ws)) + mset (map wkey (all_tiles (mn_workspaces m)))"
    using all_tiles_perm [OF p] by (simp add: all_tiles_def)
  obtain m2 where m2: "(if activate then activate_workspace i (m1\<lparr>mn_switch := None\<rparr>) else Some m1) = Some m2" "conserves m1 m2"
    using activate_conserves [of "m1\<lparr>mn_switch := None\<rparr>" i] ok1 i len conserves_refl [OF ok1]
    by (cases activate) (auto simp: m1_def conserves_def)
  obtain m' where m': "clean_up_workspaces (m2\<lparr>mn_switch := None\<rparr>) = Some m'" "conserves m2 m'"
    using clean_after [OF conserves_ok [OF m2(2)]] by blast
  have "insert_workspace ws idx activate m = Some m'"
    using w m2(1) m'(1) b(3) by (auto simp: insert_workspace_def i_def [symmetric] m1_def [symmetric] Let_def)
  then show ?thesis using conserves_trans [OF m2(2) m'(2)] keys by (simp add: conserves_def m1_def)
qed

lemma append_ok:
  assumes ok: "strip_ok m" and join: "can_join others (mn_next m) (mn_workspaces m)"
  shows "\<exists>m'. append_workspaces others m = Some m' \<and> strip_ok m' \<and> mn_output m' = mn_output m \<and>
    mset (map wkey (all_tiles (mn_workspaces m'))) = mset (map wkey (all_tiles others)) + mset (map wkey (all_tiles (mn_workspaces m)))"
proof (cases "others = []")
  case False
  let ?os = "map (set_output (Some (mn_output m))) others"
  define wss where "wss = butlast (mn_workspaces m) @ ?os @ [last (mn_workspaces m)]"
  have b: "wss_ok (mn_output m) (mn_next m) (mn_workspaces m)" "mn_active m < length (mn_workspaces m)"
    "mn_workspaces m \<noteq> []" using strip_ok_bits [OF ok] strip_ok_length [OF ok] by auto
  have "mn_workspaces m = butlast (mn_workspaces m) @ [last (mn_workspaces m)]" using b(3) by simp
  then have p: "mset wss = mset (?os @ mn_workspaces m)" unfolding wss_def
    by (metis (no_types, lifting) mset_append union_commute union_assoc)
  have "wss_ok (mn_output m) (mn_next m) wss" using can_join_ok [OF b(1) join] wss_ok_perm [OF p] by simp
  moreover have len: "length wss = length others + length (mn_workspaces m)" using arg_cong [OF p, of size] by simp
  let ?m1 = "m\<lparr>mn_workspaces := wss, mn_switch := None,
    mn_active := (if mn_active m = length (mn_workspaces m) - 1 then length wss - 1 else mn_active m)\<rparr>"
  have "mn_active ?m1 < length wss" using b(2) len by auto
  ultimately obtain m' where m': "clean_up_workspaces ?m1 = Some m'" "conserves ?m1 m'" using clean_up_conserves [of ?m1] by auto
  have "mset (all_tiles wss) = mset (all_tiles others) + mset (all_tiles (mn_workspaces m))" using all_tiles_perm [OF p] by simp
  then have "mset (map wkey (all_tiles wss)) = mset (map wkey (all_tiles others)) + mset (map wkey (all_tiles (mn_workspaces m)))" by simp
  moreover have "append_workspaces others m = Some m'"
    using False b(3) m'(1) by (simp add: append_workspaces_def wss_def [symmetric] Let_def)
  ultimately show ?thesis using m'(2) by (simp add: conserves_def)
qed (use ok in \<open>simp add: append_workspaces_def all_tiles_def\<close>)

text \<open>The same workspaces in another order.\<close>

lemma reorder_ok:
  assumes ok: "strip_ok m" and p: "mset wss = mset (mn_workspaces m)"
    and last: "\<not> into_last \<Longrightarrow> last wss = last (mn_workspaces m)"
  shows "\<exists>m'. (if into_last then add_workspace_bottom (m\<lparr>mn_workspaces := wss\<rparr>) else Some (m\<lparr>mn_workspaces := wss\<rparr>)) = Some m' \<and>
    conserves m m' \<and> mn_active m' = mn_active m \<and> length (mn_workspaces m) \<le> length (mn_workspaces m')"
proof -
  let ?m1 = "m\<lparr>mn_workspaces := wss\<rparr>"
  have len: "length wss = length (mn_workspaces m)" using arg_cong [OF p, of size] by simp
  have base: "strip_base ?m1" using ok len wss_ok_perm [OF p] by (simp add: strip_ok_def strip_base_def)
  have keys: "mset (map wkey (all_tiles wss)) = mset (map wkey (all_tiles (mn_workspaces m)))" using all_tiles_perm [OF p] by simp
  show ?thesis
  proof (cases into_last)
    case True
    obtain m2 where m2: "add_workspace_bottom ?m1 = Some m2" "grows 1 ?m1 m2"
      using add_bottom_grows [of ?m1] base by (auto simp: strip_base_def)
    have "strip_ok m2" using grows_base [OF m2(2) base] grows_trailing [OF m2(2)] grows_length [OF m2(2)] ok len
      by (simp add: strip_ok_def)
    then show ?thesis using True m2 keys len grows_tiles [OF m2(2)] grows_length [OF m2(2)] by (simp add: conserves_def grows_def)
  next
    case False
    have "\<not> lacks_trailing_empty wss" using last [OF False] ok len by (auto simp: strip_ok_def lacks_trailing_empty_def)
    then show ?thesis using False base ok keys len by (simp add: conserves_def strip_ok_def)
  qed
qed

lemma swap_at_facts:
  assumes "i < length xs" and "j < length xs"
  shows "mset (swap_at i j xs) = mset xs" and "i < length xs - 1 \<Longrightarrow> j < length xs - 1 \<Longrightarrow> last (swap_at i j xs) = last xs"
proof -
  show "mset (swap_at i j xs) = mset xs" unfolding swap_at_def by (rule mset_swap [OF assms(2,1)])
  show "last (swap_at i j xs) = last xs" if "i < length xs - 1" "j < length xs - 1"
  proof -
    have "xs \<noteq> []" "swap_at i j xs \<noteq> []" using assms by (auto simp: swap_at_def)
    then show ?thesis using that by (simp add: last_conv_nth swap_at_def)
  qed
qed

lemma move_active_ok:
  assumes ok: "strip_ok m" and new: "new_idx < length (mn_workspaces m)"
    and last: "\<not> into_last \<Longrightarrow> max new_idx (mn_active m) < length (mn_workspaces m) - 1"
  shows "\<exists>m'. move_active_workspace new_idx into_last m = Some m' \<and> conserves m m'"
proof (cases "new_idx = mn_active m")
  case False
  have b: "mn_active m < length (mn_workspaces m)" using strip_ok_bits [OF ok] by simp
  let ?wss = "swap_at (mn_active m) new_idx (mn_workspaces m)"
  note sw = swap_at_facts [OF b new]
  obtain m2 where m2: "(if into_last then add_workspace_bottom (m\<lparr>mn_workspaces := ?wss\<rparr>) else Some (m\<lparr>mn_workspaces := ?wss\<rparr>)) = Some m2"
    "conserves m m2" "length (mn_workspaces m) \<le> length (mn_workspaces m2)"
    using reorder_ok [OF ok sw(1), of into_last] sw(2) last by auto
  obtain m3 where m3: "activate_workspace new_idx m2 = Some m3" "conserves m2 m3"
    using activate_conserves [OF conserves_ok [OF m2(2)], of new_idx] new m2(3) by auto
  let ?m4 = "m3\<lparr>mn_previous := mn_previous m\<rparr>"
  have c: "conserves m ?m4" using conserves_trans [OF m2(2) m3(2)] by (simp add: conserves_def)
  obtain m' where m': "clean_up_workspaces (?m4\<lparr>mn_switch := None\<rparr>) = Some m'" "conserves ?m4 m'"
    using clean_after [OF conserves_ok [OF c]] by blast
  have e: "m3\<lparr>mn_switch := None, mn_previous := mn_previous m\<rparr> = ?m4\<lparr>mn_switch := None\<rparr>" by simp
  have "move_active_workspace new_idx into_last m = Some m'"
    unfolding move_active_workspace_def Let_def m2(1) using False b new m3(1) m'(1) [folded e] by simp
  then show ?thesis using conserves_trans [OF c m'(2)] by blast
qed (use ok conserves_refl in \<open>simp add: move_active_workspace_def\<close>)

lemma move_workspace_ok:
  assumes ok: "strip_ok m"
  shows "\<exists>m'. move_workspace_down m = Some m' \<and> conserves m m'" and "\<exists>m'. move_workspace_up m = Some m' \<and> conserves m m'"
proof -
  have b: "mn_active m < length (mn_workspaces m)" using strip_ok_bits [OF ok] by simp
  show "\<exists>m'. move_workspace_down m = Some m' \<and> conserves m m'"
    unfolding move_workspace_down_def Let_def using b by (intro move_active_ok [OF ok]) auto
  show "\<exists>m'. move_workspace_up m = Some m' \<and> conserves m m'"
    unfolding move_workspace_up_def using b by (intro move_active_ok [OF ok]) auto
qed

lemma move_to_idx_ok:
  assumes ok: "strip_ok m"
  shows "\<exists>m'. move_workspace_to_idx old_idx to_idx m = Some m' \<and> conserves m m'"
proof -
  let ?wss = "mn_workspaces m"
  define new_idx where "new_idx = min to_idx (length ?wss - 1)"
  show ?thesis
  proof (cases "length ?wss \<le> old_idx \<or> old_idx = new_idx")
    case True
    then show ?thesis using conserves_refl [OF ok] by (auto simp: move_workspace_to_idx_def new_idx_def Let_def)
  next
    case False
    then have old: "old_idx < length ?wss" "old_idx \<noteq> new_idx" by auto
    have b: "mn_active m < length ?wss" using strip_ok_bits [OF ok] by simp
    obtain ws rest where r: "vec_remove old_idx ?wss = Some (ws, rest)" using old by (simp add: vec_remove_def)
    note p = vec_remove_perm [OF r]
    have len: "length ?wss = Suc (length rest)" using arg_cong [OF p, of size] by simp
    have new: "new_idx \<le> length rest" using len by (simp add: new_idx_def)
    obtain wss where w: "vec_insert new_idx ws rest = Some wss" using vec_insert_ok [OF new] by blast
    note q = vec_insert_perm [OF w]
    have mset: "mset wss = mset ?wss" using p q by simp
    have lw: "length wss = length ?wss" using arg_cong [OF mset, of size] by simp
    have last: "last wss = last ?wss" if "max new_idx old_idx \<noteq> length wss - 1"
    proof -
      have "new_idx < length rest" "old_idx < length rest" using that new old len lw by auto
      moreover from this have "last rest = last ?wss" using r by (auto simp: vec_remove_Some)
      ultimately show ?thesis using last_vec_insert [OF w] by simp
    qed
    obtain m2 where m2: "(if max new_idx old_idx = length wss - 1 then add_workspace_bottom (m\<lparr>mn_workspaces := wss\<rparr>)
        else Some (m\<lparr>mn_workspaces := wss\<rparr>)) = Some m2"
      "conserves m m2" "mn_active m2 = mn_active m" "length ?wss \<le> length (mn_workspaces m2)"
      using reorder_ok [OF ok mset, of "max new_idx old_idx = length wss - 1"] last by blast
    let ?a = "if mn_active m2 = old_idx then new_idx
      else if new_idx \<le> mn_active m2 \<and> mn_active m2 < old_idx then mn_active m2 + 1
      else if mn_active m2 \<le> new_idx \<and> old_idx < mn_active m2 then mn_active m2 - 1 else mn_active m2"
    have a: "?a < length (mn_workspaces m2)" using b old new len m2(3,4) by auto
    let ?m3 = "m2\<lparr>mn_active := ?a\<rparr>"
    have c: "conserves m ?m3" using m2(2) a by (auto simp: conserves_def strip_ok_def strip_base_def)
    obtain m' where m': "clean_up_workspaces (?m3\<lparr>mn_switch := None\<rparr>) = Some m'" "conserves ?m3 m'"
      using clean_after [OF conserves_ok [OF c]] by blast
    have e: "m2\<lparr>mn_switch := None, mn_active := ?a\<rparr> = ?m3\<lparr>mn_switch := None\<rparr>" by simp
    have "move_workspace_to_idx old_idx to_idx m = Some m'"
      unfolding move_workspace_to_idx_def Let_def new_idx_def [symmetric] using old r w m2(1) m'(1) [folded e] by simp
    then show ?thesis using conserves_trans [OF c m'(2)] by blast
  qed
qed

text \<open>Shedding: each round takes an empty workspace off the middle of the strip, so the strip shrinks.\<close>

lemma remove_middle:
  assumes ok: "strip_ok m" and idx: "idx < length (mn_workspaces m) - 1" and len: "2 < length (mn_workspaces m)"
  shows "\<exists>m'. remove_workspace_by_idx idx m = Some (set_output None (mn_workspaces m ! idx), m') \<and>
    length (mn_workspaces m') = length (mn_workspaces m) - 1"
proof -
  let ?wss = "take idx (mn_workspaces m) @ drop (Suc idx) (mn_workspaces m)"
  let ?m2 = "m\<lparr>mn_workspaces := ?wss, mn_switch := None,
    mn_active := (if idx \<le> mn_active m \<and> 0 < mn_active m then mn_active m - 1 else mn_active m)\<rparr>"
  have r: "vec_remove idx (mn_workspaces m) = Some (mn_workspaces m ! idx, ?wss)" using idx by (simp add: vec_remove_def)
  have "last ?wss = last (mn_workspaces m)" "?wss \<noteq> []" using idx by auto
  then have "\<not> lacks_trailing_empty ?wss" using ok by (simp add: strip_ok_def lacks_trailing_empty_def)
  moreover have "MIN_NUM_WORKSPACES \<le> length ?wss" using idx len by (simp add: MIN_NUM_WORKSPACES_def)
  ultimately have "clean_up_workspaces ?m2 = Some (stamp_home_ordinals ?m2)" by (intro clean_up_noop) simp_all
  moreover have "length (mn_workspaces (stamp_home_ordinals ?m2)) = length ?wss"
    using grows_length [OF grows_stamp [OF grows_refl, of ?m2]] by simp
  moreover have "mn_workspaces m \<noteq> []" using len by auto
  ultimately show ?thesis using r idx by (auto simp: remove_workspace_by_idx_def)
qed

lemma sheddable_Some:
  assumes "sheddable wss = Some idx"
  shows "idx < length wss - 1" and "ws_tiles (wss ! idx) = []"
proof -
  obtain k where "k < length (rev [0..<length wss - 1])" "\<not> has_windows_or_name (wss ! (rev [0..<length wss - 1] ! k))"
    "idx = rev [0..<length wss - 1] ! k" using assms unfolding sheddable_def find_Some_iff by blast
  then have "idx \<in> set (rev [0..<length wss - 1])" "\<not> has_windows_or_name (wss ! idx)" using nth_mem by blast+
  then show "idx < length wss - 1" "ws_tiles (wss ! idx) = []" by (auto simp: has_windows_or_name_def has_windows_def)
qed

lemma shed_within_ok:
  "strip_ok m \<Longrightarrow> length (mn_workspaces m) \<le> fuel \<Longrightarrow> \<exists>m'. shed_within fuel n m = Some m' \<and> conserves m m'"
proof (induction fuel arbitrary: m)
  case 0
  then show ?case using strip_ok_length [of m] by simp
next
  case (Suc fuel)
  show ?case
  proof (cases "length (mn_workspaces m) \<le> max n MIN_NUM_WORKSPACES \<or> sheddable (mn_workspaces m) = None")
    case True
    then show ?thesis using conserves_refl [OF Suc.prems(1)] by auto
  next
    case False
    then obtain idx where s: "sheddable (mn_workspaces m) = Some idx" and len: "2 < length (mn_workspaces m)"
      by (auto simp: MIN_NUM_WORKSPACES_def)
    note e = sheddable_Some [OF s]
    obtain m1 where m1: "remove_workspace_by_idx idx m = Some (set_output None (mn_workspaces m ! idx), m1)"
      "length (mn_workspaces m1) = length (mn_workspaces m) - 1" using remove_middle [OF Suc.prems(1) e(1) len] by blast
    have c: "conserves m m1" using remove_at_ok [OF Suc.prems(1), of idx] m1(1) e by (auto simp: conserves_def)
    have fuel: "length (mn_workspaces m1) \<le> fuel" using m1(2) Suc.prems(2) by arith
    obtain m' where "shed_within fuel n m1 = Some m'" "conserves m1 m'"
      using Suc.IH [OF conserves_ok [OF c] fuel] by blast
    then show ?thesis using False s m1(1) conserves_trans [OF c] by auto
  qed
qed

lemma shed_ok: "strip_ok m \<Longrightarrow> \<exists>m'. shed_carry_padding_to n m = Some m' \<and> conserves m m'"
  by (simp add: shed_carry_padding_to_def shed_within_ok)

lemma last_of_positions:
  "(case x of None \<Rightarrow> 0 | Some i \<Rightarrow> (case filter (P i) [0..<n] of [] \<Rightarrow> 0 | ks \<Rightarrow> last ks)) = 0 \<or>
   (case x of None \<Rightarrow> 0 | Some i \<Rightarrow> (case filter (P i) [0..<n] of [] \<Rightarrow> 0 | ks \<Rightarrow> last ks)) < n"
proof (cases x)
  case (Some i)
  show ?thesis
  proof (cases "filter (P i) [0..<n]")
    case (Cons k ks)
    then have "last (k # ks) \<in> set (filter (P i) [0..<n])" by (metis last_in_set list.distinct(1))
    then have "last (k # ks) < n" by simp
    then show ?thesis by (simp only: Some Cons option.case list.case simp_thms)
  qed (simp add: Some)
qed simp

lemma new_monitor_ok:
  assumes "can_join wss next []"
  shows "strip_ok (new_monitor out wss activate next)" and "mn_output (new_monitor out wss activate next) = out"
    and "all_tiles (mn_workspaces (new_monitor out wss activate next)) = all_tiles wss"
proof -
  let ?wss = "map (set_output (Some out)) wss"
  define n where "n = (if lacks_trailing_empty ?wss then 1 else (0::nat))"
  define g where "g = n + (MIN_NUM_WORKSPACES - (length ?wss + n))"
  define a where "a = (case activate of None \<Rightarrow> 0
    | Some i \<Rightarrow> (case filter (\<lambda>k. ws_id (?wss ! k) = i) [0..<length ?wss] of [] \<Rightarrow> 0 | ks \<Rightarrow> last ks))"
  define m0 where "m0 = \<lparr>mn_output = out, mn_workspaces = ?wss @ fresh_ws out next g, mn_active = a, mn_previous = None,
    mn_switch = None, mn_next = next + g\<rparr>"
  have m: "new_monitor out wss activate next = stamp_home_ordinals m0"
    unfolding new_monitor_def Let_def m0_def fresh_ws_def a_def g_def n_def by (rule refl)
  have len: "length (fresh_ws out next g) = g" by (simp add: fresh_ws_def)
  have "wss_ok out next []" by (simp add: wss_ok_def all_tiles_def wins_ok_def acyclic_def)
  from can_join_ok [OF this assms] have "wss_ok out next ?wss" by simp
  then have "wss_ok out (next + g) (?wss @ fresh_ws out next g)" by (rule wss_ok_append_fresh)
  moreover have l2: "MIN_NUM_WORKSPACES \<le> length ?wss + g" by (simp add: g_def)
  have "a < length ?wss + g"
  proof -
    have "a = 0 \<or> a < length ?wss" unfolding a_def
      by (intro last_of_positions)
    then show ?thesis using l2 by (auto simp: MIN_NUM_WORKSPACES_def)
  qed
  moreover have "\<not> lacks_trailing_empty (?wss @ fresh_ws out next g)"
  proof (cases "g = 0")
    case True
    then show ?thesis by (simp add: g_def n_def fresh_ws_def split: if_splits)
  next
    case False
    then show ?thesis by (simp add: fresh_ws_def lacks_trailing_empty_def last_map)
  qed
  ultimately have ok: "strip_ok m0" using l2 len by (simp add: strip_ok_def strip_base_def m0_def)
  show "strip_ok (new_monitor out wss activate next)" unfolding m using stamp_conserves [OF ok] by (simp add: conserves_def)
  show "mn_output (new_monitor out wss activate next) = out" unfolding m by (simp add: m0_def)
  show "all_tiles (mn_workspaces (new_monitor out wss activate next)) = all_tiles wss" unfolding m
    using all_tiles_eq [OF stamp_core [of m0]] by (simp add: m0_def fresh_ws_empty)
qed

section \<open>The strip as a machine\<close>

datatype strip_op =
    AddWindow tile monitor_target activate_window | RemoveWindow nat
  | ActivateWindow nat "nat \<Rightarrow> bool" | MinimizeWindow nat | UnminimizeWindow nat activate_window | SetSticky nat bool
  | MoveWindow "nat option" nat activate_window | MoveWindowUp bool | MoveWindowDown bool
  | SwitchTo nat | SwitchUp int | SwitchDown int | SwitchBackAndForth nat | SwitchPrevious
  | GestureBegin | DndScrollBegin bool | GestureEnd bool nat | StripFrame bool
  | AddWorkspace nat | CloseWorkspace nat | UnnameWorkspace nat | RehomeWorkspace nat
  | MoveWorkspaceUp | MoveWorkspaceDown | MoveWorkspaceTo nat nat | ShedPadding nat
  | TakeWorkspace nat | InsertWorkspace workspace nat bool | AppendWorkspaces "workspace list"

fun strip_step :: "strip_op \<Rightarrow> monitor \<Rightarrow> monitor option" where
  "strip_step (AddWindow t target activate) m = mon_add_window t target activate m"
| "strip_step (RemoveWindow i) m = map_option snd (mon_remove_window i m)"
| "strip_step (ActivateWindow i swiping_over) m = mon_activate_window i swiping_over m"
| "strip_step (MinimizeWindow i) m = map_option fst (mon_minimize_window i m)"
| "strip_step (UnminimizeWindow i activate) m = map_option fst (mon_unminimize_window i activate m)"
| "strip_step (SetSticky i on) m = map_option fst (set_window_sticky i on m)"
| "strip_step (MoveWindow w idx activate) m = move_to_workspace w idx activate m"
| "strip_step (MoveWindowUp focus) m = move_to_workspace_up focus m"
| "strip_step (MoveWindowDown focus) m = move_to_workspace_down focus m"
| "strip_step (SwitchTo idx) m = switch_workspace idx m"
| "strip_step (SwitchUp apparent) m = switch_workspace_up apparent m"
| "strip_step (SwitchDown apparent) m = switch_workspace_down apparent m"
| "strip_step (SwitchBackAndForth idx) m = switch_workspace_auto_back_and_forth idx m"
| "strip_step SwitchPrevious m = switch_workspace_previous m"
| "strip_step GestureBegin m = Some (workspace_switch_gesture_begin m)"
| "strip_step (DndScrollBegin overview_open) m = Some (dnd_scroll_gesture_begin overview_open m)"
| "strip_step (GestureEnd same_device idx) m = workspace_switch_gesture_end same_device idx m"
| "strip_step (StripFrame switch_done) m = mon_advance_animations switch_done m"
| "strip_step (AddWorkspace idx) m = add_workspace_at idx m"
| "strip_step (CloseWorkspace i) m = map_option fst (close_workspace i m)"
| "strip_step (UnnameWorkspace i) m = map_option fst (unname_workspace i m)"
| "strip_step (RehomeWorkspace idx) m = Some (rehome_workspace idx m)"
| "strip_step MoveWorkspaceUp m = move_workspace_up m"
| "strip_step MoveWorkspaceDown m = move_workspace_down m"
| "strip_step (MoveWorkspaceTo old_idx new_idx) m = move_workspace_to_idx old_idx new_idx m"
| "strip_step (ShedPadding n) m = shed_carry_padding_to n m"
| "strip_step (TakeWorkspace idx) m = map_option snd (remove_workspace_by_idx idx m)"
| "strip_step (InsertWorkspace ws idx activate) m = insert_workspace ws idx activate m"
| "strip_step (AppendWorkspaces others) m = append_workspaces others m"

text \<open>What the callers see to: a window is added once, beside a window or on a workspace that is there; the
  parents clients name form no cycle; a window moved by id is laid out; indices are those of workspaces;
  and workspaces handed over bring windows and ids of their own.\<close>

fun strip_op_fits :: "strip_op \<Rightarrow> monitor \<Rightarrow> bool" where
  "strip_op_fits (AddWindow t target activate) m = (wins_ok (map wkey (t # all_tiles (mn_workspaces m))) \<and>
     (case target of OnActive \<Rightarrow> True
      | OnWorkspace i column \<Rightarrow> ws_idx i (mn_workspaces m) \<noteq> None \<and> (column \<longrightarrow> activate = ActYes)
      | BesideWindow i \<Rightarrow> laid_out i m))"
| "strip_op_fits (MoveWindow (Some i) idx activate) m = laid_out i m"
| "strip_op_fits (GestureEnd same_device idx) m = (idx < length (mn_workspaces m))"
| "strip_op_fits (AddWorkspace idx) m = (idx \<le> length (mn_workspaces m))"
| "strip_op_fits (TakeWorkspace idx) m = (idx < length (mn_workspaces m))"
| "strip_op_fits (InsertWorkspace ws idx activate) m = (can_join [ws] (mn_next m) (mn_workspaces m) \<and> idx \<le> length (mn_workspaces m))"
| "strip_op_fits (AppendWorkspaces others) m = can_join others (mn_next m) (mn_workspaces m)"
| "strip_op_fits _ m = True"

text \<open>The operations that bring windows to the strip or take them off it.\<close>

fun trades_windows :: "strip_op \<Rightarrow> bool" where
  "trades_windows (AddWindow t target activate) = True"
| "trades_windows (RemoveWindow i) = True"
| "trades_windows (TakeWorkspace idx) = True"
| "trades_windows (InsertWorkspace ws idx activate) = True"
| "trades_windows (AppendWorkspaces others) = True"
| "trades_windows _ = False"

lemma add_window_ok:
  assumes ok: "strip_ok m" and fits: "strip_op_fits (AddWindow t target activate) m"
  shows "\<exists>m'. mon_add_window t target activate m = Some m' \<and> strip_ok m' \<and> mn_output m' = mn_output m"
proof -
  have b: "mn_active m < length (mn_workspaces m)" "mn_workspaces m \<noteq> []" using strip_ok_bits [OF ok] by auto
  obtain idx to where r: "resolve_add_window_target target m = Some (idx, to)" "idx < length (mn_workspaces m)"
    "to = ToNewColumn \<Longrightarrow> activate = ActYes"
  proof (cases target)
    case OnActive
    then show ?thesis using that b(1) by (simp add: resolve_add_window_target_def)
  next
    case (OnWorkspace i column)
    then obtain k where "ws_idx i (mn_workspaces m) = Some k" using fits by auto
    then show ?thesis using that [of k] OnWorkspace fits ws_idx_Some [of i] by (auto simp: resolve_add_window_target_def)
  next
    case (BesideWindow i)
    then obtain k where k: "position (has_window i) (mn_workspaces m) = Some k" using fits laid_out_position by auto
    then have "k < length (mn_workspaces m)" by (simp add: position_Some)
    then show ?thesis using that [of k] k BesideWindow by (simp add: resolve_add_window_target_def)
  qed
  have wins: "wins_ok (map wkey (t # all_tiles (mn_workspaces m)))" using fits by simp
  show ?thesis using place_with [OF act_ok_activate ok wins r] b(2) by (auto simp: mon_add_window_def mon_add_tile_def)
qed

lemma mapped: "\<exists>r. x = Some r \<and> conserves m (f r) \<Longrightarrow> \<exists>m'. map_option f x = Some m' \<and> conserves m m'"
  by auto

lemma conserving_step:
  assumes ok: "strip_ok m" and fits: "strip_op_fits x m" and kind: "\<not> trades_windows x"
  shows "\<exists>m'. strip_step x m = Some m' \<and> conserves m m'"
proof -
  have b: "mn_active m < length (mn_workspaces m)" using strip_ok_bits [OF ok] by simp
  show ?thesis
  proof (cases x)
    case (MoveWindow w idx activate)
    then have "\<And>i. w = Some i \<Longrightarrow> laid_out i m" using fits by auto
    then show ?thesis using move_to_workspace_ok [OF ok] MoveWindow by simp
  next
    case (MoveWindowUp focus)
    then show ?thesis using move_active_to_ok [OF ok, of "mn_active m - 1" focus] b by (simp add: move_to_workspace_up_def)
  next
    case (MoveWindowDown focus)
    then show ?thesis using move_active_to_ok [OF ok min_last_less [OF ok], of "mn_active m + 1" focus]
      by (simp add: move_to_workspace_down_def)
  qed (use kind fits in \<open>simp_all only: strip_step.simps strip_op_fits.simps trades_windows.simps simp_thms option.inject ex_simps
    activate_window_ok [OF ok] mapped [OF minimize_window_ok [OF ok]] mapped [OF unminimize_window_ok [OF ok]]
    mapped [OF set_window_sticky_ok [OF ok]] switch_ok [OF ok] switch_up_down_ok [OF ok] switch_back_ok [OF ok]
    gesture_begin_ok [OF ok] gesture_end_ok [OF ok] advance_ok [OF ok] add_at_ok [OF ok] mapped [OF close_workspace_ok [OF ok]]
    mapped [OF unname_ok [OF ok]] rehome_ok [OF ok] move_workspace_ok [OF ok] move_to_idx_ok [OF ok] shed_ok [OF ok]\<close>)
qed

lemma strip_step_ok:
  assumes ok: "strip_ok m" and fits: "strip_op_fits x m"
  shows "\<exists>m'. strip_step x m = Some m' \<and> strip_ok m' \<and> mn_output m' = mn_output m"
proof (cases "trades_windows x")
  case False
  then show ?thesis using conserving_step [OF ok fits] by (auto simp: conserves_def)
next
  case True
  show ?thesis
  proof (cases x)
    case (AddWindow t target activate)
    then show ?thesis using add_window_ok [OF ok] fits by simp
  next
    case (RemoveWindow i)
    then show ?thesis using remove_window_ok [OF ok, of i] by auto
  next
    case (TakeWorkspace idx)
    then show ?thesis using remove_at_ok [OF ok, of idx] fits by auto
  next
    case (InsertWorkspace ws idx activate)
    then show ?thesis using insert_ok [OF ok, of ws idx activate] fits by auto
  next
    case (AppendWorkspaces others)
    then show ?thesis using append_ok [OF ok, of others] fits by auto
  qed (use True in simp_all)
qed

interpretation strip: guarded_machine strip_step strip_op_fits "\<lambda>m. strip_ok m \<and> mn_output m = out" for out
  by unfold_locales (use strip_step_ok in blast)

text \<open>Run on operations that trade no window, the machine also keeps the windows.\<close>

definition moves_only :: "strip_op \<Rightarrow> monitor \<Rightarrow> bool" where
  "moves_only x m \<longleftrightarrow> strip_op_fits x m \<and> \<not> trades_windows x"

interpretation moves: guarded_machine strip_step moves_only "conserves m0" for m0
proof
  fix m x assume "conserves m0 m" "moves_only x m"
  then show "\<exists>m'. strip_step x m = Some m' \<and> conserves m0 m'"
    using conserving_step [of m x] conserves_trans [of m0 m] conserves_ok by (auto simp: moves_only_def)
qed

lemma strip_ok_ws:
  assumes "strip_ok m" and "ws \<in> set (mn_workspaces m)"
  shows "ws_ok ws" and "ws_output ws = Some (mn_output m)"
  using strip_ok_bits [OF assms(1)] assms(2) by (auto simp: wss_ok_def)

lemma ws_ok_focus:
  assumes "ws_ok ws"
  shows "ws_active_window ws = None \<longleftrightarrow> st_tiles (ws_floating ws) = []"
proof (cases "st_tiles (ws_floating ws) = []")
  case True
  then show ?thesis using assms by (simp add: ws_ok_def ws_active_window_def)
next
  case False
  then show ?thesis using stack_ok_active [of "ws_floating ws"] assms by (auto simp: ws_ok_def ws_active_window_def)
qed




text \<open>Activating a window by id changes the workspace that holds it and no other.\<close>

lemma activate_not_held:
  assumes "\<not> holds_window i ws"
  shows "ws_activate_window i ws = Some (ws, False)"
proof -
  have "i \<notin> tl_id ` set (ws_minimized ws)" "i \<notin> tl_id ` set (st_tiles (ws_floating ws))"
    using assms by (auto simp: holds_window_def ws_tiles_def)
  then have "idx_of i (ws_minimized ws) = None" "idx_of i (st_tiles (ws_floating ws)) = None"
    unfolding idx_of_None by simp_all
  then show ?thesis by (simp add: ws_activate_window_def ws_unminimize_def stack_activate_def)
qed

lemma try_one:
  "k < length wss \<Longrightarrow> \<forall>j < k. f (wss ! j) = Some (wss ! j, False) \<Longrightarrow> f (wss ! k) = Some (w, True) \<Longrightarrow>
   try_workspaces f wss = Some (wss[k := w], Some k)"
proof (induction wss arbitrary: k)
  case (Cons ws wss)
  show ?case
  proof (cases k)
    case 0
    then show ?thesis using Cons.prems by simp
  next
    case (Suc l)
    then have "f ws = Some (ws, False)" "\<forall>j < l. f (wss ! j) = Some (wss ! j, False)" using Cons.prems(2) by auto
    then show ?thesis using Suc Cons.IH [of l] Cons.prems(1,3) by simp
  qed
qed simp

lemma held_once:
  assumes ok: "strip_ok m" and k: "k < length (mn_workspaces m)" "j < length (mn_workspaces m)" "holds_window i (mn_workspaces m ! k)"
    and ne: "j \<noteq> k"
  shows "\<not> holds_window i (mn_workspaces m ! j)"
proof
  assume "holds_window i (mn_workspaces m ! j)"
  then obtain s t where "s \<in> set (ws_tiles (mn_workspaces m ! j))" "t \<in> set (ws_tiles (mn_workspaces m ! k))" "tl_id s = tl_id t"
    using k(3) by (auto simp: holds_window_def)
  moreover have "distinct (map tl_id (all_tiles (mn_workspaces m)))" using strip_distinct strip_ok_bits [OF ok] by blast
  ultimately show False using one_place [of "mn_workspaces m" j k s t] k(1,2) ne by blast
qed

lemma activate_found:
  assumes ok: "strip_ok m" and k: "k < length (mn_workspaces m)" "has_window i (mn_workspaces m ! k)"
  shows "\<exists>w. try_workspaces (ws_activate_window i) (mn_workspaces m) = Some ((mn_workspaces m)[k := w], Some k) \<and>
    strip_ok (m\<lparr>mn_workspaces := (mn_workspaces m)[k := w]\<rparr>) \<and> map_option tl_id (ws_active_window w) = Some i"
proof -
  have wb: "wss_ok (mn_output m) (mn_next m) (mn_workspaces m)" using strip_ok_bits [OF ok] by simp
  note w0 = ws_in_strip [OF wb k(1)]
  obtain w where w: "ws_activate_window i (mn_workspaces m ! k) = Some (w, True)" "map_option tl_id (ws_active_window w) = Some i"
    using ws_activate_focus [OF w0(1,3) k(2)] by blast
  have "ws_like (mn_workspaces m ! k) w" using ws_activate_ok [OF w0(1,3), of i] w(1) by (auto simp: ws_like_def)
  then have "conserves m (m\<lparr>mn_workspaces := (mn_workspaces m)[k := w]\<rparr>)" by (rule put_like [OF ok k(1)])
  moreover have "holds_window i (mn_workspaces m ! k)" using k(2) by (simp add: holds_window_cases)
  then have "\<forall>j < k. ws_activate_window i (mn_workspaces m ! j) = Some (mn_workspaces m ! j, False)"
    using held_once [OF ok k(1)] k(1) activate_not_held by auto
  ultimately show ?thesis using try_one [of k "mn_workspaces m" "ws_activate_window i" w] k(1) w conserves_ok by blast
qed

text \<open> C40. Activating a window of another workspace while a sticky window has the focus does not give
  the window asked for the focus: its workspace is switched to, and the sticky window carried there
  takes the focus back from it.\<close>

theorem activated_window_loses_to_sticky:
  assumes "strip_ok m" and "mn_switch m = None"
    and "mon_active_window m = Some s" and "s \<in> set (sticky_window_ids (mn_workspaces m ! mn_active m))"
    and "k < length (mn_workspaces m)" and "k \<noteq> mn_active m" and "has_window i (mn_workspaces m ! k)"
  shows "\<exists>m'. mon_activate_window i swiping_over m = Some m' \<and> mn_active m' = k \<and> mon_active_window m' = Some s \<and> s \<noteq> i"
proof -
  let ?wss = "mn_workspaces m"
  obtain w where w: "try_workspaces (ws_activate_window i) ?wss = Some (?wss[k := w], Some k)"
    "strip_ok (m\<lparr>mn_workspaces := ?wss[k := w]\<rparr>)" using activate_found [OF assms(1,5,7)] by blast
  let ?m1 = "m\<lparr>mn_workspaces := ?wss[k := w]\<rparr>"
  have a: "mn_active m < length ?wss" using strip_ok_bits [OF assms(1)] by simp
  have same: "mon_active_window ?m1 = Some s" "s \<in> set (sticky_window_ids (mn_workspaces ?m1 ! mn_active ?m1))"
    using assms(3,4,6) by (simp_all add: mon_active_window_def)
  have k1: "k < length (mn_workspaces ?m1)" "k \<noteq> mn_active ?m1" using assms(5,6) by simp_all
  obtain m' where m': "activate_workspace k ?m1 = Some m'" "mn_active m' = k" "mon_active_window m' = Some s"
    using activate_ok [OF w(2) k1(1)] k1(2) same by blast
  have "has_window s (?wss ! mn_active m)" using assms(4) by (auto simp: sticky_window_ids_def Let_def)
  then have "s \<noteq> i" using held_once [OF assms(1) a assms(5)] assms(6,7) holds_window_cases by blast
  moreover have "min k (length ?wss - 1) = k" using assms(5) by linarith
  then have "mon_activate_window i swiping_over m = Some m'"
    using w(1) m'(1) assms(2) by (simp add: mon_activate_window_def switch_workspace_def)
  ultimately show ?thesis using m' by blast
qed
text \<open>A display whose two workspaces hold the sticky window 2 and the window 3.\<close>

definition screen :: output_identity where
  "screen = from_connector [65]"

definition held_ws :: "nat \<Rightarrow> tile list \<Rightarrow> nat option \<Rightarrow> nat \<Rightarrow> workspace" where
  "held_ws i ts act ord = \<lparr>ws_id = i, ws_name = None, ws_floating = \<lparr>st_tiles = ts, st_active = act\<rparr>,
     ws_floating_is_active = (if ts = [] then ActiveNo else ActiveYes), ws_minimized = [], ws_home = screen, ws_home_ordinal = ord,
     ws_claimed = False, ws_output = Some screen\<rparr>"

definition sticky_tile :: tile where
  "sticky_tile = (plain_tile 2 None)\<lparr>tl_sticky := True, tl_sticky_home := Some 5\<rparr>"

definition strip_of :: "workspace list \<Rightarrow> nat \<Rightarrow> monitor" where
  "strip_of wss next = \<lparr>mn_output = screen, mn_workspaces = wss, mn_active = 0, mn_previous = None, mn_switch = None, mn_next = next\<rparr>"

lemma strip_demo_steps:
  "new_monitor screen [] None 5 = strip_of [held_ws 5 [] None 0, held_ws 6 [] None 1] 7"
  "strip_step (AddWindow (plain_tile 2 None) OnActive ActYes) (strip_of [held_ws 5 [] None 0, held_ws 6 [] None 1] 7) =
     Some (strip_of [held_ws 5 [plain_tile 2 None] (Some 2) 0, held_ws 6 [] None 1] 7)"
  "strip_step (SetSticky 2 True) (strip_of [held_ws 5 [plain_tile 2 None] (Some 2) 0, held_ws 6 [] None 1] 7) =
     Some (strip_of [held_ws 5 [sticky_tile] (Some 2) 0, held_ws 6 [] None 1] 7)"
  "strip_step (AddWindow (plain_tile 3 None) (OnWorkspace 6 False) ActNo)
       (strip_of [held_ws 5 [sticky_tile] (Some 2) 0, held_ws 6 [] None 1] 7) =
     Some (strip_of [held_ws 5 [sticky_tile] (Some 2) 0, held_ws 6 [plain_tile 3 None] (Some 3) 1, held_ws 7 [] None 2] 8)"
  by code_simp+
definition demo_ops :: "strip_op list" where
  "demo_ops = [AddWindow (plain_tile 2 None) OnActive ActYes, SetSticky 2 True, AddWindow (plain_tile 3 None) (OnWorkspace 6 False) ActNo]"

definition demo_strip :: monitor where
  "demo_strip = strip_of [held_ws 5 [sticky_tile] (Some 2) 0, held_ws 6 [plain_tile 3 None] (Some 3) 1, held_ws 7 [] None 2] 8"

lemma wins_ok_flat: "distinct (map fst ks) \<Longrightarrow> \<forall>k \<in> set ks. snd k = None \<Longrightarrow> wins_ok ks"
  by (force simp: wins_ok_def intro: acyclic_downward)

lemma held_tiles: "all_tiles (held_ws i ts act ord # wss) = ts @ all_tiles wss" "all_tiles [] = []"
  by (simp_all add: all_tiles_def held_ws_def ws_tiles_def)

lemma demo_run: "guarded_run strip_step demo_ops (new_monitor screen [] None 5) = Some demo_strip"
  unfolding demo_ops_def demo_strip_def by (simp only: guarded_run.simps strip_demo_steps bind.simps)

lemma demo_fits: "guarded_fits strip_step strip_op_fits demo_ops (new_monitor screen [] None 5)"
proof -
  have 1: "wins_ok (map wkey (plain_tile 2 None # all_tiles (mn_workspaces (strip_of [held_ws 5 [] None 0, held_ws 6 [] None 1] 7))))"
    by (rule wins_ok_flat) (simp_all add: strip_of_def held_tiles wkey_def plain_tile_def)
  have 2: "wins_ok (map wkey (plain_tile 3 None # all_tiles (mn_workspaces (strip_of [held_ws 5 [sticky_tile] (Some 2) 0, held_ws 6 [] None 1] 7))))"
    by (rule wins_ok_flat) (simp_all add: strip_of_def held_tiles wkey_def plain_tile_def sticky_tile_def)
  have 3: "ws_idx 6 (mn_workspaces (strip_of [held_ws 5 [sticky_tile] (Some 2) 0, held_ws 6 [] None 1] 7)) \<noteq> None" by code_simp
  show ?thesis unfolding demo_ops_def using 1 2 3 by (simp add: strip_demo_steps del: strip_step.simps One_nat_def)
qed

lemma can_join_none: "can_join [] n []"
  by (simp add: can_join_def all_tiles_def wins_ok_flat)

lemma demo_ok: "strip_ok demo_strip"
proof -
  have "strip_ok (new_monitor screen [] None 5) \<and> mn_output (new_monitor screen [] None 5) = screen"
    using new_monitor_ok [OF can_join_none] by simp
  from strip.guarded_run_ok [OF this demo_fits] show ?thesis unfolding demo_run by (elim exE conjE) (simp only: option.inject)
qed


definition demo_wss :: "workspace list" where
  "demo_wss = [held_ws 5 [sticky_tile] (Some 2) 0, held_ws 6 [plain_tile 3 None] (Some 3) 1]"

lemma demo_wss_ok: "\<forall>ws \<in> set demo_wss. ws_ok ws"
  using strip_ok_bits [OF demo_ok] by (simp add: wss_ok_def demo_strip_def strip_of_def demo_wss_def)

lemma demo_wss_join: "can_join demo_wss 7 []"
proof -
  have "wins_ok (map wkey (all_tiles demo_wss))" unfolding demo_wss_def
    by (rule wins_ok_flat) (simp_all add: held_tiles wkey_def plain_tile_def sticky_tile_def)
  then show ?thesis using demo_wss_ok by (simp add: can_join_def) (simp add: demo_wss_def held_ws_def)
qed

definition demo_moves :: "strip_op list" where
  "demo_moves = [SwitchTo 1, MoveWorkspaceUp, SetSticky 2 False, MinimizeWindow 3, CloseWorkspace 5]"

lemma demo_moves_fit: "guarded_fits strip_step moves_only demo_moves m"
  by (simp add: demo_moves_def moves_only_def split: option.split del: strip_step.simps)


lemma demo_facts:
  "mon_active_window demo_strip = Some 2" "sticky_window_ids (mn_workspaces demo_strip ! 0) = [2]"
  "mn_active demo_strip = 0" "length (mn_workspaces demo_strip) = 3" "mn_switch demo_strip = None"
  "has_window 3 (mn_workspaces demo_strip ! 1)"
  by code_simp+


theorem activated_window_loses_to_sticky_witness:
  "strip_ok demo_strip \<and> mn_switch demo_strip = None \<and> mon_active_window demo_strip = Some 2 \<and> has_window 3 (mn_workspaces demo_strip ! 1) \<and>
   (\<exists>m'. mon_activate_window 3 (\<lambda>_. False) demo_strip = Some m' \<and> mn_active m' = 1 \<and> mon_active_window m' = Some 2)"
proof -
  have c: "1 < length (mn_workspaces demo_strip)" "1 \<noteq> mn_active demo_strip"
    "2 \<in> set (sticky_window_ids (mn_workspaces demo_strip ! mn_active demo_strip))" by (simp_all add: demo_facts)
  from activated_window_loses_to_sticky [OF demo_ok demo_facts(5,1) c(3,1,2) demo_facts(6), of "\<lambda>_. False"]
  obtain m' where "mon_activate_window 3 (\<lambda>_. False) demo_strip = Some m'" "mn_active m' = 1" "mon_active_window m' = Some 2"
    by (elim exE conjE)
  then show ?thesis using demo_ok demo_facts(1,5,6) by (intro conjI exI [of _ m'])
qed

end
