(* ===== verification/Spec2Isabelle.thy ===== *)
theory Spec2Isabelle
  imports Screen_Shield Unlock_Dialog Lock_Watch Session_Protocol Notifications Strip_Machine
begin

text \<open>
  A verification of parts of \<^bold>\<open>synoik\<close>, a Wayland compositor and desktop shell written in Rust
  that behaves like GNOME. Modelled are the lock screen from the state machine of the shield down to
  the keys typed into the password entry, the greeter built on the same parts, the store and the
  protocol that remember and restore a client's windows, the notification store, the stacking order
  of a workspace's windows, and a display's strip of workspaces. Paths below are relative to \<open>src/\<close> of the repository.

  \<^bold>\<open>Conventions.\<close> A struct is a record whose fields carry a prefix, an enum a datatype, a method a
  function from the old state (its last argument) to the new one, paired with what it returns. Lists
  of effects stand for what the caller then carries out (requests to gdm, signals, redraws). \<open>None\<close>
  of an \<open>option\<close> result is a panic: an index out of range, a failed assertion, an \<open>unwrap\<close> on
  nothing, a string cut inside a character. \<open>Result\<close> is a sum. A \<open>Duration\<close> is a natural number of
  nanoseconds, a counter a natural number. Strings are lists of Unicode scalar values with their
  UTF-8 byte offsets (\<open>Rust_Str\<close>). A \<open>HashMap\<close> is a finite map. Code outside the repository is an
  argument: grapheme segmentation, the JSON encoder and decoder, the clock, the answers of gdm and
  logind, whether two windows overlap on screen. The hypotheses about it are named where it is used
  and have an instance in each witness.

  \<^bold>\<open>The lock.\<close>
  \<^item> \<open>Screen_Shield\<close>: \<open>src/screen_shield.rs\<close>, the shield: idle, fade, activation, locking once a
    verifier answers, suspend, loss and recovery of the verifier's channel. C1 to C5: what can lock
    it, what can unlock it, stale answers, suspend, the recovery's back-off.
  \<^item> \<open>Text_Edit\<close> over \<open>Rust_Str\<close>: \<open>src/ui/text_edit.rs\<close>, the entry. C6 to C10: no panic on any keys,
    what the outcome tells, nothing of a password left behind, kill and yank, masking.
  \<^item> \<open>Verifier\<close>, \<open>Unlock_Dialog\<close>: \<open>src/dbus/gdm.rs\<close>, \<open>src/unlock_dialog.rs\<close>, the conversation with
    gdm. C11 to C16: unlocking only on gdm's word, the life of the entry's text, the first letter,
    one answer per question, errors stay readable, and a queued message that loses its timer.
  \<^item> \<open>Timers\<close>: \<open>src/utils/timers.rs\<close>; \<open>Session_Mode\<close>, \<open>Lock_Screen\<close>, \<open>Login_Grid\<close>: the stack of
    session modes, the curtain's clocks and the greeter's grid.
  \<^item> \<open>Lock_Session\<close>: the handlers of \<open>src/synoik.rs\<close> that tie these together; \<open>Lock_Invariants\<close> and
    \<open>Lock_Watch\<close> prove their invariants. C17 to C22: a locked session is unlocked only by gdm, by
    the session bus or by logind; the compositor moves the shield only by the shield's operations (a
    refinement); no event panics; an open request times out and the lock holds; timers run once and
    in order; a greeter is always locked.

  \<^bold>\<open>Remembered windows.\<close>
  \<^item> \<open>Session_Store\<close>: \<open>src/session_state.rs\<close> and \<open>src/output_identity.rs\<close>. C23 to C26: save and load
    round trip, the cap keeps the recent, the writer thread under any interleaving writes the last
    snapshot and ends, and a crash never leaves a torn file.
  \<^item> \<open>Session_Protocol\<close>: \<open>src/protocols/session_management.rs\<close> and the saving of live windows. C27 to
    C29: who can change stored windows, a replaced session stays inert, a removed session that
    comes back.

  \<^bold>\<open>Notifications.\<close> \<open>Notifications\<close>: \<open>src/notifications.rs\<close> and its driver in \<open>src/synoik.rs\<close>. C30 to
  C34: no panic and consistent ids, sources and queue; every id is live or closed exactly once; one
  client cannot close another's; a replacement of low urgency that still shows; the pixel-icon
  decoder equals a per-pixel reference.

  \<^bold>\<open>Windows and workspaces.\<close>
  \<^item> \<open>Window_Stack\<close>: the order of windows in \<open>src/layout/floating.rs\<close>. C35 and C36: over any run of
    operations windows stay above their parents and the always-on-top band is restored by the next
    frame; lowering a dialog puts it under its parent.
  \<^item> \<open>Workspaces\<close>: \<open>src/layout/workspace.rs\<close>, a workspace with its stack, its minimized windows, its
    sticky windows, and the display that is its home.
  \<^item> \<open>Strips\<close>: \<open>src/layout/monitor.rs\<close>, the workspaces of one display: growing, closing, reordering,
    activating, handing over, moving windows, gestures and frames, and the lookups of
    \<open>src/layout/mod.rs\<close> that find a window's workspace on it. \<open>activate_workspace_inner\<close> and \<open>add_tile\<close>
    call each other in the source; what placing a window does to activate its workspace is an
    argument of \<open>add_tile_with\<close>, and \<open>move_ActNo\<close> shows that the carried windows never use it.
  \<^item> \<open>Strip_Invariants\<close>, \<open>Strip_Machine\<close>: each operation keeps the strip's invariant, and those that
    only move windows keep them all. C37 to C40: any run of operations keeps the strip in order and
    never panics; no window is lost; sticky windows follow the active workspace and keep the focus;
    and a window activated on another workspace loses the focus to a sticky one.

  \<^bold>\<open>How the theories share.\<close> \<open>Prelude\<close> has the interfaces as locales: \<open>invariant_machine\<close> (an
  invariant kept by every step holds over runs, and the first step that changes a predicate is
  found; interpreted by the shield and the session protocol), \<open>total_machine\<close> (steps that may panic
  but do not; interpreted by the dialog, the lock session and the notification store),
  \<open>guarded_machine\<close> (steps with a condition their callers see to, which neither panic nor break the
  invariant under it; interpreted by the window stack and, for two invariants, by the strip),
  \<open>timer_client\<close> and \<open>one_shot_client\<close> (a state that uses the timer wheel only through its interface;
  interpreted by the lock session).

  \<^bold>\<open>Bounds.\<close> Loops are structural recursion, so no fuel is used except where the code itself counts:
  the walk up the transient chain in \<open>is_in_above_band\<close> takes at most as many steps as there are
  tiles, as in the source, and \<open>in_band_iff\<close> shows that this is enough; so does the walk of
  \<open>sticky_window_ids\<close>. The loop of \<open>shed_carry_padding_to\<close> has the length of the strip as fuel, and
  \<open>shed_ok\<close> shows that it returns: each round shortens the strip by one. Counters (ids, epochs,
  tokens) are unbounded where the code has \<open>u64\<close>, \<open>usize\<close> or, for notification ids, \<open>u32\<close>: the
  statements are about runs in which they do not overflow.

  \<^bold>\<open>Not modelled.\<close> Rendering, GPU and DRM, geometry and animations (floating point), the scrolling
  layout, which holds no windows in GNOME mode, D-Bus and Wayland transport, PipeWire, configuration
  parsing, the login program and the splash. Of the strip, the overview, the thumbnails, where a
  swipe comes to rest and the drawing of a switch are geometry and are left out. Above it, the set of
  displays (hotplug, the primary display, interactive moves between displays, where restored windows
  go) is not modelled: a strip is followed alone, and what it gives to and takes from others are its
  operations. In GNOME windowing mode every window is in the stack, so the scrolling half of a
  workspace is empty and is left out of its record.
\<close>

end
